(* ===== verification/Lesf_Prelude.thy ===== *)
theory Lesf_Prelude
  imports Main "HOL-Library.Word"
begin

text \<open>
  Shared vocabulary of the development: the result type of fallible C++ code, runs of event
  driven machines, decimal printing of integers, zero terminated strings, and the lemma
  collections the component theories draw on.
\<close>

named_theorems outcome_simps \<open>rewriting of results of fallible code\<close>
named_theorems decimal_simps \<open>decimal printing and reading\<close>

section \<open>Results of fallible code\<close>

text \<open>
  A C++ call returns a value, throws, runs into undefined behaviour, or ends the process with
  \<^verbatim>\<open>std::terminate()\<close>. Which kind of undefined behaviour is reached is kept, so that theorems can
  tell a null pointer from an overrun buffer.
\<close>

datatype ub = Null_Deref | Buffer_Overflow | Relock_Mutex | Pop_Empty | Bad_Iterator | Use_After_Free | Unlock_Free

datatype ('e, 'a) outcome = Ok 'a | Throw 'e | Undef ub | Terminate

type_synonym cint = "32 word"
type_synonym cstr = "string option"
type_synonym int64 = "64 word"

fun obind :: "('e, 'a) outcome \<Rightarrow> ('a \<Rightarrow> ('e, 'b) outcome) \<Rightarrow> ('e, 'b) outcome" where
  "obind (Ok a) f = f a"
| "obind (Throw e) f = Throw e"
| "obind (Undef u) f = Undef u"
| "obind Terminate f = Terminate"

text \<open>A function declared \<^verbatim>\<open>noexcept\<close>, or the body of a thread: an escaping exception ends the process.\<close>

fun no_except :: "('e, 'a) outcome \<Rightarrow> ('e, 'a) outcome" where
  "no_except (Throw e) = Terminate"
| "no_except r = r"

text \<open>\<^verbatim>\<open>try { m } catch (E const& e) { h(e) }\<close>, where \<open>p e\<close> says that the clause matches \<open>e\<close>.\<close>

fun try_catch :: "('e, 'a) outcome \<Rightarrow> ('e \<Rightarrow> bool) \<Rightarrow> ('e \<Rightarrow> ('e, 'a) outcome) \<Rightarrow> ('e, 'a) outcome" where
  "try_catch (Throw e) p h = (if p e then h e else Throw e)"
| "try_catch r p h = r"

text \<open>Reading through a pointer that may be null.\<close>

definition deref :: "'a option \<Rightarrow> ('e, 'a) outcome" where
  "deref p = (case p of None \<Rightarrow> Undef Null_Deref | Some a \<Rightarrow> Ok a)"

lemma deref_simps [simp, outcome_simps]: "deref None = Undef Null_Deref" "deref (Some a) = Ok a"
  by (simp_all add: deref_def)

lemma obind_eq_Ok [outcome_simps]: "obind m f = Ok b \<longleftrightarrow> (\<exists>a. m = Ok a \<and> f a = Ok b)"
  by (cases m) auto

lemma obind_eq_Throw [outcome_simps]:
  "obind m f = Throw e \<longleftrightarrow> m = Throw e \<or> (\<exists>a. m = Ok a \<and> f a = Throw e)"
  by (cases m) auto

lemma obind_assoc: "obind (obind m f) g = obind m (\<lambda>a. obind (f a) g)"
  by (cases m) auto

lemma obind_Ok_right [simp]: "obind m Ok = m"
  by (cases m) auto

lemma no_except_never_throws: "no_except m \<noteq> Throw e"
  by (cases m) auto

lemma try_catch_eq_Ok [outcome_simps]:
  "try_catch m p h = Ok a \<longleftrightarrow> m = Ok a \<or> (\<exists>e. m = Throw e \<and> p e \<and> h e = Ok a)"
  by (cases m) auto

section \<open>Machines driven by events\<close>

text \<open>
  A component whose callbacks are fired by its environment is a function that gives the next state
  for an event, or \<open>None\<close> when the event cannot happen in that state. A run is a list of events.
\<close>

fun exec :: "('s \<Rightarrow> 'e \<Rightarrow> 's option) \<Rightarrow> 's \<Rightarrow> 'e list \<Rightarrow> 's option" where
  "exec step s [] = Some s"
| "exec step s (e # es) = (case step s e of None \<Rightarrow> None | Some t \<Rightarrow> exec step t es)"

lemma exec_append: "exec step s (es @ fs) = Option.bind (exec step s es) (\<lambda>t. exec step t fs)"
  by (induction es arbitrary: s) (auto split: option.splits)

lemma exec_then: "exec step s es = Some t \<Longrightarrow> exec step s (es @ fs) = exec step t fs"
  by (simp add: exec_append)

lemma exec_snoc: "exec step s (es @ [e]) = Option.bind (exec step s es) (\<lambda>t. step t e)"
  by (simp add: exec_append split: option.splits) (metis (no_types, lifting) exec.simps(1) option.case_eq_if option.collapse)

text \<open>
  The contract every state machine below discharges: each event keeps the invariant. Whatever is
  proved from it holds after every run.
\<close>

locale event_machine =
  fixes step :: "'s \<Rightarrow> 'e \<Rightarrow> 's option"
    and inv :: "'s \<Rightarrow> bool"
  assumes step_inv: "inv s \<Longrightarrow> step s e = Some t \<Longrightarrow> inv t"
begin

lemma exec_keeps: "inv s \<Longrightarrow> exec step s es = Some t \<Longrightarrow> inv t"
proof (induction es arbitrary: s)
  case Nil
  then show ?case by simp
next
  case (Cons e es)
  then show ?case by (auto split: option.splits intro: step_inv)
qed

lemma exec_keeps_prefix: "inv s \<Longrightarrow> exec step s (es @ fs) = Some t \<Longrightarrow> \<exists>u. exec step s es = Some u \<and> inv u"
  by (cases "exec step s es") (auto simp: exec_append intro: exec_keeps)

end

section \<open>Decimal numbers\<close>

definition digit_char :: "nat \<Rightarrow> char" where
  "digit_char d = char_of (48 + d)"

definition char_digit :: "char \<Rightarrow> nat" where
  "char_digit c = of_char c - 48"

definition is_digit :: "char \<Rightarrow> bool" where
  "is_digit c \<longleftrightarrow> 48 \<le> (of_char c :: nat) \<and> (of_char c :: nat) \<le> 57"

fun nat_dec :: "nat \<Rightarrow> string" where
  "nat_dec n = (if n < 10 then [digit_char n] else nat_dec (n div 10) @ [digit_char (n mod 10)])"

declare nat_dec.simps [simp del]

definition int_dec :: "int \<Rightarrow> string" where
  "int_dec i = (if i < 0 then CHR ''-'' # nat_dec (nat (- i)) else nat_dec (nat i))"

definition dec_val :: "string \<Rightarrow> nat" where
  "dec_val s = foldl (\<lambda>n c. 10 * n + char_digit c) 0 s"

lemma of_char_digit_char: "d < 10 \<Longrightarrow> (of_char (digit_char d) :: nat) = 48 + d"
  by (simp add: digit_char_def)

lemma digit_char_props [decimal_simps]:
  "d < 10 \<Longrightarrow> is_digit (digit_char d)" "d < 10 \<Longrightarrow> char_digit (digit_char d) = d"
  by (simp_all add: is_digit_def char_digit_def of_char_digit_char)

lemma dec_val_Nil [simp]: "dec_val [] = 0"
  by (simp add: dec_val_def)

lemma dec_val_snoc [simp]: "dec_val (s @ [c]) = 10 * dec_val s + char_digit c"
  by (simp add: dec_val_def)

lemma nat_dec_nonempty [simp]: "nat_dec n \<noteq> []"
  by (subst nat_dec.simps) simp

lemma nat_dec_digits: "c \<in> set (nat_dec n) \<Longrightarrow> is_digit c"
proof (induction n rule: nat_dec.induct)
  case (1 n)
  then show ?case
    by (subst (asm) (2) nat_dec.simps) (auto simp: decimal_simps split: if_splits)
qed

lemma nat_dec_all_digits [decimal_simps]: "list_all is_digit (nat_dec n)"
  by (auto simp: list_all_iff intro: nat_dec_digits)

lemma dec_val_nat_dec [simp, decimal_simps]: "dec_val (nat_dec n) = n"
proof (induction n rule: nat_dec.induct)
  case (1 n)
  show ?case
  proof (cases "n < 10")
    case True
    then have "nat_dec n = [] @ [digit_char n]" by (simp add: nat_dec.simps)
    then show ?thesis using True by (simp only: dec_val_snoc) (simp add: decimal_simps)
  next
    case False
    then have "nat_dec n = nat_dec (n div 10) @ [digit_char (n mod 10)]"
      by (simp add: nat_dec.simps)
    then show ?thesis using 1 False by (simp add: decimal_simps)
  qed
qed

lemma length_nat_dec_le: "n < 10 ^ k \<Longrightarrow> 0 < k \<Longrightarrow> length (nat_dec n) \<le> k"
proof (induction k arbitrary: n)
  case 0
  then show ?case by simp
next
  case (Suc k)
  show ?case
  proof (cases "n < 10")
    case True
    then show ?thesis by (subst nat_dec.simps) simp
  next
    case False
    then have "0 < k" using Suc.prems by (cases k) auto
    moreover have "n div 10 < 10 ^ k" using Suc.prems by auto
    ultimately have "length (nat_dec (n div 10)) \<le> k" by (rule Suc.IH [rotated])
    then show ?thesis using False by (subst nat_dec.simps) simp
  qed
qed

lemma length_nat_dec_gt: "10 ^ k \<le> n \<Longrightarrow> k < length (nat_dec n)"
proof (induction k arbitrary: n)
  case 0
  then show ?case by simp
next
  case (Suc k)
  have "(1::nat) \<le> 10 ^ k" by simp
  with Suc.prems have big: "\<not> n < 10" unfolding power_Suc by linarith
  from Suc.prems have "10 ^ k \<le> n div 10"
    by (metis div_le_mono nonzero_mult_div_cancel_left power_Suc zero_neq_numeral)
  then have "k < length (nat_dec (n div 10))" by (rule Suc.IH)
  then show ?case using big by (subst nat_dec.simps) simp
qed

section \<open>Zero terminated strings\<close>

definition nul :: char where
  "nul = CHR 0x00"

text \<open>The bytes of a C string read from a buffer: everything before the first zero byte.\<close>

definition c_str :: "string \<Rightarrow> string" where
  "c_str s = takeWhile (\<lambda>c. c \<noteq> nul) s"

lemma c_str_no_nul: "nul \<notin> set s \<Longrightarrow> c_str s = s"
  unfolding c_str_def by (auto simp: takeWhile_eq_all_conv)

lemma c_str_terminated: "nul \<notin> set s \<Longrightarrow> c_str (s @ nul # r) = s"
  unfolding c_str_def by (subst takeWhile_append2) auto

lemma nul_not_in_c_str: "nul \<notin> set (c_str s)"
  by (auto simp: c_str_def dest: set_takeWhileD)

lemma length_c_str_le: "length (c_str s) \<le> length s"
  by (simp add: c_str_def length_takeWhile_le)

lemma c_str_idem [simp]: "c_str (c_str s) = c_str s"
  by (simp add: c_str_no_nul nul_not_in_c_str)

end
