(* ===== verification/Core_Exception.thy ===== *)
theory Core_Exception
  imports Lesf_Prelude
begin

text \<open>
  The exception classes of \<^verbatim>\<open>inc/lesf/core/exception.h\<close>, \<^verbatim>\<open>src/core/exception.cpp\<close> and
  \<^verbatim>\<open>inc/lesf/ipc/exception.h\<close>: the class hierarchy with the virtual \<^verbatim>\<open>recoverable()\<close>, the build and debug
  information an exception carries, the string builder and the \<^verbatim>\<open>LESF_CORE_THROW\<close> macro. A stack
  trace of Boost is the list of its frame addresses; printing it is a parameter of the code that does.
\<close>

section \<open>Data\<close>

type_synonym stacktrace = "nat list"

text \<open>The fields are \<^verbatim>\<open>const char*\<close> in the code: \<open>None\<close> is the null pointer of a value initialised struct.\<close>

record build_info =
  bi_set :: bool
  bi_file :: cstr
  bi_line :: cint
  bi_function :: cstr
  bi_build_date :: cstr
  bi_build_time :: cstr
  bi_user_build_id :: cstr
  bi_user_program :: cstr
  bi_user_version :: cstr

record debug_info =
  di_set :: bool
  di_trace :: stacktrace

text \<open>
  The classes: the two roots, the library's own, and classes of the user of the library, which have a
  name, possibly an override of \<^verbatim>\<open>recoverable()\<close>, and a base.
\<close>

datatype exc_class =
    Exception
  | RecoverableException
  | UnrecoverableException
  | SharedMemoryException
  | TypeException
  | DataFormatException
  | BadActionId
  | UserException string "bool option" exc_class

record exc =
  exc_cls :: exc_class
  exc_what :: string
  exc_build_info :: build_info
  exc_debug_info :: debug_info

text \<open>
  Exceptions derived from \<^verbatim>\<open>std::exception\<close> that the code can meet: its own, those of the JSON library
  and any other, which is known by its RTTI name and its description.
\<close>

datatype cpp_exc = CoreExc exc | JsonExc string | StdExc string string

type_synonym 'a res = "(cpp_exc, 'a) outcome"

text \<open>\<^verbatim>\<open>what()\<close> gives a \<^verbatim>\<open>const char*\<close>, so its readers see the description up to the first zero byte.\<close>

fun what :: "cpp_exc \<Rightarrow> string" where
  "what (CoreExc e) = c_str (exc_what e)"
| "what (JsonExc s) = c_str s"
| "what (StdExc n s) = c_str s"

section \<open>The class hierarchy\<close>

fun ancestors :: "exc_class \<Rightarrow> exc_class list" where
  "ancestors Exception = [Exception]"
| "ancestors RecoverableException = [RecoverableException, Exception]"
| "ancestors UnrecoverableException = [UnrecoverableException, Exception]"
| "ancestors SharedMemoryException = [SharedMemoryException, RecoverableException, Exception]"
| "ancestors TypeException = [TypeException, RecoverableException, Exception]"
| "ancestors DataFormatException = [DataFormatException, RecoverableException, Exception]"
| "ancestors BadActionId = [BadActionId, RecoverableException, Exception]"
| "ancestors (UserException n ov b) = UserException n ov b # ancestors b"

text \<open>What a handler \<^verbatim>\<open>catch (d const&)\<close> matches.\<close>

definition is_a :: "exc_class \<Rightarrow> exc_class \<Rightarrow> bool" where
  "is_a c d \<longleftrightarrow> d \<in> set (ancestors c)"

text \<open>\<^verbatim>\<open>recoverable()\<close> as each class declares it, and its dynamic dispatch.\<close>

fun own_recoverable :: "exc_class \<Rightarrow> bool option" where
  "own_recoverable Exception = Some False"
| "own_recoverable RecoverableException = Some True"
| "own_recoverable (UserException n ov b) = ov"
| "own_recoverable c = None"

fun dispatch_recoverable :: "exc_class list \<Rightarrow> bool" where
  "dispatch_recoverable [] = False"
| "dispatch_recoverable (c # cs) =
     (case own_recoverable c of Some b \<Rightarrow> b | None \<Rightarrow> dispatch_recoverable cs)"

definition recoverable :: "exc_class \<Rightarrow> bool" where
  "recoverable c = dispatch_recoverable (ancestors c)"

fun overrides_recoverable :: "exc_class \<Rightarrow> bool" where
  "overrides_recoverable (UserException n ov b) = (ov \<noteq> None \<or> overrides_recoverable b)"
| "overrides_recoverable c = False"

text \<open>The two handlers the library writes.\<close>

fun catches_core :: "cpp_exc \<Rightarrow> bool" where
  "catches_core (CoreExc e) = is_a (exc_cls e) Exception"
| "catches_core _ = False"

fun catches_recoverable :: "cpp_exc \<Rightarrow> bool" where
  "catches_recoverable (CoreExc e) = is_a (exc_cls e) RecoverableException"
| "catches_recoverable _ = False"

fun catches_json :: "cpp_exc \<Rightarrow> bool" where
  "catches_json (JsonExc _) = True"
| "catches_json _ = False"

lemma is_a_Exception [simp]: "is_a c Exception"
  by (induction c) (auto simp: is_a_def)

lemma catches_core_iff: "catches_core x \<longleftrightarrow> (\<exists>e. x = CoreExc e)"
  by (cases x) auto

lemma dispatch_recoverable_iff:
  "\<not> overrides_recoverable c \<Longrightarrow> dispatch_recoverable (ancestors c) \<longleftrightarrow> RecoverableException \<in> set (ancestors c)"
  by (induction c) auto

section \<open>Constructors\<close>

definition null_build_info :: build_info where
  "null_build_info =
     \<lparr>bi_set = False, bi_file = None, bi_line = 0, bi_function = None, bi_build_date = None,
      bi_build_time = None, bi_user_build_id = None, bi_user_program = None, bi_user_version = None\<rparr>"

text \<open>
  Value initialising a \<^verbatim>\<open>DebugInfo\<close> clears the flag; the default constructor of the trace still records
  the current frames, \<open>here\<close>.
\<close>

definition null_debug_info :: "stacktrace \<Rightarrow> debug_info" where
  "null_debug_info here = \<lparr>di_set = False, di_trace = here\<rparr>"

definition Exception_build :: "stacktrace \<Rightarrow> exc_class \<Rightarrow> build_info \<Rightarrow> string \<Rightarrow> exc" where
  "Exception_build here cls bi w =
     \<lparr>exc_cls = cls, exc_what = w, exc_build_info = bi, exc_debug_info = null_debug_info here\<rparr>"

definition Exception_full :: "exc_class \<Rightarrow> build_info \<Rightarrow> debug_info \<Rightarrow> string \<Rightarrow> exc" where
  "Exception_full cls bi di w =
     \<lparr>exc_cls = cls, exc_what = w, exc_build_info = bi, exc_debug_info = di\<rparr>"

definition Exception_plain :: "stacktrace \<Rightarrow> exc_class \<Rightarrow> string \<Rightarrow> exc" where
  "Exception_plain here cls w =
     \<lparr>exc_cls = cls, exc_what = w, exc_build_info = null_build_info,
      exc_debug_info = null_debug_info here\<rparr>"

definition buildInfo :: "exc \<Rightarrow> build_info" where
  "buildInfo e = exc_build_info e"

definition debugInfo :: "exc \<Rightarrow> debug_info" where
  "debugInfo e = exc_debug_info e"

section \<open>Throwing\<close>

text \<open>\<^verbatim>\<open>InfoStringBuilder\<close>: each \<open><<\<close> formats one piece, which may throw, into the stream.\<close>

fun info_string :: "string \<Rightarrow> string res list \<Rightarrow> string res" where
  "info_string os [] = Ok os"
| "info_string os (p # ps) = obind p (\<lambda>t. info_string (os @ t) ps)"

text \<open>
  What the macro's environment supplies: the compiler's date and time, the \<^verbatim>\<open>LESF_USER_*\<close> definitions of
  the build, and the frames at the point of the throw.
\<close>

record throw_env =
  te_date :: string
  te_time :: string
  te_build_id :: string
  te_program :: string
  te_version :: string
  te_trace :: stacktrace

record site =
  st_file :: string
  st_line :: cint
  st_function :: string

definition site_build_info :: "throw_env \<Rightarrow> site \<Rightarrow> build_info" where
  "site_build_info E st =
     \<lparr>bi_set = True, bi_file = Some (st_file st), bi_line = st_line st,
      bi_function = Some (st_function st), bi_build_date = Some (te_date E),
      bi_build_time = Some (te_time E), bi_user_build_id = Some (te_build_id E),
      bi_user_program = Some (te_program E), bi_user_version = Some (te_version E)\<rparr>"

definition site_debug_info :: "throw_env \<Rightarrow> debug_info" where
  "site_debug_info E = \<lparr>di_set = True, di_trace = te_trace E\<rparr>"

definition site_exception :: "throw_env \<Rightarrow> exc_class \<Rightarrow> site \<Rightarrow> string \<Rightarrow> exc" where
  "site_exception E cls st w = Exception_full cls (site_build_info E st) (site_debug_info E) w"

definition unable_to_describe :: "string \<Rightarrow> string" where
  "unable_to_describe msg = ''<unable to construct description string> `'' @ msg @ [CHR 0x27]"

text \<open>
  \<^verbatim>\<open>LESF_CORE_THROW(exc_type, msg)\<close>: \<open>pieces\<close> is the stream expression, \<open>msg\<close> its source text. The
  exception built in the \<^verbatim>\<open>try\<close> is itself a \<^verbatim>\<open>core::Exception\<close>, so its own handler rethrows it.
\<close>

definition LESF_CORE_THROW ::
  "throw_env \<Rightarrow> exc_class \<Rightarrow> site \<Rightarrow> string res list \<Rightarrow> string \<Rightarrow> 'a res" where
  "LESF_CORE_THROW E cls st pieces msg =
     try_catch
       (try_catch
          (obind (info_string [] pieces) (\<lambda>w. Throw (CoreExc (site_exception E cls st w))))
          catches_core (\<lambda>e. Throw e))
       (\<lambda>e. \<not> catches_core e)
       (\<lambda>e. Throw (CoreExc (site_exception E cls st (unable_to_describe msg))))"

lemma info_string_Ok_pieces: "info_string os (map Ok ws) = Ok (os @ concat ws)"
  by (induction ws arbitrary: os) auto

lemma LESF_CORE_THROW_Ok:
  "info_string [] pieces = Ok w \<Longrightarrow>
   LESF_CORE_THROW E cls st pieces msg = Throw (CoreExc (site_exception E cls st w))"
  by (simp add: LESF_CORE_THROW_def)

lemma LESF_CORE_THROW_strings [outcome_simps]:
  "LESF_CORE_THROW E cls st (map Ok ws) msg = Throw (CoreExc (site_exception E cls st (concat ws)))"
  by (simp add: LESF_CORE_THROW_def info_string_Ok_pieces)

lemma LESF_CORE_THROW_std:
  "info_string [] pieces = Throw x \<Longrightarrow> \<not> catches_core x \<Longrightarrow>
   LESF_CORE_THROW E cls st pieces msg =
     Throw (CoreExc (site_exception E cls st (unable_to_describe msg)))"
  by (simp add: LESF_CORE_THROW_def)

lemma LESF_CORE_THROW_core:
  "info_string [] pieces = Throw (CoreExc e) \<Longrightarrow>
   LESF_CORE_THROW E cls st pieces msg = Throw (CoreExc e)"
  by (simp add: LESF_CORE_THROW_def)

lemma site_exception_sel [simp]:
  "exc_cls (site_exception E cls st w) = cls" "exc_what (site_exception E cls st w) = w"
  "exc_build_info (site_exception E cls st w) = site_build_info E st"
  "exc_debug_info (site_exception E cls st w) = site_debug_info E"
  by (simp_all add: site_exception_def Exception_full_def)

section \<open>Properties\<close>

text \<open>
  The virtual \<^verbatim>\<open>recoverable()\<close> of an exception answers \<^verbatim>\<open>true\<close> exactly when the handler
  \<^verbatim>\<open>catch (core::RecoverableException const&)\<close> of the receiving thread would catch it, for every class
  of the library and every class derived from them that does not override \<^verbatim>\<open>recoverable()\<close>.
\<close>

theorem recoverable_iff_caught:
  assumes "\<not> overrides_recoverable (exc_cls e)"
  shows "recoverable (exc_cls e) \<longleftrightarrow> catches_recoverable (CoreExc e)"
  using assms by (simp add: recoverable_def is_a_def dispatch_recoverable_iff)

theorem recoverable_iff_caught_witness:
  "recoverable (exc_cls (Exception_plain [] DataFormatException ''bad data''))
     \<longleftrightarrow> catches_recoverable (CoreExc (Exception_plain [] DataFormatException ''bad data''))"
  by (rule recoverable_iff_caught) (simp add: Exception_plain_def)

text \<open>
  C39. \<^verbatim>\<open>LESF_CORE_THROW\<close> always throws an exception of the library when building its message does not hit
  undefined behaviour: the requested class with build and debug information set and either the built message or
  the fallback text, unless formatting a piece threw an exception of the library itself, which is
  then the one that propagates.
\<close>

theorem LESF_CORE_THROW_throws:
  assumes "\<And>u. info_string [] pieces \<noteq> Undef u" and "info_string [] pieces \<noteq> Terminate"
  shows "\<exists>e. LESF_CORE_THROW E cls st pieces msg = Throw (CoreExc e) \<and>
           (info_string [] pieces = Throw (CoreExc e) \<or>
            exc_cls e = cls \<and> bi_set (buildInfo e) \<and> bi_file (buildInfo e) = Some (st_file st) \<and>
            bi_line (buildInfo e) = st_line st \<and> di_set (debugInfo e) \<and>
            (info_string [] pieces = Ok (exc_what e) \<or> exc_what e = unable_to_describe msg))"
proof (cases "info_string [] pieces")
  case (Ok w)
  then show ?thesis
    by (auto simp: LESF_CORE_THROW_Ok buildInfo_def debugInfo_def site_build_info_def site_debug_info_def)
next
  case (Throw x)
  then show ?thesis
    by (cases "catches_core x")
      (auto simp: LESF_CORE_THROW_std LESF_CORE_THROW_core catches_core_iff buildInfo_def debugInfo_def
        site_build_info_def site_debug_info_def)
qed (use assms in simp_all)

theorem LESF_CORE_THROW_throws_witness:
  "\<exists>e. LESF_CORE_THROW (\<lparr>te_date = ''d'', te_time = ''t'', te_build_id = ''b'', te_program = ''p'',
          te_version = ''v'', te_trace = [1]\<rparr>) TypeException
          \<lparr>st_file = ''f'', st_line = 7, st_function = ''g''\<rparr>
          [Ok ''a'', Throw (StdExc ''n'' ''bad cast'')] ''a << b'' = (Throw (CoreExc e) :: nat res) \<and>
        exc_cls e = TypeException \<and> exc_what e = unable_to_describe ''a << b''"
  using LESF_CORE_THROW_throws [where pieces = "[Ok ''a'', Throw (StdExc ''n'' ''bad cast'')]"
      and E = "\<lparr>te_date = ''d'', te_time = ''t'', te_build_id = ''b'', te_program = ''p'',
          te_version = ''v'', te_trace = [1]\<rparr>" and cls = TypeException
      and st = "\<lparr>st_file = ''f'', st_line = 7, st_function = ''g''\<rparr>" and msg = "''a << b''"]
  by auto

end
