(* ===== verification/Log_Framing.thy ===== *)
theory Log_Framing
  imports Core_Exception
begin

text \<open>
  The wire between \<^verbatim>\<open>log::Client\<close> and \<^verbatim>\<open>log::Session\<close>: the header that \<^verbatim>\<open>Client::send\<close> prints before a message
  (\<^verbatim>\<open>src/log/client.cpp\<close>) and the session's two read handlers (\<^verbatim>\<open>src/log/session.cpp\<close>), which take the bytes
  of the socket apart again. The interface of the two sides is a locale; the sessions of the server and the
  queue of the client rest on it.
\<close>

section \<open>The client's frame\<close>

definition HeaderSize :: nat where
  "HeaderSize = 8"

text \<open>\<^verbatim>\<open>sprintf(header, "%0*lu", Session::HeaderSize, msg.size())\<close> into a buffer of one byte more than the header.\<close>

definition header_text :: "nat \<Rightarrow> string" where
  "header_text n = replicate (HeaderSize - length (nat_dec n)) CHR ''0'' @ nat_dec n"

definition frame :: "string \<Rightarrow> string res" where
  "frame msg =
     (let header = header_text (length msg)
      in if HeaderSize + 1 < length header + 1 then Undef Buffer_Overflow else Ok (header @ msg))"

section \<open>The session's handlers\<close>

text \<open>\<^verbatim>\<open>std::atoi\<close>: white space, a sign, digits, and nothing else is looked at.\<close>

definition is_space :: "char \<Rightarrow> bool" where
  "is_space c \<longleftrightarrow> (let n = of_char c :: nat in n = 32 \<or> (9 \<le> n \<and> n \<le> 13))"

definition atoi :: "string \<Rightarrow> int" where
  "atoi s =
     (let t = dropWhile is_space s in
      case t of [] \<Rightarrow> 0
      | c # cs \<Rightarrow>
          if c = CHR ''-'' then - int (dec_val (takeWhile is_digit cs))
          else if c = CHR ''+'' then int (dec_val (takeWhile is_digit cs))
          else int (dec_val (takeWhile is_digit t)))"

text \<open>The largest size a \<^verbatim>\<open>std::vector<char>\<close> takes; \<^verbatim>\<open>resize\<close> throws \<^verbatim>\<open>std::length_error\<close> above it.\<close>

definition max_size :: nat where
  "max_size = 2 ^ 63 - 1"

definition on_header :: "string \<Rightarrow> nat res" where
  "on_header h =
     (let size = word_of_int (atoi (c_str h)) :: 64 word
      in if max_size < unat size then Throw (StdExc ''std::length_error'' ''vector::_M_default_append'')
         else Ok (unat size))"

text \<open>
  A session waits for the rest of a header or of a message (with the bytes that already arrived), is
  gone (erased from the server's set after a read error), or took the process down with an
  exception that left a handler on the I/O thread.
\<close>

datatype phase = Header | Body nat

datatype session = Waiting phase string | Gone | Crashed

text \<open>
  \<open>drain\<close> runs the handlers while their reads can complete: a read of \<open>n\<close> bytes completes when \<open>n\<close> bytes
  are there, one of no bytes at once. The result lists the messages handed to the server.
\<close>

function drain :: "phase \<Rightarrow> string \<Rightarrow> string list \<times> session" where
  "drain Header buf =
     (if length buf < HeaderSize then ([], Waiting Header buf)
      else case on_header (take HeaderSize buf) of
        Ok n \<Rightarrow> drain (Body n) (drop HeaderSize buf)
      | _ \<Rightarrow> ([], Crashed))"
| "drain (Body n) buf =
     (if length buf < n then ([], Waiting (Body n) buf)
      else apfst (Cons (take n buf)) (drain Header (drop n buf)))"
  by pat_completeness auto
termination
  by (relation "measure (\<lambda>(p, buf). 2 * length buf + (case p of Header \<Rightarrow> 0 | Body _ \<Rightarrow> 1))")
    (auto simp: HeaderSize_def)

declare drain.simps [simp del]

definition new_session :: session where
  "new_session = Waiting Header []"

fun feed :: "session \<Rightarrow> string \<Rightarrow> string list \<times> session" where
  "feed (Waiting p buf) bs = drain p (buf @ bs)"
| "feed s bs = ([], s)"

text \<open>The peer closes: the pending read fails and the session erases itself.\<close>

fun read_error :: "session \<Rightarrow> session" where
  "read_error (Waiting p buf) = Gone"
| "read_error s = s"

fun feed_all :: "session \<Rightarrow> string list \<Rightarrow> string list \<times> session" where
  "feed_all s [] = ([], s)"
| "feed_all s (c # cs) = (case feed s c of (ms, t) \<Rightarrow> apfst (append ms) (feed_all t cs))"

section \<open>The interface\<close>

locale framing =
  fixes enc :: "string \<Rightarrow> string res"
    and dec :: "'s \<Rightarrow> string \<Rightarrow> string list \<times> 's"
    and idle :: 's
  assumes dec_frame: "enc m = Ok f \<Longrightarrow> dec idle (f @ r) = apfst (Cons m) (dec idle r)"
    and dec_split: "dec s (a @ b) = (case dec s a of (ms, t) \<Rightarrow> apfst (append ms) (dec t b))"
    and dec_idle: "dec idle [] = ([], idle)"
begin

lemma dec_frames:
  "list_all2 (\<lambda>m f. enc m = Ok f) ms fs \<Longrightarrow> dec idle (concat fs @ r) = apfst (append ms) (dec idle r)"
proof (induction rule: list_all2_induct)
  case Nil
  then show ?case by (simp add: prod.expand)
next
  case (Cons m ms f fs)
  then show ?case by (simp add: dec_frame prod.expand)
qed

lemma dec_frames_exact:
  "list_all2 (\<lambda>m f. enc m = Ok f) ms fs \<Longrightarrow> dec idle (concat fs) = (ms, idle)"
  using dec_frames [of ms fs "[]"] by (simp add: dec_idle)

lemma dec_prefix:
  assumes "list_all2 (\<lambda>m f. enc m = Ok f) ms fs" and "concat fs = a @ b"
  shows "\<exists>rest. ms = fst (dec idle a) @ rest"
  using dec_frames_exact [OF assms(1)] dec_split [of idle a b] assms(2)
  by (cases "dec idle a"; cases "dec (snd (dec idle a)) b") auto

text \<open>A decoder that has digested its input finds nothing more in it.\<close>

lemma dec_settled: "dec s a = (ms, t) \<Longrightarrow> dec t [] = ([], t)"
  using dec_split [of s a "[]"] by (cases "dec t []") auto

end

section \<open>Both sides implement it\<close>

lemma atoi_zeros: "ds \<noteq> [] \<Longrightarrow> list_all is_digit ds \<Longrightarrow> atoi ds = int (dec_val ds)"
proof -
  assume ds: "ds \<noteq> []" "list_all is_digit ds"
  then obtain c cs where c: "ds = c # cs" "is_digit c" by (cases ds) auto
  then have "\<not> is_space c" and "c \<noteq> CHR ''-''" and "c \<noteq> CHR ''+''"
    by (auto simp: is_space_def is_digit_def Let_def)
  moreover have "takeWhile is_digit ds = ds" using ds(2) by (simp add: takeWhile_eq_all_conv list_all_iff)
  ultimately show ?thesis using c by (simp add: atoi_def del: takeWhile_eq_all_conv)
qed

lemma dec_val_zeros: "dec_val (replicate k CHR ''0'' @ ds) = dec_val ds"
proof (induction ds rule: rev_induct)
  case Nil
  show ?case
  proof (induction k)
    case (Suc k)
    then have "dec_val (replicate k CHR ''0'') = 0" by simp
    then have "dec_val (replicate k CHR ''0'' @ [CHR ''0'']) = 0"
      by (subst dec_val_snoc) (simp add: char_digit_def)
    then show ?case by (simp add: replicate_append_same)
  qed simp
next
  case (snoc d ds)
  then show ?case by (simp flip: append_assoc)
qed

lemma header_text_digits: "list_all is_digit (header_text n)" and header_text_nonempty: "header_text n \<noteq> []"
  by (auto simp: header_text_def decimal_simps list_all_iff is_digit_def dest: nat_dec_digits)

lemma header_length_iff: "length (header_text n) = HeaderSize \<longleftrightarrow> n < 10 ^ HeaderSize"
  using length_nat_dec_le [of n HeaderSize] length_nat_dec_gt [of HeaderSize n]
  by (cases "n < 10 ^ HeaderSize") (simp_all add: header_text_def HeaderSize_def)

lemma header_length_ge: "HeaderSize \<le> length (header_text n)"
  by (simp add: header_text_def)

lemma frame_Ok_iff: "frame m = Ok f \<longleftrightarrow> length m < 10 ^ HeaderSize \<and> f = header_text (length m) @ m"
  using header_length_iff [of "length m"] header_length_ge [of "length m"]
  by (auto simp: frame_def Let_def)

lemma digit_not_nul: "is_digit c \<Longrightarrow> c \<noteq> nul"
  by (auto simp: is_digit_def nul_def)

lemma on_header_text: "n < 10 ^ HeaderSize \<Longrightarrow> on_header (header_text n) = Ok n"
proof -
  assume n: "n < 10 ^ HeaderSize"
  have "nul \<notin> set (header_text n)"
    using header_text_digits [of n] digit_not_nul by (auto simp: list_all_iff)
  moreover have "atoi (header_text n) = int n"
    using atoi_zeros [OF header_text_nonempty header_text_digits, of n]
    by (simp add: header_text_def dec_val_zeros)
  moreover have "unat (word_of_int (int n) :: 64 word) = n"
    using n by (simp add: unat_of_nat HeaderSize_def)
  ultimately show ?thesis
    using n by (simp add: on_header_def c_str_no_nul Let_def max_size_def HeaderSize_def)
qed

lemma drain_frame: "frame m = Ok f \<Longrightarrow> drain Header (f @ r) = apfst (Cons m) (drain Header r)"
proof -
  assume "frame m = Ok f"
  then have m: "length m < 10 ^ HeaderSize" and f: "f = header_text (length m) @ m"
    by (simp_all add: frame_Ok_iff)
  then have "length (header_text (length m)) = HeaderSize" by (simp add: header_length_iff)
  then have "drain Header (f @ r) = drain (Body (length m)) (m @ r)"
    using on_header_text [OF m] by (subst drain.simps) (simp add: f)
  then show ?thesis by (simp add: drain.simps(2))
qed

lemma drain_split: "drain p (buf @ b) = (case drain p buf of (ms, t) \<Rightarrow> apfst (append ms) (feed t b))"
proof (induction p buf rule: drain.induct)
  case (1 buf)
  show ?case
  proof (cases "length buf < HeaderSize")
    case True
    then show ?thesis by (subst (2) drain.simps) (simp add: prod.expand)
  next
    case False
    then have take: "take HeaderSize (buf @ b) = take HeaderSize buf"
      and drop: "drop HeaderSize (buf @ b) = drop HeaderSize buf @ b" by simp_all
    show ?thesis
    proof (cases "on_header (take HeaderSize buf)")
      case (Ok n)
      then have "drain Header (buf @ b) = drain (Body n) (drop HeaderSize buf @ b)"
        and "drain Header buf = drain (Body n) (drop HeaderSize buf)"
        using False take drop by (simp_all add: drain.simps(1))
      then show ?thesis using 1 False Ok by simp
    qed (use False take in \<open>simp_all add: drain.simps(1)\<close>)
  qed
next
  case (2 n buf)
  show ?case
  proof (cases "length buf < n")
    case True
    then show ?thesis by (subst (2) drain.simps) (simp add: prod.expand)
  next
    case False
    then have "drain (Body n) (buf @ b) = apfst (Cons (take n buf)) (drain Header (drop n buf @ b))"
      and "drain (Body n) buf = apfst (Cons (take n buf)) (drain Header (drop n buf))"
      by (simp_all add: drain.simps(2))
    then show ?thesis using 2 False by (cases "drain Header (drop n buf)") (simp add: prod.expand)
  qed
qed

lemma feed_split: "feed s (a @ b) = (case feed s a of (ms, t) \<Rightarrow> apfst (append ms) (feed t b))"
  by (cases s) (simp_all add: drain_split flip: append_assoc)

lemma feed_new: "feed new_session bs = drain Header bs"
  by (simp add: new_session_def)

interpretation wire: framing frame feed new_session
proof
  show "feed new_session (f @ r) = apfst (Cons m) (feed new_session r)" if "frame m = Ok f" for m f r
    using drain_frame [OF that] by (simp add: feed_new)
  show "feed s (a @ b) = (case feed s a of (ms, t) \<Rightarrow> apfst (append ms) (feed t b))" for s a b
    by (rule feed_split)
  show "feed new_session [] = ([], new_session)"
    by (simp add: feed_new drain.simps(1) HeaderSize_def) (simp add: new_session_def)
qed

lemma feed_all_concat: "feed s [] = ([], s) \<Longrightarrow> feed_all s cs = feed s (concat cs)"
proof (induction cs arbitrary: s)
  case (Cons c cs)
  obtain ms t where t: "feed s c = (ms, t)" by (cases "feed s c")
  then show ?case using Cons.IH [OF wire.dec_settled [OF t]] by (simp add: feed_split)
qed simp

lemma frames_exist: "\<forall>m \<in> set ms. length m < 10 ^ HeaderSize \<Longrightarrow>
    list_all2 (\<lambda>m f. frame m = Ok f) ms (map (\<lambda>m. header_text (length m) @ m) ms)"
  by (simp add: list_all2_map2 list.rel_refl_strong list_all2_same frame_Ok_iff)

lemma header_text_small:
  "header_text 0 = ''00000000''" "header_text (Suc 0) = ''00000001''"
  "header_text (Suc (Suc 0)) = ''00000002''"
  by code_simp+

section \<open>Properties\<close>

text \<open>
  C4. Messages cross the wire unchanged: however TCP cuts the client's frames into pieces, a session fed with
  the pieces delivers exactly the messages sent, in order, and is ready for the next header. Each
  message must be shorter than one hundred million bytes.
\<close>

theorem session_receives_frames:
  assumes "\<forall>m \<in> set ms. length m < 10 ^ HeaderSize"
    and "concat pieces = concat (map (\<lambda>m. header_text (length m) @ m) ms)"
  shows "list_all2 (\<lambda>m f. frame m = Ok f) ms (map (\<lambda>m. header_text (length m) @ m) ms) \<and>
         feed_all new_session pieces = (ms, new_session)"
  using frames_exist [OF assms(1)] wire.dec_frames_exact [OF frames_exist [OF assms(1)]] assms(2)
  by (simp add: feed_all_concat wire.dec_idle)

theorem session_receives_frames_witness:
  "list_all2 (\<lambda>m f. frame m = Ok f) [''ab'', []] (map (\<lambda>m. header_text (length m) @ m) [''ab'', []]) \<and>
   feed_all new_session [''00'', ''000002a'', ''b0000'', ''0000''] = ([''ab'', []], new_session)"
  by (rule session_receives_frames)
    (simp_all add: HeaderSize_def header_text_small)

text \<open>
  A broken connection loses only a suffix: whatever initial part of the byte stream a session got before
  the connection failed, the messages it delivered are an initial part of those the client framed, each
  of them whole.
\<close>

theorem session_delivers_prefix:
  assumes "\<forall>m \<in> set ms. length m < 10 ^ HeaderSize"
    and "concat pieces @ lost = concat (map (\<lambda>m. header_text (length m) @ m) ms)"
  shows "\<exists>rest. ms = fst (feed_all new_session pieces) @ rest"
  using wire.dec_prefix [OF frames_exist [OF assms(1)] assms(2) [symmetric]]
  by (simp add: feed_all_concat wire.dec_idle)

theorem session_delivers_prefix_witness:
  "\<exists>rest. [''ab'', ''c''] = fst (feed_all new_session [''0000'', ''0002ab00'']) @ rest"
  by (rule session_delivers_prefix [where lost = "''000001c''"])
    (simp_all add: HeaderSize_def header_text_small)

text \<open>
  The header buffer: \<^verbatim>\<open>Client::send\<close> prints a header of exactly eight digits for every message of less
  than one hundred million bytes, and overruns its nine byte buffer for every longer one.
\<close>

theorem frame_bounds:
  "(case frame m of
      Ok f \<Rightarrow> length m < 10 ^ 8 \<and> length f = 8 + length m \<and> drop 8 f = m \<and>
              list_all is_digit (take 8 f) \<and> dec_val (take 8 f) = length m
    | r \<Rightarrow> 10 ^ 8 \<le> length m \<and> r = Undef Buffer_Overflow)"
proof (cases "length m < 10 ^ HeaderSize")
  case True
  have "length (header_text (length m)) = 8" using True header_length_iff by (simp add: HeaderSize_def)
  moreover have "dec_val (header_text (length m)) = length m"
    by (simp add: header_text_def dec_val_zeros)
  moreover have "frame m = Ok (header_text (length m) @ m)" using True by (simp add: frame_Ok_iff)
  ultimately show ?thesis using True header_text_digits by (simp add: HeaderSize_def)
next
  case False
  then have "frame m = Undef Buffer_Overflow"
    using header_length_iff [of "length m"] header_length_ge [of "length m"] by (simp add: frame_def Let_def)
  then show ?thesis using False by (simp add: HeaderSize_def)
qed

lemma dec_val_bound: "list_all is_digit ds \<Longrightarrow> dec_val ds < 10 ^ length ds"
proof (induction ds rule: rev_induct)
  case (snoc d ds)
  then have "dec_val ds + 1 \<le> 10 ^ length ds" and "char_digit d \<le> 9"
    by (auto simp: char_digit_def is_digit_def)
  then show ?case by simp
qed simp

lemma takeWhile_digits_bound: "length s \<le> k \<Longrightarrow> dec_val (takeWhile is_digit s) < 10 ^ k"
proof -
  assume "length s \<le> k"
  then have "length (takeWhile is_digit s) \<le> k" using length_takeWhile_le [of is_digit s] by linarith
  then have "(10::nat) ^ length (takeWhile is_digit s) \<le> 10 ^ k" by (simp add: power_increasing)
  moreover have "dec_val (takeWhile is_digit s) < 10 ^ length (takeWhile is_digit s)"
    by (rule dec_val_bound) (auto simp: list_all_iff dest: set_takeWhileD)
  ultimately show ?thesis by linarith
qed

lemma atoi_bound: "length s \<le> k \<Longrightarrow> \<bar>atoi s\<bar> < 10 ^ k"
proof -
  assume s: "length s \<le> k"
  then have t: "length (dropWhile is_space s) \<le> k" using length_dropWhile_le [of is_space s] by linarith
  then show ?thesis
    using takeWhile_digits_bound [OF t] takeWhile_digits_bound [of "tl (dropWhile is_space s)" k]
    by (cases "dropWhile is_space s") (auto simp: atoi_def Let_def simp del: dropWhile_eq_Nil_conv)
qed

lemma on_header_cases:
  assumes "length h = HeaderSize"
  shows "if atoi (c_str h) < 0 then \<exists>e. on_header h = Throw e
         else \<exists>n. on_header h = Ok n \<and> int n = atoi (c_str h) \<and> n < 10 ^ 8"
proof -
  have "\<bar>atoi (c_str h)\<bar> < 10 ^ 8"
    using atoi_bound [of "c_str h" 8] length_c_str_le [of h] assms by (simp add: HeaderSize_def)
  then have small: "- (10 ^ 8) < atoi (c_str h)" "atoi (c_str h) < 10 ^ 8" by auto
  have u: "int (unat (word_of_int (atoi (c_str h)) :: 64 word)) = atoi (c_str h) mod 2 ^ 64"
    by (simp add: unsigned_of_int take_bit_eq_mod)
  show ?thesis
  proof (cases "atoi (c_str h) < 0")
    case True
    have "atoi (c_str h) mod 2 ^ 64 = atoi (c_str h) + 2 ^ 64"
      using True small by (subst mod_add_self2 [symmetric], subst mod_pos_pos_trivial) auto
    then have "int max_size < int (unat (word_of_int (atoi (c_str h)) :: 64 word))"
      using u small by (simp add: max_size_def)
    then have "max_size < unat (word_of_int (atoi (c_str h)) :: 64 word)" by (simp only: of_nat_less_iff)
    then show ?thesis using True by (simp add: on_header_def Let_def)
  next
    case False
    then have "int (unat (word_of_int (atoi (c_str h)) :: 64 word)) = atoi (c_str h)"
      using u small by simp
    then have n: "unat (word_of_int (atoi (c_str h)) :: 64 word) = nat (atoi (c_str h))" by linarith
    have "nat (atoi (c_str h)) < 10 ^ 8" using False small by simp
    then show ?thesis using False n by (simp add: on_header_def Let_def max_size_def)
  qed
qed

lemma negative_header_throws: "length h = HeaderSize \<Longrightarrow> atoi (c_str h) < 0 \<Longrightarrow> \<exists>e. on_header h = Throw e"
  using on_header_cases [of h] by simp

text \<open>
  The size a session allocates is bounded by its eight byte header: any accepted header announces
  less than one hundred million bytes, and the only headers not accepted are those that \<^verbatim>\<open>atoi\<close> reads as
  a negative number.
\<close>

theorem header_size_bounds:
  assumes "length h = HeaderSize"
  shows "if atoi (c_str h) < 0 then \<exists>e. on_header h = Throw e
         else \<exists>n. on_header h = Ok n \<and> int n = atoi (c_str h) \<and> n < 10 ^ 8"
  by (rule on_header_cases) (rule assms)

theorem header_size_bounds_witness:
  "length ''-0000001'' = HeaderSize \<and>
   (if atoi (c_str ''-0000001'') < 0 then \<exists>e. on_header ''-0000001'' = Throw e
    else \<exists>n. on_header ''-0000001'' = Ok n \<and> int n = atoi (c_str ''-0000001'') \<and> n < 10 ^ 8)"
  using header_size_bounds [of "''-0000001''"] by (simp add: HeaderSize_def)

text \<open>
  Eight bytes from any client stop the server process: a header that \<^verbatim>\<open>atoi\<close> reads as negative makes the
  session's handler throw on the I/O thread, after the messages before it were delivered.
\<close>

theorem negative_header_crashes:
  assumes "\<forall>m \<in> set ms. length m < 10 ^ HeaderSize" and "length h = HeaderSize" and "atoi (c_str h) < 0"
  shows "feed new_session (concat (map (\<lambda>m. header_text (length m) @ m) ms) @ h @ rest) = (ms, Crashed)"
proof -
  obtain e where "on_header h = Throw e" using negative_header_throws [OF assms(2,3)] by blast
  then have "feed new_session (h @ rest) = ([], Crashed)"
    using assms(2) by (simp add: feed_new drain.simps(1))
  then show ?thesis using wire.dec_frames [OF frames_exist [OF assms(1)], of "h @ rest"] by simp
qed

theorem negative_header_crashes_witness:
  "feed new_session (concat (map (\<lambda>m. header_text (length m) @ m) [''ok'']) @ ''-0000001'' @ ''x'')
     = ([''ok''], Crashed)"
  by (rule negative_header_crashes)
    (simp_all add: HeaderSize_def c_str_def nul_def atoi_def Let_def is_space_def is_digit_def dec_val_def
      char_digit_def)

end
