(* ===== verification/Log_Client.thy ===== *)
theory Log_Client
  imports Log_Framing
begin

text \<open>
  \<^verbatim>\<open>log::Client\<close> (\<^verbatim>\<open>inc/lesf/log/client.h\<close>, \<^verbatim>\<open>src/log/client.cpp\<close>) as a machine driven by the completions of its
  asynchronous operations. Boost.Asio decides which completion comes next: it is the
  environment, and an event is possible whenever an operation it completes is pending. Posted handlers
  run in the order they were posted, on the one I/O thread.
\<close>

section \<open>State\<close>

datatype posted = PQueue string | PClose

datatype client_fault = Uncaught_Exception | Header_Overflow | Front_Of_Empty_Queue | Pop_Of_Empty_Queue

text \<open>
  \<open>cl_connects\<close> and \<open>cl_reads\<close> count the pending \<^verbatim>\<open>async_connect\<close> and \<^verbatim>\<open>async_read\<close> operations, \<open>cl_writes\<close>
  holds the frame of each pending \<^verbatim>\<open>async_write\<close>. \<open>cl_wire\<close> records the frames completely written and
  \<open>cl_sent\<close> the messages given to \<^verbatim>\<open>send\<close>: both are history, no operation reads them.
\<close>

record client =
  cl_connected :: bool
  cl_terminate :: bool
  cl_open :: bool
  cl_queue :: "string list"
  cl_posted :: "posted list"
  cl_connects :: nat
  cl_reads :: nat
  cl_writes :: "string list"
  cl_fault :: "client_fault option"
  cl_wire :: "string list"
  cl_sent :: "string list"

text \<open>
  The flag of \<open>ConnectFailed\<close>, \<open>ReadFailed\<close> and \<open>WriteFailed\<close> says whether the resolver call that follows succeeds.
  \<open>OptionFailed\<close> is a connection that was made and whose socket refuses the option.
\<close>

datatype client_event =
    Send string
  | RunPosted
  | Connected
  | OptionFailed
  | ConnectFailed bool
  | ReadDone
  | ReadFailed bool
  | WriteDone nat
  | WriteFailed nat bool
  | Destroy

section \<open>Operations\<close>

definition M_doConnect :: "bool \<Rightarrow> client \<Rightarrow> client" where
  "M_doConnect resolves c =
     (if cl_terminate c then c
      else if resolves then c\<lparr>cl_open := True, cl_connects := cl_connects c + 1\<rparr>
      else c\<lparr>cl_fault := Some Uncaught_Exception\<rparr>)"

definition M_doRead :: "client \<Rightarrow> client" where
  "M_doRead c = c\<lparr>cl_reads := cl_reads c + 1\<rparr>"

definition M_doWrite :: "client \<Rightarrow> client" where
  "M_doWrite c =
     (case cl_queue c of [] \<Rightarrow> c\<lparr>cl_fault := Some Front_Of_Empty_Queue\<rparr>
      | m # _ \<Rightarrow> c\<lparr>cl_writes := cl_writes c @ [m]\<rparr>)"

text \<open>\<^verbatim>\<open>send\<close> overruns the buffer of the header inside the call when the message is too long for it.\<close>

definition client_send :: "string \<Rightarrow> client \<Rightarrow> client res" where
  "client_send msg c =
     obind (frame msg) (\<lambda>f. Ok (c\<lparr>cl_posted := cl_posted c @ [PQueue f], cl_sent := cl_sent c @ [msg]\<rparr>))"

definition M_queueMessage_handler :: "string \<Rightarrow> client \<Rightarrow> client" where
  "M_queueMessage_handler f c =
     (let write_in_progress = (cl_queue c \<noteq> []);
          c = c\<lparr>cl_queue := cl_queue c @ [f]\<rparr>
      in if cl_connected c \<and> \<not> write_in_progress then M_doWrite c else c)"

definition run_posted :: "posted \<Rightarrow> client \<Rightarrow> client" where
  "run_posted p c = (case p of PQueue f \<Rightarrow> M_queueMessage_handler f c | PClose \<Rightarrow> c\<lparr>cl_open := False\<rparr>)"

text \<open>
  \<open>ok\<close> says whether setting \<^verbatim>\<open>no_delay\<close> succeeds; otherwise it throws, out of the handler and of the I/O thread.
\<close>

definition connect_handler_ok :: "bool \<Rightarrow> client \<Rightarrow> client" where
  "connect_handler_ok ok c =
     (if ok
      then let c = M_doRead (c\<lparr>cl_connected := True\<rparr>)
           in if cl_queue c \<noteq> [] then M_doWrite c else c
      else c\<lparr>cl_fault := Some Uncaught_Exception\<rparr>)"

definition connect_handler_error :: "bool \<Rightarrow> client \<Rightarrow> client" where
  "connect_handler_error resolves c = M_doConnect resolves (c\<lparr>cl_connected := False\<rparr>)"

definition read_handler_ok :: "client \<Rightarrow> client" where
  "read_handler_ok c = (if \<not> cl_terminate c then M_doRead c else c)"

definition read_handler_error :: "bool \<Rightarrow> client \<Rightarrow> client" where
  "read_handler_error resolves c = M_doConnect resolves (c\<lparr>cl_connected := False\<rparr>)"

definition write_handler_ok :: "client \<Rightarrow> client" where
  "write_handler_ok c =
     (case cl_queue c of [] \<Rightarrow> c\<lparr>cl_fault := Some Pop_Of_Empty_Queue\<rparr>
      | _ # q \<Rightarrow> (let c = c\<lparr>cl_queue := q\<rparr> in if q \<noteq> [] then M_doWrite c else c))"

definition write_handler_error :: "bool \<Rightarrow> client \<Rightarrow> client" where
  "write_handler_error resolves c = M_doConnect resolves (c\<lparr>cl_connected := False, cl_open := False\<rparr>)"

definition remove_nth :: "nat \<Rightarrow> 'a list \<Rightarrow> 'a list" where
  "remove_nth i xs = take i xs @ drop (Suc i) xs"

text \<open>
  The destructor spins while the client is connected and the queue is not empty, then asks the I/O thread
  to stop and posts the closing of the socket.
\<close>

definition client_destroy :: "client \<Rightarrow> client option" where
  "client_destroy c =
     (if cl_connected c \<and> cl_queue c \<noteq> [] then None
      else Some (c\<lparr>cl_terminate := True, cl_posted := cl_posted c @ [PClose]\<rparr>))"

definition client_blank :: client where
  "client_blank =
     \<lparr>cl_connected = False, cl_terminate = False, cl_open = False, cl_queue = [], cl_posted = [],
      cl_connects = 0, cl_reads = 0, cl_writes = [], cl_fault = None, cl_wire = [], cl_sent = []\<rparr>"

text \<open>The constructor: the first connection attempt, in the thread of the caller; a failing resolver throws there.\<close>

definition new_client :: "bool \<Rightarrow> client res" where
  "new_client resolves =
     (if resolves then Ok (M_doConnect True client_blank)
      else Throw (StdExc ''boost::system::system_error'' ''resolve''))"

section \<open>Steps\<close>

text \<open>A call of \<^verbatim>\<open>send\<close> as a step of the machine: an overrun is recorded as a fault, after which nothing happens.\<close>

definition send_step :: "string \<Rightarrow> client \<Rightarrow> client" where
  "send_step msg c = (case client_send msg c of Ok d \<Rightarrow> d | _ \<Rightarrow> c\<lparr>cl_fault := Some Header_Overflow\<rparr>)"

fun client_step :: "client \<Rightarrow> client_event \<Rightarrow> client option" where
  "client_step c ev =
     (if cl_fault c \<noteq> None then None
      else case ev of
        Send msg \<Rightarrow> if cl_terminate c then None else Some (send_step msg c)
      | RunPosted \<Rightarrow>
          (case cl_posted c of [] \<Rightarrow> None | p # ps \<Rightarrow> Some (run_posted p (c\<lparr>cl_posted := ps\<rparr>)))
      | Connected \<Rightarrow>
          if cl_connects c = 0 then None
          else Some (connect_handler_ok True (c\<lparr>cl_connects := cl_connects c - 1\<rparr>))
      | OptionFailed \<Rightarrow>
          if cl_connects c = 0 then None
          else Some (connect_handler_ok False (c\<lparr>cl_connects := cl_connects c - 1\<rparr>))
      | ConnectFailed r \<Rightarrow>
          if cl_connects c = 0 then None
          else Some (connect_handler_error r (c\<lparr>cl_connects := cl_connects c - 1\<rparr>))
      | ReadDone \<Rightarrow>
          if cl_reads c = 0 then None else Some (read_handler_ok (c\<lparr>cl_reads := cl_reads c - 1\<rparr>))
      | ReadFailed r \<Rightarrow>
          if cl_reads c = 0 then None else Some (read_handler_error r (c\<lparr>cl_reads := cl_reads c - 1\<rparr>))
      | WriteDone i \<Rightarrow>
          if length (cl_writes c) \<le> i then None
          else Some (write_handler_ok
            (c\<lparr>cl_wire := cl_wire c @ [cl_writes c ! i], cl_writes := remove_nth i (cl_writes c)\<rparr>))
      | WriteFailed i r \<Rightarrow>
          if length (cl_writes c) \<le> i then None
          else Some (write_handler_error r (c\<lparr>cl_writes := remove_nth i (cl_writes c)\<rparr>))
      | Destroy \<Rightarrow> client_destroy c)"

declare client_step.simps [simp del]

lemmas handler_defs =
  M_doConnect_def M_doRead_def M_doWrite_def M_queueMessage_handler_def run_posted_def
  connect_handler_ok_def connect_handler_error_def read_handler_ok_def read_handler_error_def
  write_handler_ok_def write_handler_error_def client_destroy_def remove_nth_def

section \<open>Calm runs\<close>

text \<open>
  In a calm run the connection is never lost while a frame is being written: it may be refused any number
  of times, and may be lost while the client has nothing to write.
\<close>

fun calm :: "client \<Rightarrow> client_event \<Rightarrow> bool" where
  "calm c (Send msg) = (length msg < 10 ^ HeaderSize)"
| "calm c (ConnectFailed r) = r"
| "calm c (ReadFailed r) = (r \<and> cl_writes c = [])"
| "calm c (WriteFailed i r) = False"
| "calm c OptionFailed = False"
| "calm c Destroy = False"
| "calm c _ = True"

definition calm_step :: "client \<Rightarrow> client_event \<Rightarrow> client option" where
  "calm_step c e = (if calm c e then client_step c e else None)"

definition frame_of :: "string \<Rightarrow> string" where
  "frame_of m = header_text (length m) @ m"

definition client_inv :: "client \<Rightarrow> bool" where
  "client_inv c \<longleftrightarrow>
     cl_fault c = None \<and> \<not> cl_terminate c \<and>
     cl_connects c = (if cl_connected c then 0 else 1) \<and>
     cl_reads c = (if cl_connected c then 1 else 0) \<and>
     cl_writes c = (if cl_connected c \<and> cl_queue c \<noteq> [] then [hd (cl_queue c)] else []) \<and>
     (\<forall>m \<in> set (cl_sent c). length m < 10 ^ HeaderSize) \<and>
     map PQueue (map frame_of (cl_sent c)) = map PQueue (cl_wire c @ cl_queue c) @ cl_posted c"

lemma frame_frame_of: "length m < 10 ^ HeaderSize \<Longrightarrow> frame m = Ok (frame_of m)"
  by (simp add: frame_Ok_iff frame_of_def)

lemma send_step_Ok:
  "length m < 10 ^ HeaderSize \<Longrightarrow>
   send_step m c = c\<lparr>cl_posted := cl_posted c @ [PQueue (frame_of m)], cl_sent := cl_sent c @ [m]\<rparr>"
  by (simp add: send_step_def client_send_def frame_frame_of)

lemma send_step_terminate [simp]: "cl_terminate (send_step m c) = cl_terminate c"
  by (simp add: send_step_def client_send_def frame_def Let_def)

lemma frame_overruns: "\<not> length m < 10 ^ HeaderSize \<Longrightarrow> frame m = Undef Buffer_Overflow"
  using header_length_iff [of "length m"] header_length_ge [of "length m"] by (simp add: frame_def Let_def)

lemma client_send_cases:
  "client_send m c = (if length m < 10 ^ HeaderSize then Ok (send_step m c) else Undef Buffer_Overflow)"
  by (simp add: send_step_Ok) (simp add: client_send_def frame_frame_of frame_overruns)

lemma client_inv_start: "client_inv (M_doConnect True client_blank)"
  by (simp add: client_inv_def M_doConnect_def client_blank_def)

lemma map_PQueue_eq: "map PQueue xs = map PQueue ys @ PQueue f # ps \<Longrightarrow>
    map PQueue xs = map PQueue (ys @ [f]) @ ps"
  by simp

lemma client_inv_step:
  assumes "client_inv c" and "calm_step c e = Some d"
  shows "client_inv d"
proof (cases e)
  case (Send msg)
  then show ?thesis using assms
    by (auto simp: calm_step_def client_step.simps client_inv_def send_step_Ok split: if_splits)
next
  case RunPosted
  then obtain p ps where p: "cl_posted c = p # ps" and d: "d = run_posted p (c\<lparr>cl_posted := ps\<rparr>)"
    using assms by (auto simp: calm_step_def client_step.simps split: if_splits list.splits)
  from assms(1) p have "p \<in> set (map PQueue (map frame_of (cl_sent c)))" by (simp add: client_inv_def)
  then obtain f where "p = PQueue f" by auto
  then show ?thesis using assms(1) p d
    by (cases "cl_queue c") (auto simp: client_inv_def handler_defs Let_def split: if_splits)
next
  case (WriteDone i)
  then show ?thesis using assms
    by (cases "cl_queue c"; cases "tl (cl_queue c)")
      (auto simp: calm_step_def client_step.simps client_inv_def handler_defs Let_def not_less_eq_eq
        split: if_splits)
qed (use assms in \<open>auto simp: calm_step_def client_step.simps client_inv_def handler_defs Let_def
       split: if_splits list.splits\<close>)

interpretation calm_client: event_machine calm_step client_inv
  by unfold_locales (rule client_inv_step)

section \<open>Delivery\<close>

lemma client_inv_posted: "client_inv c \<Longrightarrow> p \<in> set (cl_posted c) \<Longrightarrow> \<exists>f. p = PQueue f"
proof -
  assume "client_inv c" "p \<in> set (cl_posted c)"
  then have "p \<in> set (map PQueue (map frame_of (cl_sent c)))" by (simp add: client_inv_def)
  then show ?thesis by auto
qed

lemma client_inv_wire:
  "client_inv c \<Longrightarrow> cl_posted c = [] \<Longrightarrow> map frame_of (cl_sent c) = cl_wire c @ cl_queue c"
  by (rule map_injective [of PQueue]) (simp_all add: client_inv_def inj_def)

lemma client_inv_wire_prefix:
  assumes "client_inv c"
  shows "\<exists>k. cl_wire c = map frame_of (take k (cl_sent c))"
proof -
  have "map PQueue (cl_wire c) = take (length (cl_wire c)) (map PQueue (map frame_of (cl_sent c)))"
    using assms by (simp add: client_inv_def)
  also have "\<dots> = map PQueue (map frame_of (take (length (cl_wire c)) (cl_sent c)))"
    by (simp add: take_map)
  finally have "cl_wire c = map frame_of (take (length (cl_wire c)) (cl_sent c))"
    by (rule map_injective) (simp add: inj_def)
  then show ?thesis by blast
qed

lemma calm_posted:
  assumes "client_inv c" and "cl_posted c = p # ps"
  shows "\<exists>d. calm_step c RunPosted = Some d \<and> cl_posted d = ps \<and> cl_sent d = cl_sent c \<and>
           cl_connected d = cl_connected c"
  using assms client_inv_posted [OF assms(1), of p]
  by (cases "cl_queue c")
    (auto simp: calm_step_def client_step.simps client_inv_def handler_defs Let_def split: if_splits)

lemma calm_write:
  assumes "client_inv c" and "cl_connected c" and "cl_queue c = q # qs"
  shows "\<exists>d. calm_step c (WriteDone 0) = Some d \<and> cl_queue d = qs \<and> cl_posted d = cl_posted c \<and>
           cl_sent d = cl_sent c \<and> cl_connected d"
  using assms
  by (auto simp: calm_step_def client_step.simps client_inv_def handler_defs Let_def split: list.splits)

lemma calm_connect:
  assumes "client_inv c" and "\<not> cl_connected c"
  shows "\<exists>d. calm_step c Connected = Some d \<and> cl_posted d = cl_posted c \<and>
           cl_sent d = cl_sent c \<and> cl_connected d"
  using assms
  by (auto simp: calm_step_def client_step.simps client_inv_def handler_defs Let_def split: list.splits)

lemma calm_flush_posted:
  "client_inv c \<Longrightarrow> \<exists>es d. exec calm_step c es = Some d \<and> client_inv d \<and> cl_posted d = [] \<and>
     cl_sent d = cl_sent c \<and> cl_connected d = cl_connected c"
proof (induction "cl_posted c" arbitrary: c)
  case Nil
  then show ?case by (intro exI [of _ "[]"]) simp
next
  case (Cons p ps)
  obtain d where d: "calm_step c RunPosted = Some d" "cl_posted d = ps" "cl_sent d = cl_sent c"
      "cl_connected d = cl_connected c"
    using calm_posted [OF Cons.prems Cons.hyps(2) [symmetric]] by blast
  obtain es e where "exec calm_step d es = Some e" "client_inv e" "cl_posted e = []"
      "cl_sent e = cl_sent d" "cl_connected e = cl_connected d"
    using Cons.hyps(1) [of d] client_inv_step [OF Cons.prems d(1)] d(2) by blast
  then show ?case using d by (intro exI [of _ "RunPosted # es"] exI [of _ e]) simp
qed

lemma calm_flush_queue:
  "client_inv c \<Longrightarrow> cl_connected c \<Longrightarrow> cl_posted c = [] \<Longrightarrow>
   \<exists>es d. exec calm_step c es = Some d \<and> client_inv d \<and> cl_posted d = [] \<and> cl_queue d = [] \<and>
     cl_sent d = cl_sent c"
proof (induction "cl_queue c" arbitrary: c)
  case Nil
  then show ?case by (intro exI [of _ "[]"]) simp
next
  case (Cons q qs)
  obtain d where d: "calm_step c (WriteDone 0) = Some d" "cl_queue d = qs" "cl_posted d = cl_posted c"
      "cl_sent d = cl_sent c" "cl_connected d"
    using calm_write [OF Cons.prems(1,2) Cons.hyps(2) [symmetric]] by blast
  obtain es e where "exec calm_step d es = Some e" "client_inv e" "cl_posted e = []" "cl_queue e = []"
      "cl_sent e = cl_sent d"
    using Cons.hyps(1) [of d] client_inv_step [OF Cons.prems(1) d(1)] d Cons.prems(3) by auto
  then show ?case using d by (intro exI [of _ "WriteDone 0 # es"] exI [of _ e]) simp
qed

lemma calm_flush:
  assumes "client_inv c"
  shows "\<exists>es d. exec calm_step c es = Some d \<and> cl_sent d = cl_sent c \<and>
           cl_wire d = map frame_of (cl_sent c)"
proof -
  obtain es0 c0 where c0: "exec calm_step c es0 = Some c0" "client_inv c0" "cl_sent c0 = cl_sent c"
      "cl_posted c0 = []"
    using calm_flush_posted [OF assms] by blast
  obtain es1 c1 where c1: "exec calm_step c0 es1 = Some c1" "client_inv c1" "cl_sent c1 = cl_sent c"
      "cl_posted c1 = []" "cl_connected c1"
  proof (cases "cl_connected c0")
    case True
    then show ?thesis using that [of "[]" c0] c0 by simp
  next
    case False
    then obtain d where d: "calm_step c0 Connected = Some d" "cl_posted d = []" "cl_sent d = cl_sent c"
        "cl_connected d"
      using calm_connect [OF c0(2)] c0 by auto
    then show ?thesis using that [of "[Connected]" d] client_inv_step [OF c0(2) d(1)] by simp
  qed
  obtain es2 d where d: "exec calm_step c1 es2 = Some d" "client_inv d" "cl_posted d = []"
      "cl_queue d = []" "cl_sent d = cl_sent c"
    using calm_flush_queue [OF c1(2,5,4)] c1(3) by auto
  have "exec calm_step c (es0 @ es1 @ es2) = Some d" using c0 c1 d by (simp add: exec_append)
  moreover have "cl_wire d = map frame_of (cl_sent c)" using client_inv_wire [OF d(2,3)] d by simp
  ultimately show ?thesis using d by blast
qed

section \<open>Properties\<close>

text \<open>
  C7. As long as the connection is not lost in the middle of a write, the client neither faults nor
  loses, duplicates nor reorders a message: after any run of sends, refused connections, idle
  disconnections and completions, the frames on the wire, those in the queue and those still posted are
  the frames of the messages sent, in order, and at most the front of the queue is being written. A calm run has
  messages shorter than a hundred million bytes, names that resolve and sockets that take their option, and no destruction.
\<close>

theorem calm_client_keeps_order:
  assumes "new_client True = Ok c" and "exec calm_step c es = Some d"
  shows "cl_fault d = None \<and>
         map PQueue (map frame_of (cl_sent d)) = map PQueue (cl_wire d @ cl_queue d) @ cl_posted d \<and>
         (cl_writes d = [] \<or> cl_writes d = [hd (cl_queue d)])"
proof -
  have "client_inv c" using assms(1) client_inv_start by (simp add: new_client_def)
  then have "client_inv d" using assms(2) by (rule calm_client.exec_keeps)
  then show ?thesis by (auto simp: client_inv_def)
qed

theorem calm_client_keeps_order_witness:
  "\<exists>c d. new_client True = Ok c \<and>
     exec calm_step c [Send ''a'', ConnectFailed True, RunPosted, Connected, Send ''b'', WriteDone 0] = Some d \<and>
     cl_fault d = None \<and>
     map PQueue (map frame_of (cl_sent d)) = map PQueue (cl_wire d @ cl_queue d) @ cl_posted d"
proof -
  obtain c where c: "new_client True = Ok c" by (simp add: new_client_def)
  have "\<exists>d. exec calm_step c [Send ''a'', ConnectFailed True, RunPosted, Connected, Send ''b'', WriteDone 0] = Some d"
    using c by (auto simp: new_client_def client_blank_def calm_step_def client_step.simps handler_defs
        send_step_Ok HeaderSize_def Let_def)
  then show ?thesis using c calm_client_keeps_order [OF c] by blast
qed

text \<open>
  C38. Nothing sent stays behind for good: from every state a calm run reaches there is a continuation, made of
  handler calls and successful completions only, after which every message sent is on the wire.
\<close>

theorem calm_client_can_deliver:
  assumes "new_client True = Ok c" and "exec calm_step c es = Some d"
  shows "\<exists>fs e. exec calm_step d fs = Some e \<and> cl_sent e = cl_sent d \<and> cl_wire e = map frame_of (cl_sent d)"
proof -
  have "client_inv c" using assms(1) client_inv_start by (simp add: new_client_def)
  then have "client_inv d" using assms(2) by (rule calm_client.exec_keeps)
  then show ?thesis by (rule calm_flush)
qed

theorem calm_client_can_deliver_witness:
  "\<exists>c d fs e. new_client True = Ok c \<and> exec calm_step c [Send ''a'', Send ''b'', RunPosted] = Some d \<and>
     exec calm_step d fs = Some e \<and> cl_wire e = map frame_of (cl_sent d)"
proof -
  obtain c where c: "new_client True = Ok c" by (simp add: new_client_def)
  have "\<exists>d. exec calm_step c [Send ''a'', Send ''b'', RunPosted] = Some d"
    using c by (auto simp: new_client_def client_blank_def calm_step_def client_step.simps handler_defs
        send_step_Ok HeaderSize_def Let_def)
  then show ?thesis using c calm_client_can_deliver [OF c] by blast
qed

text \<open>
  A connection that breaks during a write is reconnected twice: closing the socket in the write handler
  also fails the pending read, and both error handlers start a connection attempt. When both attempts
  succeed the front frame is written twice, the next frame is dropped from the queue unsent, and the
  completion after that pops an empty queue.
\<close>

theorem lost_write_reconnects_twice:
  assumes "client_inv c" and "cl_connected c" and "cl_queue c = [a, b]"
  shows "(\<exists>d. exec client_step c [WriteFailed 0 True, ReadFailed True] = Some d \<and> cl_connects d = 2) \<and>
         (\<exists>d. exec client_step c [WriteFailed 0 True, ReadFailed True, Connected, Connected,
                 WriteDone 0, WriteDone 0, WriteFailed 0 True] = Some d \<and>
              cl_wire d = cl_wire c @ [a, a] \<and> cl_queue d = []) \<and>
         (\<exists>d. exec client_step c [WriteFailed 0 True, ReadFailed True, Connected, Connected,
                 WriteDone 0, WriteDone 0, WriteDone 0] = Some d \<and>
              cl_fault d = Some Pop_Of_Empty_Queue)"
  using assms by (auto simp: client_inv_def client_step.simps handler_defs Let_def)

theorem lost_write_reconnects_twice_witness:
  "\<exists>c. client_inv c \<and> cl_connected c \<and> cl_queue c = [frame_of ''a'', frame_of ''b''] \<and>
     (\<exists>d. exec client_step c [WriteFailed 0 True, ReadFailed True] = Some d \<and> cl_connects d = 2)"
proof -
  let ?es = "[Send ''a'', Send ''b'', RunPosted, RunPosted, Connected]"
  obtain c where c: "exec calm_step (M_doConnect True client_blank) ?es = Some c"
      "cl_connected c" "cl_queue c = [frame_of ''a'', frame_of ''b'']"
    by (auto simp: client_blank_def calm_step_def client_step.simps handler_defs send_step_Ok HeaderSize_def Let_def)
  have "client_inv c" using client_inv_start c(1) by (rule calm_client.exec_keeps)
  then show ?thesis using lost_write_reconnects_twice [OF _ c(2,3)] c by blast
qed

text \<open>
  The destructor does not wait for what was only posted: a connected client whose queue is empty is
  destroyed at once; the message of a \<^verbatim>\<open>send\<close> just before is then queued by the I/O thread right before it closes
  the socket, the write fails with the socket, and the message is never sent.
\<close>

theorem destroy_drops_posted:
  assumes "client_inv c" and "cl_connected c" and "cl_queue c = []" and "cl_posted c = []"
    and "length msg < 10 ^ HeaderSize"
  shows "\<exists>d. exec client_step c [Send msg, Destroy, RunPosted, RunPosted, WriteFailed 0 True, ReadFailed True] = Some d \<and>
           cl_sent d = cl_sent c @ [msg] \<and> cl_wire d = cl_wire c \<and> cl_queue d = [frame_of msg] \<and>
           cl_posted d = [] \<and> cl_connects d = 0 \<and> cl_reads d = 0 \<and> cl_writes d = []"
  using assms by (simp add: client_inv_def client_step.simps handler_defs Let_def send_step_Ok)

theorem destroy_drops_posted_witness:
  "\<exists>c d. client_inv c \<and> cl_connected c \<and>
     exec client_step c [Send ''bye'', Destroy, RunPosted, RunPosted, WriteFailed 0 True, ReadFailed True] = Some d \<and>
     cl_sent d = cl_sent c @ [''bye''] \<and> cl_wire d = cl_wire c"
proof -
  obtain c where c: "exec calm_step (M_doConnect True client_blank) [Connected] = Some c"
      "cl_connected c" "cl_queue c = []" "cl_posted c = []"
    by (auto simp: client_blank_def calm_step_def client_step.simps handler_defs Let_def)
  have inv: "client_inv c" using client_inv_start c(1) by (rule calm_client.exec_keeps)
  show ?thesis using destroy_drops_posted [OF inv c(2,3,4), of "''bye''"] inv c(2)
    by (fastforce simp: HeaderSize_def)
qed

end
