(* ===== verification/Json_Interface.thy ===== *)
theory Json_Interface
  imports Core_Exception
begin

text \<open>
  The JSON library \<^verbatim>\<open>lconf::json\<close> as its clients see it. The library is a git submodule that is not part
  of the repository, so it is a parameter: a record of the operations the code calls, and a locale
  with the documented behaviour the code relies on. What is bound in a \<^verbatim>\<open>json::Template\<close> is decided
  by the repository's own code, so templates are data here: a list of keys, each with the variable bound
  to it, represented by its value.
\<close>

section \<open>Templates\<close>

datatype elem =
    EInt cint
  | EBool bool
  | EStr string
  | ETime int64
  | ETpl "(string \<times> elem) list"

type_synonym tpl = "(string \<times> elem) list"

definition bind :: "tpl \<Rightarrow> string \<Rightarrow> elem \<Rightarrow> tpl" where
  "bind t k e = t @ [(k, e)]"

text \<open>Reading a bound variable back, by its key.\<close>

definition tpl_int :: "tpl \<Rightarrow> string \<Rightarrow> cint \<Rightarrow> cint" where
  "tpl_int t k d = (case map_of t k of Some (EInt i) \<Rightarrow> i | _ \<Rightarrow> d)"

definition tpl_str :: "tpl \<Rightarrow> string \<Rightarrow> string \<Rightarrow> string" where
  "tpl_str t k d = (case map_of t k of Some (EStr s) \<Rightarrow> s | _ \<Rightarrow> d)"

definition tpl_bool :: "tpl \<Rightarrow> string \<Rightarrow> bool \<Rightarrow> bool" where
  "tpl_bool t k d = (case map_of t k of Some (EBool b) \<Rightarrow> b | _ \<Rightarrow> d)"

definition tpl_time :: "tpl \<Rightarrow> string \<Rightarrow> int64 \<Rightarrow> int64" where
  "tpl_time t k d = (case map_of t k of Some (ETime w) \<Rightarrow> w | _ \<Rightarrow> d)"

definition tpl_sub :: "tpl \<Rightarrow> string \<Rightarrow> tpl" where
  "tpl_sub t k = (case map_of t k of Some (ETpl u) \<Rightarrow> u | _ \<Rightarrow> [])"

lemmas tpl_read_defs = tpl_int_def tpl_str_def tpl_bool_def tpl_time_def tpl_sub_def

text \<open>
  \<open>fits t u\<close>: every key of \<open>t\<close> is a key of \<open>u\<close> with an element of the same kind; \<open>pull t u\<close> is \<open>t\<close> after
  its variables took their values from \<open>u\<close>; \<open>times\<close> collects the time points, \<open>wf\<close> forbids a key bound twice.
\<close>

fun fits :: "elem \<Rightarrow> elem \<Rightarrow> bool" and fits_tpl :: "tpl \<Rightarrow> tpl \<Rightarrow> bool" where
  "fits (EInt _) (EInt _) = True"
| "fits (EBool _) (EBool _) = True"
| "fits (EStr _) (EStr _) = True"
| "fits (ETime _) (ETime _) = True"
| "fits (ETpl t) (ETpl u) = fits_tpl t u"
| "fits _ _ = False"
| "fits_tpl [] u = True"
| "fits_tpl ((k, e) # t) u =
     ((case map_of u k of None \<Rightarrow> False | Some e' \<Rightarrow> fits e e') \<and> fits_tpl t u)"

fun pull :: "elem \<Rightarrow> elem \<Rightarrow> elem" and pull_tpl :: "tpl \<Rightarrow> tpl \<Rightarrow> tpl" where
  "pull (ETpl t) (ETpl u) = ETpl (pull_tpl t u)"
| "pull e e' = e'"
| "pull_tpl [] u = []"
| "pull_tpl ((k, e) # t) u =
     (k, case map_of u k of None \<Rightarrow> e | Some e' \<Rightarrow> pull e e') # pull_tpl t u"

fun times :: "elem \<Rightarrow> int64 list" and times_tpl :: "tpl \<Rightarrow> int64 list" where
  "times (ETime w) = [w]"
| "times (ETpl t) = times_tpl t"
| "times _ = []"
| "times_tpl [] = []"
| "times_tpl ((k, e) # t) = times e @ times_tpl t"

fun wf_elem :: "elem \<Rightarrow> bool" and wf_tpl :: "tpl \<Rightarrow> bool" where
  "wf_elem (ETpl t) = wf_tpl t"
| "wf_elem _ = True"
| "wf_tpl [] = True"
| "wf_tpl ((k, e) # t) = (k \<notin> fst ` set t \<and> wf_elem e \<and> wf_tpl t)"

lemma times_map_of: "map_of t k = Some e \<Longrightarrow> set (times e) \<subseteq> set (times_tpl t)"
  by (induction t) (auto split: if_splits)

lemma wf_map_of: "wf_tpl t \<Longrightarrow> map_of t k = Some e \<Longrightarrow> wf_elem e"
  by (induction t) (auto split: if_splits)

lemma fits_tpl_iff: "fits_tpl t u \<longleftrightarrow> (\<forall>(k, e) \<in> set t. \<exists>e'. map_of u k = Some e' \<and> fits e e')"
  by (induction t) (auto split: option.splits)

lemma fits_tpl_ConsR: "k \<notin> fst ` set t \<Longrightarrow> fits_tpl t ((k, e) # u) = fits_tpl t u"
  by (induction t) (auto split: option.splits)

lemma pull_tpl_ConsR: "k \<notin> fst ` set t \<Longrightarrow> pull_tpl t ((k, e) # u) = pull_tpl t u"
  by (induction t) (auto split: option.splits)

text \<open>A template fits itself and takes its own values.\<close>

lemma fits_refl: "wf_elem e \<Longrightarrow> fits e e" and fits_tpl_refl: "wf_tpl t \<Longrightarrow> fits_tpl t t"
proof (induction e and t rule: wf_elem_wf_tpl.induct)
  case (4 k e t)
  then show ?case by (auto simp: fits_tpl_ConsR)
qed auto

lemma pull_same: "wf_elem e \<Longrightarrow> pull e e = e" and pull_tpl_same: "wf_tpl t \<Longrightarrow> pull_tpl t t = t"
proof (induction e and t rule: wf_elem_wf_tpl.induct)
  case (4 k e t)
  then show ?case by (auto simp: pull_tpl_ConsR)
qed auto

section \<open>The library's operations\<close>

text \<open>
  A pointer to a node is \<open>'n option\<close> where the code can hold a null one. \<^verbatim>\<open>downcast<ObjectNode>()\<close> is
  non-null exactly for \<open>j_is_object\<close>, \<^verbatim>\<open>downcast<StringNode>()->value()\<close> is \<open>j_as_string\<close>, with \<open>None\<close> for
  the null result of the downcast. \<open>j_extract\<close> and \<open>j_synth\<close> call back the user element bound for time
  points, whose code is in the repository.
\<close>

record 'n json_lib =
  j_parse :: "string \<Rightarrow> 'n res"
  j_serialize :: "'n \<Rightarrow> bool \<Rightarrow> string res"
  j_is_object :: "'n \<Rightarrow> bool"
  j_as_string :: "'n \<Rightarrow> string option"
  j_get :: "'n \<Rightarrow> string \<Rightarrow> 'n option"
  j_put :: "'n \<Rightarrow> string \<Rightarrow> 'n \<Rightarrow> 'n"
  j_empty_object :: 'n
  j_string_node :: "string \<Rightarrow> 'n"
  j_bound :: "tpl \<Rightarrow> bool"
  j_synth :: "(int64 \<Rightarrow> 'n) \<Rightarrow> tpl \<Rightarrow> 'n"
  j_extract :: "('n \<Rightarrow> int64 res) \<Rightarrow> tpl \<Rightarrow> 'n option \<Rightarrow> tpl res"

section \<open>Its documented behaviour\<close>

text \<open>
  Serialising a node succeeds and parsing inverts it; parsing otherwise only throws the library's own exception; objects keep
  what is stored under a key; a template that binds something extracts, from the node synthetised from
  a template it fits, the values of that template.
\<close>

locale json_library =
  fixes J :: "'n json_lib"
  assumes parse_serialize: "\<exists>s. j_serialize J n b = Ok s \<and> j_parse J s = Ok n"
    and parse_safe: "(\<exists>n. j_parse J s = Ok n) \<or> (\<exists>w. j_parse J s = Throw (JsonExc w))"
    and string_node: "j_as_string J (j_string_node J s) = Some s"
    and synth_object: "j_is_object J (j_synth J sy t)"
    and empty_object: "j_is_object J (j_empty_object J)"
    and put_object: "j_is_object J n \<Longrightarrow> j_is_object J (j_put J n k v)"
    and get_put: "j_is_object J n \<Longrightarrow> j_get J (j_put J n k v) k' = (if k' = k then Some v else j_get J n k')"
    and get_synth_str: "map_of t k = Some (EStr s) \<Longrightarrow>
          \<exists>n. j_get J (j_synth J sy t) k = Some n \<and> j_as_string J n = Some s"
    and get_synth_tpl: "map_of t k = Some (ETpl u) \<Longrightarrow>
          j_get J (j_synth J sy t) k = Some (j_synth J sy u)"
    and bound_iff: "j_bound J t \<longleftrightarrow> t \<noteq> []"
    and extract_synth: "wf_tpl u \<Longrightarrow> fits_tpl t u \<Longrightarrow> (\<And>w. w \<in> set (times_tpl u) \<Longrightarrow> ex (sy w) = Ok w) \<Longrightarrow>
          j_extract J ex t (Some (j_synth J sy u)) = Ok (pull_tpl t u)"
    and extract_safe: "times_tpl t = [] \<Longrightarrow>
          (\<exists>t'. j_extract J ex t (Some n) = Ok t') \<or> (\<exists>w. j_extract J ex t (Some n) = Throw (JsonExc w))"
begin

lemma extract_own:
  assumes "wf_tpl u" and "fits_tpl t u" and "pull_tpl t u = u" and "times_tpl u = []"
  shows "j_extract J ex t (Some (j_synth J sy u)) = Ok u"
  using extract_synth [OF assms(1,2), of ex sy] assms(3,4) by simp

end

end
