(* ===== verification/Json_Reference.thy ===== *)
theory Json_Reference
  imports Json_Interface "HOL-Library.AList"
begin

text \<open>
  A complete JSON text codec over integers, booleans, strings and objects. It is not code of the
  repository: it shows that the laws assumed of the JSON library can hold together, and it is the
  concrete library with which witnesses and runs of the model are evaluated.
\<close>

section \<open>Trees and their text\<close>

datatype jnode = JInt int | JBool bool | JStr string | JObj "(string \<times> jnode) list"

definition quote :: char where "quote = CHR 0x22"
definition backslash :: char where "backslash = CHR 0x5C"

fun show_chars :: "string \<Rightarrow> string" where
  "show_chars [] = [quote]"
| "show_chars (c # cs) =
     (if c = quote \<or> c = backslash then backslash # c # show_chars cs else c # show_chars cs)"

fun show_node :: "jnode \<Rightarrow> string" and show_fields :: "(string \<times> jnode) list \<Rightarrow> string" where
  "show_node (JInt i) = int_dec i"
| "show_node (JBool b) = (if b then ''true'' else ''false'')"
| "show_node (JStr s) = quote # show_chars s"
| "show_node (JObj kvs) = CHR ''{'' # show_fields kvs"
| "show_fields [] = ''}''"
| "show_fields ((k, n) # kvs) =
     CHR '','' # quote # show_chars k @ CHR '':'' # show_node n @ show_fields kvs"

text \<open>Every field is preceded by a comma, the first one too: one separator rule for the parser.\<close>

section \<open>Reading\<close>

fun read_chars :: "string \<Rightarrow> (string \<times> string) option" where
  "read_chars [] = None"
| "read_chars (c # cs) =
     (if c = quote then Some ([], cs)
      else if c = backslash then
        (case cs of [] \<Rightarrow> None | d # ds \<Rightarrow> map_option (apfst (Cons d)) (read_chars ds))
      else map_option (apfst (Cons c)) (read_chars cs))"

definition read_nat :: "string \<Rightarrow> (nat \<times> string) option" where
  "read_nat s = (let ds = takeWhile is_digit s in
     if ds = [] then None else Some (dec_val ds, dropWhile is_digit s))"

fun read_node :: "nat \<Rightarrow> string \<Rightarrow> (jnode \<times> string) option"
  and read_fields :: "nat \<Rightarrow> string \<Rightarrow> ((string \<times> jnode) list \<times> string) option" where
  "read_node 0 s = None"
| "read_node (Suc f) [] = None"
| "read_node (Suc f) (c # cs) =
     (if c = CHR ''{'' then map_option (apfst JObj) (read_fields f cs)
      else if c = quote then map_option (apfst JStr) (read_chars cs)
      else if c = CHR ''t'' then (if take 3 cs = ''rue'' then Some (JBool True, drop 3 cs) else None)
      else if c = CHR ''f'' then (if take 4 cs = ''alse'' then Some (JBool False, drop 4 cs) else None)
      else if c = CHR ''-'' then map_option (\<lambda>(n, r). (JInt (- int n), r)) (read_nat cs)
      else map_option (\<lambda>(n, r). (JInt (int n), r)) (read_nat (c # cs)))"
| "read_fields 0 s = None"
| "read_fields (Suc f) [] = None"
| "read_fields (Suc f) (c # cs) =
     (if c = CHR ''}'' then Some ([], cs)
      else if c = CHR '','' then
        (case cs of [] \<Rightarrow> None
         | q # ds \<Rightarrow> if q \<noteq> quote then None
           else (case read_chars ds of None \<Rightarrow> None
             | Some (k, r) \<Rightarrow>
               (case r of [] \<Rightarrow> None
                | x # xs \<Rightarrow> if x \<noteq> CHR '':'' then None
                  else (case read_node f xs of None \<Rightarrow> None
                    | Some (n, ys) \<Rightarrow> map_option (apfst (Cons (k, n))) (read_fields f ys)))))
      else None)"

definition ref_parse :: "string \<Rightarrow> jnode res" where
  "ref_parse s =
     (case read_node (Suc (length s)) s of Some (n, []) \<Rightarrow> Ok n | _ \<Rightarrow> Throw (JsonExc ''syntax error''))"

lemma read_chars_show [simp]: "read_chars (show_chars s @ r) = Some (s, r)"
  by (induction s) (auto simp: quote_def backslash_def)

lemma length_show_chars: "0 < length (show_chars s)"
  by (induction s) auto

lemma take_while_digits:
  "list_all is_digit ds \<Longrightarrow> (r = [] \<or> \<not> is_digit (hd r)) \<Longrightarrow>
   takeWhile is_digit (ds @ r) = ds \<and> dropWhile is_digit (ds @ r) = r"
  by (induction ds) (cases r; auto)+

lemma read_nat_dec: "r = [] \<or> \<not> is_digit (hd r) \<Longrightarrow> read_nat (nat_dec n @ r) = Some (n, r)"
  using take_while_digits [OF nat_dec_all_digits] by (simp add: read_nat_def Let_def)

lemma nat_dec_Cons:
  obtains c cs where "nat_dec n = c # cs" and "is_digit c"
  using nat_dec_nonempty [of n] nat_dec_digits [of _ n] by (cases "nat_dec n") auto

lemma digit_not_special:
  assumes "is_digit c"
  shows "c \<noteq> CHR ''{''" and "c \<noteq> quote" and "c \<noteq> CHR ''t''" and "c \<noteq> CHR ''f''" and "c \<noteq> CHR ''-''"
  using assms by (auto simp: is_digit_def quote_def)

lemma read_int_dec:
  assumes "r = [] \<or> \<not> is_digit (hd r)"
  shows "read_node (Suc f) (int_dec i @ r) = Some (JInt i, r)"
proof (cases "i < 0")
  case True
  then show ?thesis using read_nat_dec [OF assms] by (simp add: int_dec_def quote_def)
next
  case False
  obtain c cs where c: "nat_dec (nat i) = c # cs" "is_digit c" by (rule nat_dec_Cons)
  have "read_nat (c # cs @ r) = Some (nat i, r)" using read_nat_dec [OF assms, of "nat i"] c by simp
  then show ?thesis using False c digit_not_special [OF c(2)] by (simp add: int_dec_def)
qed

lemma show_fields_start: "\<exists>c cs. show_fields kvs = c # cs \<and> \<not> is_digit c"
  by (cases kvs) (auto simp: is_digit_def)

lemma read_show_node:
  "length (show_node n) < f \<Longrightarrow> r = [] \<or> \<not> is_digit (hd r) \<Longrightarrow>
     read_node f (show_node n @ r) = Some (n, r)"
  and read_show_fields:
  "length (show_fields kvs) < f \<Longrightarrow> read_fields f (show_fields kvs @ r) = Some (kvs, r)"
proof (induction n and kvs arbitrary: f r and f r rule: show_node_show_fields.induct)
  case (1 i)
  then show ?case by (cases f) (auto intro: read_int_dec)
next
  case (2 b)
  then show ?case by (cases f) (auto simp: quote_def)
next
  case (3 s)
  then show ?case by (cases f) (auto simp: quote_def)
next
  case (4 kvs)
  then show ?case by (cases f) auto
next
  case 5
  then show ?case by (cases f) auto
next
  case (6 k n kvs)
  then obtain g where f: "f = Suc g" by (cases f) auto
  obtain c cs where c: "show_fields kvs = c # cs" "\<not> is_digit c" using show_fields_start by blast
  have "read_node g (show_node n @ show_fields kvs @ r) = Some (n, show_fields kvs @ r)"
    using 6 c f by (intro "6.IH") auto
  moreover have "read_fields g (show_fields kvs @ r) = Some (kvs, r)"
    using 6 f by (intro "6.IH") auto
  ultimately show ?case using f by simp
qed

lemma ref_parse_show: "ref_parse (show_node n) = Ok n"
  using read_show_node [of n "Suc (length (show_node n))" "[]"] by (simp add: ref_parse_def)

section \<open>Templates\<close>

fun to_node :: "(int64 \<Rightarrow> jnode) \<Rightarrow> elem \<Rightarrow> jnode"
  and to_fields :: "(int64 \<Rightarrow> jnode) \<Rightarrow> tpl \<Rightarrow> (string \<times> jnode) list" where
  "to_node sy (EInt w) = JInt (sint w)"
| "to_node sy (EBool b) = JBool b"
| "to_node sy (EStr s) = JStr s"
| "to_node sy (ETime w) = sy w"
| "to_node sy (ETpl t) = JObj (to_fields sy t)"
| "to_fields sy [] = []"
| "to_fields sy ((k, e) # t) = (k, to_node sy e) # to_fields sy t"

fun from_node :: "(jnode \<Rightarrow> int64 res) \<Rightarrow> elem \<Rightarrow> jnode \<Rightarrow> elem res"
  and from_fields :: "(jnode \<Rightarrow> int64 res) \<Rightarrow> tpl \<Rightarrow> (string \<times> jnode) list \<Rightarrow> tpl res" where
  "from_node ex (EInt _) n = (case n of JInt i \<Rightarrow> Ok (EInt (word_of_int i)) | _ \<Rightarrow> Throw (JsonExc ''expected int''))"
| "from_node ex (EBool _) n = (case n of JBool b \<Rightarrow> Ok (EBool b) | _ \<Rightarrow> Throw (JsonExc ''expected bool''))"
| "from_node ex (EStr _) n = (case n of JStr s \<Rightarrow> Ok (EStr s) | _ \<Rightarrow> Throw (JsonExc ''expected string''))"
| "from_node ex (ETime _) n = obind (ex n) (\<lambda>w. Ok (ETime w))"
| "from_node ex (ETpl t) n =
     (case n of JObj kvs \<Rightarrow> obind (from_fields ex t kvs) (\<lambda>u. Ok (ETpl u)) | _ \<Rightarrow> Throw (JsonExc ''expected object''))"
| "from_fields ex [] kvs = Ok []"
| "from_fields ex ((k, e) # t) kvs =
     (case map_of kvs k of None \<Rightarrow> Throw (JsonExc (''missing '' @ k))
      | Some n \<Rightarrow> obind (from_node ex e n) (\<lambda>e'. obind (from_fields ex t kvs) (\<lambda>t'. Ok ((k, e') # t'))))"

lemma map_of_to_fields: "map_of (to_fields sy u) k = map_option (to_node sy) (map_of u k)"
  by (induction u) auto

lemma from_to_node:
  "fits e e' \<Longrightarrow> (\<And>w. w \<in> set (times e') \<Longrightarrow> ex (sy w) = Ok w) \<Longrightarrow>
     from_node ex e (to_node sy e') = Ok (pull e e')"
  and from_to_fields:
  "fits_tpl t u \<Longrightarrow> (\<And>w. w \<in> set (times_tpl u) \<Longrightarrow> ex (sy w) = Ok w) \<Longrightarrow>
     from_fields ex t (to_fields sy u) = Ok (pull_tpl t u)"
proof (induction e e' and t u rule: fits_fits_tpl.induct)
  case (8 k e t u)
  then obtain e' where e': "map_of u k = Some e'" "fits e e'" by (auto split: option.splits)
  have "from_node ex e (to_node sy e') = Ok (pull e e')"
    using 8 e' times_map_of [OF e'(1)] by auto
  then show ?case using 8 e' by (simp add: map_of_to_fields)
qed auto

lemma from_node_safe:
  "times e = [] \<Longrightarrow> (\<exists>e'. from_node ex e n = Ok e') \<or> (\<exists>w. from_node ex e n = Throw (JsonExc w))"
  and from_fields_safe:
  "times_tpl t = [] \<Longrightarrow> (\<exists>t'. from_fields ex t kvs = Ok t') \<or> (\<exists>w. from_fields ex t kvs = Throw (JsonExc w))"
proof (induction ex e n and ex t kvs rule: from_node_from_fields.induct)
  case (7 ex k e t kvs)
  then show ?case by (cases "map_of kvs k") (fastforce simp: outcome_simps)+
qed (fastforce split: jnode.splits)+

section \<open>The instance\<close>

definition ref_get :: "jnode \<Rightarrow> string \<Rightarrow> jnode option" where
  "ref_get n k = (case n of JObj kvs \<Rightarrow> map_of kvs k | _ \<Rightarrow> None)"

definition ref_put :: "jnode \<Rightarrow> string \<Rightarrow> jnode \<Rightarrow> jnode" where
  "ref_put n k v = (case n of JObj kvs \<Rightarrow> JObj (AList.update k v kvs) | _ \<Rightarrow> n)"

definition ref_extract :: "(jnode \<Rightarrow> int64 res) \<Rightarrow> tpl \<Rightarrow> jnode option \<Rightarrow> tpl res" where
  "ref_extract ex t p =
     obind (deref p) (\<lambda>n. case n of JObj kvs \<Rightarrow> from_fields ex t kvs | _ \<Rightarrow> Throw (JsonExc ''expected object''))"

definition ref_json :: "jnode json_lib" where
  "ref_json =
     \<lparr>j_parse = ref_parse,
      j_serialize = (\<lambda>n b. Ok (show_node n)),
      j_is_object = (\<lambda>n. case n of JObj _ \<Rightarrow> True | _ \<Rightarrow> False),
      j_as_string = (\<lambda>n. case n of JStr s \<Rightarrow> Some s | _ \<Rightarrow> None),
      j_get = ref_get,
      j_put = ref_put,
      j_empty_object = JObj [],
      j_string_node = JStr,
      j_bound = (\<lambda>t. t \<noteq> []),
      j_synth = (\<lambda>sy t. JObj (to_fields sy t)),
      j_extract = ref_extract\<rparr>"

interpretation ref: json_library ref_json
proof
  show "\<exists>s. j_serialize ref_json n b = Ok s \<and> j_parse ref_json s = Ok n" for n b
    by (simp add: ref_json_def ref_parse_show)
  show "(\<exists>n. j_parse ref_json s = Ok n) \<or> (\<exists>w. j_parse ref_json s = Throw (JsonExc w))" for s
    by (auto simp: ref_json_def ref_parse_def split: option.splits list.splits)
  show "j_get ref_json (j_put ref_json n k v) k' = (if k' = k then Some v else j_get ref_json n k')"
    if "j_is_object ref_json n" for n k v k'
    using that by (cases n) (auto simp: ref_json_def ref_get_def ref_put_def update_conv')
  show "j_is_object ref_json (j_put ref_json n k v)" if "j_is_object ref_json n" for n k v
    using that by (cases n) (auto simp: ref_json_def ref_put_def)
  show "\<exists>n. j_get ref_json (j_synth ref_json sy t) k = Some n \<and> j_as_string ref_json n = Some s"
    if "map_of t k = Some (EStr s)" for t k s sy
    using that by (simp add: ref_json_def ref_get_def map_of_to_fields)
  show "j_get ref_json (j_synth ref_json sy t) k = Some (j_synth ref_json sy u)"
    if "map_of t k = Some (ETpl u)" for t k u sy
    using that by (simp add: ref_json_def ref_get_def map_of_to_fields)
  show "j_extract ref_json ex t (Some (j_synth ref_json sy u)) = Ok (pull_tpl t u)"
    if "wf_tpl u" and "fits_tpl t u" and "\<And>w. w \<in> set (times_tpl u) \<Longrightarrow> ex (sy w) = Ok w" for u t ex sy
    using that by (simp add: ref_json_def ref_extract_def from_to_fields)
  show "(\<exists>t'. j_extract ref_json ex t (Some n) = Ok t') \<or> (\<exists>w. j_extract ref_json ex t (Some n) = Throw (JsonExc w))"
    if "times_tpl t = []" for t ex n
    using from_fields_safe [OF that] by (cases n) (simp_all add: ref_json_def ref_extract_def)
qed (simp_all add: ref_json_def)

end
