(* ===== verification/Hex_Interface.thy ===== *)
theory Hex_Interface
  imports Core_Exception
begin

text \<open>
  \<^verbatim>\<open>boost::algorithm::hex\<close> and \<^verbatim>\<open>unhex\<close>: a parameter of the model, with the documented behaviour the code
  relies on as a locale (\<^verbatim>\<open>hex\<close> writes two digits a byte, \<^verbatim>\<open>unhex\<close> inverts it, and throws an exception
  derived from \<^verbatim>\<open>std::exception\<close> on input that is not an even number of hexadecimal digits). A byte
  is a \<^verbatim>\<open>char\<close>, as in the code. An upper case hexadecimal codec satisfies the laws.
\<close>

record hex_lib =
  h_hex :: "string \<Rightarrow> string"
  h_unhex :: "string \<Rightarrow> string res"

locale hex_codec =
  fixes H :: hex_lib
  assumes unhex_hex: "h_unhex H (h_hex H bs) = Ok bs"
    and unhex_safe: "(\<exists>bs. h_unhex H s = Ok bs) \<or> (\<exists>n w. h_unhex H s = Throw (StdExc n w))"
    and unhex_length: "h_unhex H s = Ok bs \<Longrightarrow> length s = 2 * length bs"
begin

lemma hex_length: "length (h_hex H bs) = 2 * length bs"
  by (rule unhex_length) (rule unhex_hex)

lemma hex_inj: "h_hex H bs = h_hex H cs \<Longrightarrow> bs = cs"
  by (metis unhex_hex outcome.inject(1))

lemma hex_empty_iff: "h_hex H bs = [] \<longleftrightarrow> bs = []"
  using hex_length [of bs] by (cases bs) auto

end

section \<open>A codec\<close>

definition hex_digit :: "nat \<Rightarrow> char" where
  "hex_digit d = (if d < 10 then char_of (48 + d) else char_of (55 + d))"

definition hex_value :: "char \<Rightarrow> nat option" where
  "hex_value c = (let n = of_char c :: nat in
     if 48 \<le> n \<and> n \<le> 57 then Some (n - 48)
     else if 65 \<le> n \<and> n \<le> 70 then Some (n - 55)
     else if 97 \<le> n \<and> n \<le> 102 then Some (n - 87) else None)"

fun ref_hex :: "string \<Rightarrow> string" where
  "ref_hex [] = []"
| "ref_hex (c # cs) = hex_digit (of_char c div 16) # hex_digit (of_char c mod 16) # ref_hex cs"

fun ref_unhex :: "string \<Rightarrow> string res" where
  "ref_unhex [] = Ok []"
| "ref_unhex [c] = Throw (StdExc ''boost::algorithm::not_enough_input'' ''std::exception'')"
| "ref_unhex (c # d # cs) =
     (case (hex_value c, hex_value d) of
        (Some x, Some y) \<Rightarrow> obind (ref_unhex cs) (\<lambda>bs. Ok (char_of (16 * x + y) # bs))
      | _ \<Rightarrow> Throw (StdExc ''boost::algorithm::non_hex_input'' ''std::exception''))"

definition ref_hex_lib :: hex_lib where
  "ref_hex_lib = \<lparr>h_hex = ref_hex, h_unhex = ref_unhex\<rparr>"

lemma hex_value_digit [simp]: "d < 16 \<Longrightarrow> hex_value (hex_digit d) = Some d"
  by (auto simp: hex_value_def hex_digit_def Let_def)

lemma ref_unhex_hex: "ref_unhex (ref_hex bs) = Ok bs"
proof (induction bs)
  case (Cons c cs)
  have c: "(of_char c :: nat) < 256" by simp
  have "(of_char c :: nat) div 16 < 16" by (rule less_mult_imp_div_less) (use c in simp)
  then show ?case using Cons by simp
qed simp

interpretation ref_hex: hex_codec ref_hex_lib
proof
  show "h_unhex ref_hex_lib (h_hex ref_hex_lib bs) = Ok bs" for bs
    by (simp add: ref_hex_lib_def ref_unhex_hex)
  show "(\<exists>bs. h_unhex ref_hex_lib s = Ok bs) \<or> (\<exists>n w. h_unhex ref_hex_lib s = Throw (StdExc n w))" for s
  proof (induction s rule: ref_unhex.induct)
    case (3 c d cs)
    then show ?case
      by (cases "hex_value c"; cases "hex_value d"; cases "ref_unhex cs") (auto simp: ref_hex_lib_def)
  qed (simp_all add: ref_hex_lib_def)
  show "length s = 2 * length bs" if "h_unhex ref_hex_lib s = Ok bs" for s bs
    using that
  proof (induction s arbitrary: bs rule: ref_unhex.induct)
    case (3 c d cs)
    then show ?case
      by (cases "hex_value c"; cases "hex_value d") (auto simp: ref_hex_lib_def outcome_simps)
  qed (simp_all add: ref_hex_lib_def)
qed

end
