(* ===== verification/Log_Message.thy ===== *)
theory Log_Message
  imports Json_Reference Hex_Interface
begin

text \<open>
  \<^verbatim>\<open>lesf::log::Message\<close> (\<^verbatim>\<open>inc/lesf/log/message.h\<close>, \<^verbatim>\<open>src/log/message.cpp\<close>): the record of a log entry, its
  constructors, the JSON templates that expose its members, the user element for time points, and
  the pair \<^verbatim>\<open>serialize\<close> and \<^verbatim>\<open>synthetize\<close>, with the round trip between them.
\<close>

section \<open>Data\<close>

datatype msg_type = Unknown | Crash | Error | Warning | Info | Trace

fun type_code :: "msg_type \<Rightarrow> cint" where
  "type_code Unknown = - 2"
| "type_code Crash = - 1"
| "type_code Error = 0"
| "type_code Warning = 1"
| "type_code Info = 2"
| "type_code Trace = 3"

text \<open>Severities are ordered as their codes are: the lower, the worse.\<close>

instantiation msg_type :: linorder
begin

definition less_eq_msg_type :: "msg_type \<Rightarrow> msg_type \<Rightarrow> bool" where
  "less_eq_msg_type a b \<longleftrightarrow> sint (type_code a) \<le> sint (type_code b)"

definition less_msg_type :: "msg_type \<Rightarrow> msg_type \<Rightarrow> bool" where
  "less_msg_type a b \<longleftrightarrow> sint (type_code a) < sint (type_code b)"

instance
proof
  fix a b c :: msg_type
  show "a \<le> b \<Longrightarrow> b \<le> a \<Longrightarrow> a = b"
    by (cases a; cases b) (simp_all add: less_eq_msg_type_def)
qed (auto simp: less_eq_msg_type_def less_msg_type_def)

end

lemma type_code_inj: "type_code a = type_code b \<longleftrightarrow> a = b"
  by (cases a; cases b) simp_all

record msg_build_info =
  mb_file :: string
  mb_line :: cint
  mb_function :: string
  mb_build_date :: string
  mb_build_time :: string
  mb_user_build_id :: string
  mb_user_program :: string
  mb_user_version :: string

record process_info =
  pi_process :: string
  pi_pid :: cint

record exception_info =
  ei_what :: string
  ei_rtti_type :: string
  ei_build_info :: msg_build_info
  ei_trace :: string

text \<open>
  \<^verbatim>\<open>m_type\<close> is bound to the template as an \<^verbatim>\<open>int&\<close>, so any 32-bit value can be read into it: the field holds the
  integer, \<open>type_code\<close> gives the enumerators.
\<close>

record message =
  m_type :: cint
  m_build_info :: msg_build_info
  m_process_info :: process_info
  m_time :: int64
  m_message :: string
  m_exception_info :: "exception_info option"

definition empty_msg_build_info :: msg_build_info where
  "empty_msg_build_info =
     \<lparr>mb_file = [], mb_line = 0, mb_function = [], mb_build_date = [], mb_build_time = [],
      mb_user_build_id = [], mb_user_program = [], mb_user_version = []\<rparr>"

definition empty_process_info :: process_info where
  "empty_process_info = \<lparr>pi_process = [], pi_pid = 0\<rparr>"

definition empty_exception_info :: exception_info where
  "empty_exception_info =
     \<lparr>ei_what = [], ei_rtti_type = [], ei_build_info = empty_msg_build_info, ei_trace = []\<rparr>"

section \<open>Constructors\<close>

definition Message :: "int64 \<Rightarrow> cint \<Rightarrow> msg_build_info \<Rightarrow> process_info \<Rightarrow> string \<Rightarrow> message" where
  "Message now ty bi pi txt =
     \<lparr>m_type = ty, m_build_info = bi, m_process_info = pi, m_time = now, m_message = txt,
      m_exception_info = None\<rparr>"

text \<open>The build information of an exception, copied into strings: a null \<^verbatim>\<open>const char*\<close> is undefined behaviour.\<close>

definition copy_build_info :: "build_info \<Rightarrow> msg_build_info res" where
  "copy_build_info bi =
     obind (deref (bi_file bi)) (\<lambda>f.
     obind (deref (bi_function bi)) (\<lambda>fn.
     obind (deref (bi_build_date bi)) (\<lambda>d.
     obind (deref (bi_build_time bi)) (\<lambda>t.
     obind (deref (bi_user_build_id bi)) (\<lambda>ui.
     obind (deref (bi_user_program bi)) (\<lambda>up.
     obind (deref (bi_user_version bi)) (\<lambda>uv.
     Ok \<lparr>mb_file = f, mb_line = bi_line bi, mb_function = fn, mb_build_date = d, mb_build_time = t,
         mb_user_build_id = ui, mb_user_program = up, mb_user_version = uv\<rparr>)))))))"

text \<open>
  The constructor with an exception. \<open>rtti\<close> is \<^verbatim>\<open>typeid(exception).name()\<close> and \<open>show_trace\<close> the stream
  output of a Boost stack trace.
\<close>

definition Message_exception ::
  "hex_lib \<Rightarrow> (exc_class \<Rightarrow> string) \<Rightarrow> (stacktrace \<Rightarrow> string) \<Rightarrow>
   int64 \<Rightarrow> cint \<Rightarrow> msg_build_info \<Rightarrow> process_info \<Rightarrow> string \<Rightarrow> exc \<Rightarrow> message res" where
  "Message_exception H rtti show_trace now ty bi pi txt e =
     obind (if bi_set (buildInfo e) then copy_build_info (buildInfo e) else Ok empty_msg_build_info)
       (\<lambda>ebi.
         Ok ((Message now ty bi pi txt)
           \<lparr>m_exception_info := Some
              \<lparr>ei_what = what (CoreExc e), ei_rtti_type = rtti (exc_cls e), ei_build_info = ebi,
               ei_trace = (if di_set (debugInfo e) then h_hex H (show_trace (di_trace (debugInfo e))) else [])\<rparr>\<rparr>))"

section \<open>Time points\<close>

text \<open>
  The representation of a time point is a 64-bit integer, copied byte by byte in memory order. The
  model takes the little endian order of the platforms the Makefile builds for.
\<close>

fun le_bytes :: "nat \<Rightarrow> nat \<Rightarrow> string" where
  "le_bytes 0 n = []"
| "le_bytes (Suc k) n = char_of n # le_bytes k (n div 256)"

fun le_value :: "string \<Rightarrow> nat" where
  "le_value [] = 0"
| "le_value (c # cs) = of_char c + 256 * le_value cs"

definition rep_size :: nat where
  "rep_size = 8"

definition TimePointElement_synthetize :: "'n json_lib \<Rightarrow> hex_lib \<Rightarrow> int64 \<Rightarrow> 'n" where
  "TimePointElement_synthetize J H w = j_string_node J (h_hex H (le_bytes rep_size (unat w)))"

text \<open>\<^verbatim>\<open>node->downcast<StringNode>()->value()\<close> does not check the result of the downcast.\<close>

definition TimePointElement_extract :: "'n json_lib \<Rightarrow> hex_lib \<Rightarrow> 'n \<Rightarrow> int64 res" where
  "TimePointElement_extract J H n =
     obind (deref (j_as_string J n)) (\<lambda>as_hex.
     obind (h_unhex H as_hex) (\<lambda>raw.
     if length raw \<noteq> rep_size then Throw (JsonExc ''invalid size'')
     else Ok (word_of_nat (le_value raw))))"

lemma length_le_bytes [simp]: "length (le_bytes k n) = k"
  by (induction k arbitrary: n) auto

lemma le_value_bytes: "le_value (le_bytes k n) = n mod 256 ^ k"
proof (induction k arbitrary: n)
  case (Suc k)
  then show ?case
    by (simp add: mod_mult2_eq)
qed simp

lemma le_value_rep: "word_of_nat (le_value (le_bytes rep_size (unat w))) = (w :: int64)"
proof -
  have "unat w < 2 ^ 64" using unsigned_less [of w, where 'a = nat] by simp
  then have "unat w < 256 ^ rep_size" by (simp add: rep_size_def)
  then show ?thesis by (simp add: le_value_bytes)
qed

lemma time_extract_synthetize:
  assumes "json_library J" and "hex_codec H"
  shows "TimePointElement_extract J H (TimePointElement_synthetize J H w) = Ok w"
  using json_library.string_node [OF assms(1)] hex_codec.unhex_hex [OF assms(2)]
  by (simp add: TimePointElement_extract_def TimePointElement_synthetize_def le_value_rep)

section \<open>Templates\<close>

definition build_info_template :: "msg_build_info \<Rightarrow> tpl" where
  "build_info_template b =
     [(''file'', EStr (mb_file b)), (''line'', EInt (mb_line b)), (''function'', EStr (mb_function b)),
      (''build_date'', EStr (mb_build_date b)), (''build_time'', EStr (mb_build_time b)),
      (''user_build_id'', EStr (mb_user_build_id b)), (''user_program'', EStr (mb_user_program b)),
      (''user_version'', EStr (mb_user_version b))]"

definition M_buildInfoJsonTemplate :: "message \<Rightarrow> tpl" where
  "M_buildInfoJsonTemplate m = build_info_template (m_build_info m)"

definition M_processInfoJsonTemplate :: "message \<Rightarrow> tpl" where
  "M_processInfoJsonTemplate m =
     [(''process'', EStr (pi_process (m_process_info m))), (''pid'', EInt (pi_pid (m_process_info m)))]"

definition M_jsonTemplate :: "message \<Rightarrow> tpl" where
  "M_jsonTemplate m =
     [(''type'', EInt (m_type m)),
      (''build_info'', ETpl (M_buildInfoJsonTemplate m)),
      (''process_info'', ETpl (M_processInfoJsonTemplate m)),
      (''time'', ETime (m_time m)),
      (''message'', EStr (m_message m))]"

definition exception_template :: "exception_info \<Rightarrow> tpl" where
  "exception_template x =
     [(''what'', EStr (ei_what x)), (''rtti_type'', EStr (ei_rtti_type x)),
      (''build_info'', ETpl (build_info_template (ei_build_info x))),
      (''trace'', EStr (ei_trace x))]"

definition M_exceptionInfoJsonTemplate :: "message \<Rightarrow> tpl" where
  "M_exceptionInfoJsonTemplate m =
     (case m_exception_info m of None \<Rightarrow> [] | Some x \<Rightarrow> exception_template x)"

text \<open>Extraction writes through the bound references: the members after a template was filled.\<close>

definition store_build_info :: "msg_build_info \<Rightarrow> tpl \<Rightarrow> msg_build_info" where
  "store_build_info b t =
     \<lparr>mb_file = tpl_str t ''file'' (mb_file b), mb_line = tpl_int t ''line'' (mb_line b),
      mb_function = tpl_str t ''function'' (mb_function b),
      mb_build_date = tpl_str t ''build_date'' (mb_build_date b),
      mb_build_time = tpl_str t ''build_time'' (mb_build_time b),
      mb_user_build_id = tpl_str t ''user_build_id'' (mb_user_build_id b),
      mb_user_program = tpl_str t ''user_program'' (mb_user_program b),
      mb_user_version = tpl_str t ''user_version'' (mb_user_version b)\<rparr>"

definition store_message :: "message \<Rightarrow> tpl \<Rightarrow> message" where
  "store_message m t =
     m\<lparr>m_type := tpl_int t ''type'' (m_type m),
       m_build_info := store_build_info (m_build_info m) (tpl_sub t ''build_info''),
       m_process_info :=
         \<lparr>pi_process = tpl_str (tpl_sub t ''process_info'') ''process'' (pi_process (m_process_info m)),
          pi_pid = tpl_int (tpl_sub t ''process_info'') ''pid'' (pi_pid (m_process_info m))\<rparr>,
       m_time := tpl_time t ''time'' (m_time m),
       m_message := tpl_str t ''message'' (m_message m)\<rparr>"

definition store_exception_info :: "exception_info \<Rightarrow> tpl \<Rightarrow> exception_info" where
  "store_exception_info x t =
     \<lparr>ei_what = tpl_str t ''what'' (ei_what x), ei_rtti_type = tpl_str t ''rtti_type'' (ei_rtti_type x),
      ei_build_info = store_build_info (ei_build_info x) (tpl_sub t ''build_info''),
      ei_trace = tpl_str t ''trace'' (ei_trace x)\<rparr>"

lemmas template_defs =
  build_info_template_def M_buildInfoJsonTemplate_def M_processInfoJsonTemplate_def M_jsonTemplate_def
  M_exceptionInfoJsonTemplate_def exception_template_def

section \<open>Serialisation\<close>

definition serialize_template :: "message \<Rightarrow> tpl" where
  "serialize_template m =
     (let has = (m_exception_info m \<noteq> None);
          wrapper = bind [] ''set'' (EBool has);
          wrapper = (if has then bind wrapper ''data'' (ETpl (M_exceptionInfoJsonTemplate m)) else wrapper)
      in bind (M_jsonTemplate m) ''exception_info'' (ETpl wrapper))"

definition serialize :: "'n json_lib \<Rightarrow> hex_lib \<Rightarrow> message \<Rightarrow> string res" where
  "serialize J H m =
     no_except (try_catch
       (j_serialize J (j_synth J (TimePointElement_synthetize J H) (serialize_template m)) False)
       (\<lambda>_. True)
       (\<lambda>e. Ok (''$ exception caught during log message serialization: '' @ [CHR 0x27] @ what e @ [CHR 0x27])))"

text \<open>The message \<^verbatim>\<open>Message msg(Message::Unknown, {}, {}, "")\<close> into which \<^verbatim>\<open>synthetize\<close> reads.\<close>

definition blank_message :: "int64 \<Rightarrow> message" where
  "blank_message now = Message now (type_code Unknown) empty_msg_build_info empty_process_info []"

text \<open>
  \<^verbatim>\<open>has_exception_info\<close> is not initialised in the code; the first extraction overwrites it, so the value
  it starts with is a parameter, \<open>junk\<close>.
\<close>

definition synthetize_template :: "int64 \<Rightarrow> bool \<Rightarrow> tpl" where
  "synthetize_template now junk =
     bind (M_jsonTemplate (blank_message now)) ''exception_info'' (ETpl (bind [] ''set'' (EBool junk)))"

definition synthesis_failed :: "int64 \<Rightarrow> string \<Rightarrow> cpp_exc \<Rightarrow> message" where
  "synthesis_failed now serialized e =
     Message now (type_code Unknown) empty_msg_build_info empty_process_info
       (''<log message synthesis failed: '' @ what e @ ''>'' @ [CHR 0x0A] @ ''raw data: '' @ serialized)"

text \<open>\<^verbatim>\<open>repr->get("exception_info")->downcast<json::ObjectNode>()->get("data")\<close>, unchecked at each arrow.\<close>

definition exception_info_node :: "'n json_lib \<Rightarrow> 'n option \<Rightarrow> 'n option res" where
  "exception_info_node J repr =
     obind (deref repr) (\<lambda>r.
     obind (deref (j_get J r ''exception_info'')) (\<lambda>x.
     obind (deref (if j_is_object J x then Some x else None)) (\<lambda>obj.
     Ok (j_get J obj ''data''))))"

definition synthetize_body :: "'n json_lib \<Rightarrow> hex_lib \<Rightarrow> int64 \<Rightarrow> bool \<Rightarrow> string \<Rightarrow> message res" where
  "synthetize_body J H now junk serialized =
     obind (j_parse J serialized) (\<lambda>n.
     let repr = (if j_is_object J n then Some n else None) in
     obind (j_extract J (TimePointElement_extract J H) (synthetize_template now junk) repr) (\<lambda>t.
     let msg = store_message (blank_message now) t;
         has_exception_info = tpl_bool (tpl_sub t ''exception_info'') ''set'' junk in
     if has_exception_info then
       let msg = msg\<lparr>m_exception_info := Some empty_exception_info\<rparr> in
       obind (exception_info_node J repr) (\<lambda>p.
       obind (j_extract J (TimePointElement_extract J H) (M_exceptionInfoJsonTemplate msg) p) (\<lambda>u.
       Ok (msg\<lparr>m_exception_info := Some (store_exception_info empty_exception_info u)\<rparr>)))
     else Ok msg))"

definition synthetize :: "'n json_lib \<Rightarrow> hex_lib \<Rightarrow> int64 \<Rightarrow> bool \<Rightarrow> string \<Rightarrow> message res" where
  "synthetize J H now junk serialized =
     no_except (try_catch (synthetize_body J H now junk serialized) (\<lambda>_. True)
       (\<lambda>e. Ok (synthesis_failed now serialized e)))"

section \<open>The round trip\<close>

lemma wf_serialize_template: "wf_tpl (serialize_template m)"
  by (simp add: serialize_template_def template_defs bind_def Let_def split: option.splits)

lemma fits_serialize_template: "fits_tpl (synthetize_template now junk) (serialize_template m)"
  by (simp add: serialize_template_def synthetize_template_def template_defs bind_def Let_def)

definition pulled_template :: "message \<Rightarrow> tpl" where
  "pulled_template m =
     bind (M_jsonTemplate m) ''exception_info'' (ETpl (bind [] ''set'' (EBool (m_exception_info m \<noteq> None))))"

lemma pull_serialize_template:
  "pull_tpl (synthetize_template now junk) (serialize_template m) = pulled_template m"
  by (simp add: serialize_template_def synthetize_template_def pulled_template_def template_defs bind_def Let_def)

lemma store_pulled_template:
  "store_message (blank_message now) (pulled_template m) = m\<lparr>m_exception_info := None\<rparr>"
  by (simp add: store_message_def store_build_info_def blank_message_def Message_def pulled_template_def
      template_defs bind_def tpl_read_defs)

lemma pulled_template_set:
  "tpl_bool (tpl_sub (pulled_template m) ''exception_info'') ''set'' junk \<longleftrightarrow> m_exception_info m \<noteq> None"
  by (simp add: pulled_template_def template_defs bind_def tpl_read_defs)

lemma serialize_template_wrapper:
  "map_of (serialize_template m) ''exception_info'' =
     Some (ETpl ((''set'', EBool (m_exception_info m \<noteq> None)) #
       (if m_exception_info m \<noteq> None then [(''data'', ETpl (M_exceptionInfoJsonTemplate m))] else [])))"
  by (simp add: serialize_template_def template_defs bind_def Let_def)

lemma exception_template_ok:
  "wf_tpl (exception_template x)" "fits_tpl (exception_template y) (exception_template x)"
  "pull_tpl (exception_template y) (exception_template x) = exception_template x"
  "times_tpl (exception_template x) = []"
  "store_exception_info y (exception_template x) = x"
  by (simp_all add: template_defs store_exception_info_def store_build_info_def tpl_read_defs)

lemma exception_info_node_serialized:
  assumes "json_library J" and x: "m_exception_info m = Some x"
  shows "exception_info_node J (Some (j_synth J sy (serialize_template m))) =
           Ok (Some (j_synth J sy (exception_template x)))"
proof -
  note get = json_library.get_synth_tpl [OF assms(1)]
  let ?w = "[(''set'', EBool True), (''data'', ETpl (exception_template x))]"
  have "map_of (serialize_template m) ''exception_info'' = Some (ETpl ?w)"
    using x by (simp add: serialize_template_wrapper M_exceptionInfoJsonTemplate_def)
  then have "j_get J (j_synth J sy (serialize_template m)) ''exception_info'' = Some (j_synth J sy ?w)"
    by (rule get)
  moreover have "j_get J (j_synth J sy ?w) ''data'' = Some (j_synth J sy (exception_template x))"
    by (rule get) simp
  ultimately show ?thesis
    using json_library.synth_object [OF assms(1)] by (simp add: exception_info_node_def)
qed

lemma synthetize_body_serialized:
  assumes J: "json_library J" and H: "hex_codec H"
    and s: "j_parse J s = Ok (j_synth J (TimePointElement_synthetize J H) (serialize_template m))"
  shows "synthetize_body J H now junk s = Ok m"
proof -
  let ?sy = "TimePointElement_synthetize J H" and ?ex = "TimePointElement_extract J H"
  note pulls = json_library.extract_synth [OF J _ _ time_extract_synthetize [OF J H]]
  have "j_extract J ?ex (synthetize_template now junk) (Some (j_synth J ?sy (serialize_template m)))
          = Ok (pulled_template m)"
    using pulls [OF wf_serialize_template fits_serialize_template] by (simp add: pull_serialize_template)
  moreover have "j_extract J ?ex (exception_template y) (Some (j_synth J ?sy (exception_template x)))
          = Ok (exception_template x)" for x y
    using pulls [OF exception_template_ok(1,2)] by (simp add: exception_template_ok)
  ultimately show ?thesis
    using s json_library.synth_object [OF J] exception_info_node_serialized [OF J, of m]
    by (cases "m_exception_info m")
      (simp_all add: synthetize_body_def Let_def pulled_template_set store_pulled_template
        M_exceptionInfoJsonTemplate_def exception_template_ok)
qed

lemma serialize_serializes:
  assumes "json_library J"
  shows "\<exists>s. serialize J H m = Ok s \<and>
           j_parse J s = Ok (j_synth J (TimePointElement_synthetize J H) (serialize_template m))"
proof -
  obtain s where "j_serialize J (j_synth J (TimePointElement_synthetize J H) (serialize_template m)) False = Ok s"
      "j_parse J s = Ok (j_synth J (TimePointElement_synthetize J H) (serialize_template m))"
    using json_library.parse_serialize [OF assms] by blast
  then show ?thesis by (simp add: serialize_def)
qed

section \<open>Properties\<close>

text \<open>
  C3. A log message survives the wire: \<^verbatim>\<open>synthetize\<close> applied to the text that \<^verbatim>\<open>serialize\<close> produced for a
  message gives back that message, with its type, build and process information, time, text and the
  exception information if there was any, whatever the uninitialised flag held.
\<close>

theorem synthetize_serialize:
  assumes "json_library J" and "hex_codec H"
  shows "\<exists>s. serialize J H m = Ok s \<and> synthetize J H now junk s = Ok m"
proof -
  obtain s where s: "serialize J H m = Ok s"
      "j_parse J s = Ok (j_synth J (TimePointElement_synthetize J H) (serialize_template m))"
    using serialize_serializes [OF assms(1)] by blast
  then show ?thesis
    using synthetize_body_serialized [OF assms s(2)] by (simp add: synthetize_def)
qed

theorem synthetize_serialize_witness:
  "\<exists>s. serialize ref_json ref_hex_lib
         ((Message 81985529216486895 (type_code Error) empty_msg_build_info
            \<lparr>pi_process = ''app'', pi_pid = 4242\<rparr> ''disk full'')
          \<lparr>m_exception_info := Some (empty_exception_info\<lparr>ei_what := ''ENOSPC''\<rparr>)\<rparr>) = Ok s \<and>
       synthetize ref_json ref_hex_lib 0 True s =
         Ok ((Message 81985529216486895 (type_code Error) empty_msg_build_info
            \<lparr>pi_process = ''app'', pi_pid = 4242\<rparr> ''disk full'')
          \<lparr>m_exception_info := Some (empty_exception_info\<lparr>ei_what := ''ENOSPC''\<rparr>)\<rparr>)"
  by (rule synthetize_serialize) (rule ref.json_library_axioms, rule ref_hex.hex_codec_axioms)

text \<open>
  Failures of serialisation are reported, never thrown: when the JSON library throws, \<^verbatim>\<open>serialize\<close>
  returns the text that starts with a dollar sign and quotes the exception, and a reader whose parser
  rejects that text gets a message of type \<^verbatim>\<open>Unknown\<close> that quotes it in full.
\<close>

theorem serialize_failure_reported:
  assumes "j_serialize J (j_synth J (TimePointElement_synthetize J H) (serialize_template m)) False = Throw e"
    and "\<And>t. j_parse K (CHR ''$'' # t) = Throw f"
  shows "\<exists>s. serialize J H m = Ok s \<and>
           s = ''$ exception caught during log message serialization: '' @ [CHR 0x27] @ what e @ [CHR 0x27] \<and>
           synthetize K H now junk s = Ok (synthesis_failed now s f) \<and>
           m_type (synthesis_failed now s f) = type_code Unknown"
  using assms(1) assms(2) by (simp add: serialize_def synthetize_def synthetize_body_def
      synthesis_failed_def Message_def)

lemma ref_parse_dollar: "ref_parse (CHR ''$'' # t) = Throw (JsonExc ''syntax error'')"
  by (simp add: ref_parse_def read_nat_def quote_def is_digit_def)

theorem serialize_failure_reported_witness:
  "\<exists>s. serialize (ref_json\<lparr>j_serialize := \<lambda>_ _. Throw (StdExc ''St9bad_alloc'' ''out of memory'')\<rparr>)
         ref_hex_lib (blank_message 1) = Ok s \<and>
       s = ''$ exception caught during log message serialization: '' @ [CHR 0x27] @
             what (StdExc ''St9bad_alloc'' ''out of memory'') @ [CHR 0x27] \<and>
       synthetize ref_json ref_hex_lib 2 False s =
         Ok (synthesis_failed 2 s (JsonExc ''syntax error'')) \<and>
       m_type (synthesis_failed 2 s (JsonExc ''syntax error'')) = type_code Unknown"
  by (rule serialize_failure_reported) (simp_all add: ref_json_def ref_parse_dollar)

text \<open>
  An exception thrown by \<^verbatim>\<open>LESF_CORE_THROW\<close> can always be attached to a log message: no null string
  is read, the message quotes the description and names the file, line and program of the throw, and unhexing its trace gives the
  text of the stack trace.
\<close>

theorem thrown_exception_logs:
  assumes "hex_codec H"
  shows "\<exists>m x. Message_exception H rtti show_trace now ty bi pi txt (site_exception E cls st w) = Ok m \<and>
           m_exception_info m = Some x \<and> ei_what x = c_str w \<and> ei_rtti_type x = rtti cls \<and>
           mb_file (ei_build_info x) = st_file st \<and> mb_line (ei_build_info x) = st_line st \<and>
           mb_user_program (ei_build_info x) = te_program E \<and>
           h_unhex H (ei_trace x) = Ok (show_trace (te_trace E)) \<and>
           m\<lparr>m_exception_info := None\<rparr> = Message now ty bi pi txt"
  using hex_codec.unhex_hex [OF assms]
  by (simp add: Message_exception_def buildInfo_def debugInfo_def site_build_info_def site_debug_info_def
      copy_build_info_def Message_def)

theorem thrown_exception_logs_witness:
  "\<exists>m x. Message_exception ref_hex_lib (\<lambda>_. ''4lesf'') (\<lambda>_. ''#0 main'') 5 (type_code Crash)
            empty_msg_build_info empty_process_info ''boom''
            (site_exception \<lparr>te_date = ''d'', te_time = ''t'', te_build_id = ''b'', te_program = ''srv'',
               te_version = ''v'', te_trace = [1, 2]\<rparr> TypeException
               \<lparr>st_file = ''f.cpp'', st_line = 7, st_function = ''g''\<rparr> ''bad'') = Ok m \<and>
         m_exception_info m = Some x \<and> ei_what x = ''bad'' \<and> ei_rtti_type x = ''4lesf'' \<and>
         mb_file (ei_build_info x) = ''f.cpp'' \<and> mb_line (ei_build_info x) = 7 \<and>
         mb_user_program (ei_build_info x) = ''srv'' \<and>
         h_unhex ref_hex_lib (ei_trace x) = Ok ''#0 main'' \<and>
         m\<lparr>m_exception_info := None\<rparr> = Message 5 (type_code Crash) empty_msg_build_info empty_process_info ''boom''"
  using thrown_exception_logs [OF ref_hex.hex_codec_axioms, of "\<lambda>_. ''4lesf''" "\<lambda>_. ''#0 main''" 5
      "type_code Crash" empty_msg_build_info empty_process_info "''boom''"
      "\<lparr>te_date = ''d'', te_time = ''t'', te_build_id = ''b'', te_program = ''srv'',
         te_version = ''v'', te_trace = [1, 2]\<rparr>" TypeException
      "\<lparr>st_file = ''f.cpp'', st_line = 7, st_function = ''g''\<rparr>" "''bad''"]
  by (simp add: c_str_def nul_def)

text \<open>
  Reading a time point: the node is taken as it is, so a node that is not a string is a null pointer
  dereference; a string gives a value exactly when it is the hexadecimal text of eight bytes, and
  otherwise an exception.
\<close>

theorem time_extract_cases:
  assumes "hex_codec H"
  shows "TimePointElement_extract J H n =
    (case j_as_string J n of None \<Rightarrow> Undef Null_Deref
     | Some s \<Rightarrow>
        (case h_unhex H s of
           Ok raw \<Rightarrow> if length s = 16 then Ok (word_of_nat (le_value raw)) else Throw (JsonExc ''invalid size'')
         | r \<Rightarrow> obind r (\<lambda>_. Terminate)))"
proof (cases "j_as_string J n")
  case (Some s)
  then show ?thesis
    using hex_codec.unhex_length [OF assms, of s]
    by (cases "h_unhex H s") (auto simp: TimePointElement_extract_def rep_size_def)
qed (simp add: TimePointElement_extract_def)

theorem time_extract_cases_witness:
  "TimePointElement_extract ref_json ref_hex_lib (JInt 5) = Undef Null_Deref \<and>
   TimePointElement_extract ref_json ref_hex_lib (JStr ''0700000000000000'') = Ok 7 \<and>
   TimePointElement_extract ref_json ref_hex_lib (JStr ''07'') = Throw (JsonExc ''invalid size'')"
  by (simp add: time_extract_cases [OF ref_hex.hex_codec_axioms])
    (simp add: ref_json_def ref_hex_lib_def hex_value_def Let_def)

definition bad_time_line :: string where
  "bad_time_line = show_node (JObj
     (map (\<lambda>(k, n). (k, if k = ''time'' then JInt 5 else n))
       (to_fields (\<lambda>_. JInt 0) (serialize_template (blank_message 0)))))"

text \<open>
  One log line stops the server: with a JSON library that accepts the line as an object, an entry
  whose \<^verbatim>\<open>time\<close> member is a number drives \<^verbatim>\<open>synthetize\<close> into a null pointer dereference instead of the
  \<^verbatim>\<open>synthesis failed\<close> message.
\<close>

theorem synthetize_null_deref:
  "synthetize ref_json ref_hex_lib now junk bad_time_line = Undef Null_Deref"
proof -
  let ?n = "JObj (map (\<lambda>(k, n). (k, if k = ''time'' then JInt 5 else n))
       (to_fields (\<lambda>_. JInt 0) (serialize_template (blank_message 0))))"
  have "j_parse ref_json bad_time_line = Ok ?n"
    by (simp add: ref_json_def bad_time_line_def ref_parse_show del: show_node.simps)
  moreover have "j_extract ref_json (TimePointElement_extract ref_json ref_hex_lib)
      (synthetize_template now junk) (Some ?n) = Undef Null_Deref"
    by (simp add: ref_json_def ref_extract_def synthetize_template_def serialize_template_def
        template_defs bind_def blank_message_def Message_def empty_msg_build_info_def
        empty_process_info_def TimePointElement_extract_def)
  ultimately show ?thesis
    by (simp add: synthetize_def synthetize_body_def Let_def ref_json_def)
qed

end
