(* ===== verification/Log_Server.thy ===== *)
theory Log_Server
  imports Log_Message Log_Framing
begin

text \<open>
  \<^verbatim>\<open>log::Server\<close> and its \<^verbatim>\<open>Subscriber\<close>s (\<^verbatim>\<open>inc/lesf/log/server.h\<close>, \<^verbatim>\<open>src/log/server.cpp\<close>) with the life cycle of
  the sessions (\<^verbatim>\<open>src/log/session.cpp\<close>): construction and the race between its two halves, accepting, the data
  of a session on its way to every subscriber, and destruction. Objects are named by numbers.
\<close>

section \<open>State\<close>

text \<open>
  The I/O thread runs the event loop once: \<^verbatim>\<open>io_context::run()\<close> returns, and the thread ends, as soon as no
  operation is pending.
\<close>

datatype io_thread = Starting | Running | Finished

text \<open>
  \<open>sv_built\<close> says that the constructor has returned. \<open>sub_server\<close> is \<^verbatim>\<open>m_server\<close> of each live subscriber, \<open>Some True\<close> when it points to the server; \<open>sub_log\<close>
  records the messages a subscriber was given.
\<close>

record server =
  sv_alive :: bool
  sv_built :: bool
  sv_subscribers :: "nat set"
  sv_sessions :: "nat \<rightharpoonup> session"
  sv_accepting :: bool
  sv_io :: io_thread
  sv_fault :: bool
  sub_server :: "nat \<rightharpoonup> bool"
  sub_log :: "nat \<Rightarrow> message list"

definition new_server :: server where
  "new_server =
     \<lparr>sv_alive = True, sv_built = False, sv_subscribers = {}, sv_sessions = Map.empty, sv_accepting = False,
      sv_io = Starting, sv_fault = False, sub_server = Map.empty, sub_log = (\<lambda>_. [])\<rparr>"

datatype server_event =
    IoThreadRuns
  | ConstructorAccepts
  | Subscribe nat
  | Unsubscribe nat
  | Accepted nat
  | AcceptError
  | SessionData nat string
  | SessionError nat
  | DestroyServer

section \<open>Operations\<close>

text \<open>Nothing left to wait for: \<^verbatim>\<open>run()\<close> returns.\<close>

definition io_idle :: "server \<Rightarrow> bool" where
  "io_idle s \<longleftrightarrow> \<not> sv_accepting s \<and> sv_sessions s = Map.empty"

definition after_handler :: "server \<Rightarrow> server" where
  "after_handler s = (if io_idle s then s\<lparr>sv_io := Finished\<rparr> else s)"

definition M_ioThread :: "server \<Rightarrow> server" where
  "M_ioThread s = after_handler (s\<lparr>sv_io := Running\<rparr>)"

definition M_doAccept :: "server \<Rightarrow> server" where
  "M_doAccept s = s\<lparr>sv_accepting := True\<rparr>"

definition Subscriber :: "nat \<Rightarrow> server \<Rightarrow> server" where
  "Subscriber i s =
     s\<lparr>sub_server := (sub_server s)(i \<mapsto> True), sv_subscribers := insert i (sv_subscribers s),
       sub_log := (sub_log s)(i := [])\<rparr>"

definition Subscriber_destroy :: "nat \<Rightarrow> server \<Rightarrow> server" where
  "Subscriber_destroy i s =
     (let s' = (if sub_server s i = Some True
                then s\<lparr>sv_subscribers := sv_subscribers s - {i}\<rparr> else s)
      in s'\<lparr>sub_server := (sub_server s')(i := None)\<rparr>)"

text \<open>\<^verbatim>\<open>Session::start\<close>: the session enters the set and waits for its first header.\<close>

definition session_start :: "nat \<Rightarrow> server \<Rightarrow> server" where
  "session_start i s = s\<lparr>sv_sessions := (sv_sessions s)(i \<mapsto> new_session)\<rparr>"

definition accept_handler :: "nat \<Rightarrow> server \<Rightarrow> server" where
  "accept_handler i s = M_doAccept (session_start i (s\<lparr>sv_accepting := False\<rparr>))"

definition accept_error_handler :: "server \<Rightarrow> server" where
  "accept_error_handler s = after_handler (s\<lparr>sv_accepting := False\<rparr>)"

text \<open>
  \<^verbatim>\<open>M_notifyMessageReceived\<close>: the text is turned into a message, once, and every subscriber is given it.
  \<open>syn\<close> is \<^verbatim>\<open>Message::synthetize\<close>; undefined behaviour in it takes the server down.
\<close>

definition notify :: "message \<Rightarrow> server \<Rightarrow> server" where
  "notify m s = s\<lparr>sub_log := (\<lambda>i. if i \<in> sv_subscribers s then sub_log s i @ [m] else sub_log s i)\<rparr>"

definition M_notifyMessageReceived :: "(string \<Rightarrow> message res) \<Rightarrow> string \<Rightarrow> server \<Rightarrow> server" where
  "M_notifyMessageReceived syn data s = (case syn data of Ok m \<Rightarrow> notify m s | _ \<Rightarrow> s\<lparr>sv_fault := True\<rparr>)"

fun deliver :: "(string \<Rightarrow> message res) \<Rightarrow> string list \<Rightarrow> server \<Rightarrow> server" where
  "deliver syn [] s = s"
| "deliver syn (d # ds) s =
     (let t = M_notifyMessageReceived syn d s in if sv_fault t then t else deliver syn ds t)"

definition session_data :: "(string \<Rightarrow> message res) \<Rightarrow> nat \<Rightarrow> string \<Rightarrow> session \<Rightarrow> server \<Rightarrow> server" where
  "session_data syn i bytes ses s =
     (case feed ses bytes of (ds, ses') \<Rightarrow>
        (let t = deliver syn ds (s\<lparr>sv_sessions := (sv_sessions s)(i \<mapsto> ses')\<rparr>)
         in if ses' = Crashed then t\<lparr>sv_fault := True\<rparr> else t))"

definition session_error :: "nat \<Rightarrow> server \<Rightarrow> server" where
  "session_error i s = after_handler (s\<lparr>sv_sessions := (sv_sessions s)(i := None)\<rparr>)"

text \<open>The destructor: subscribers are told, the event loop is stopped and joined.\<close>

definition Server_destroy :: "server \<Rightarrow> server" where
  "Server_destroy s =
     s\<lparr>sub_server := (\<lambda>i. if i \<in> sv_subscribers s then map_option (\<lambda>_. False) (sub_server s i) else sub_server s i),
       sv_io := Finished, sv_sessions := Map.empty, sv_accepting := False, sv_subscribers := {}, sv_alive := False\<rparr>"

lemmas server_defs =
  io_idle_def after_handler_def M_ioThread_def M_doAccept_def Subscriber_def Subscriber_destroy_def
  session_start_def accept_handler_def accept_error_handler_def notify_def M_notifyMessageReceived_def
  session_data_def session_error_def Server_destroy_def

fun server_step :: "(string \<Rightarrow> message res) \<Rightarrow> server \<Rightarrow> server_event \<Rightarrow> server option" where
  "server_step syn s ev =
     (if sv_fault s then None
      else case ev of
        IoThreadRuns \<Rightarrow> if sv_io s = Starting then Some (M_ioThread s) else None
      | ConstructorAccepts \<Rightarrow>
          if sv_built s then None else Some (M_doAccept (s\<lparr>sv_built := True\<rparr>))
      | Subscribe i \<Rightarrow> if sv_built s \<and> sv_alive s \<and> sub_server s i = None then Some (Subscriber i s) else None
      | Unsubscribe i \<Rightarrow> if sub_server s i = None then None else Some (Subscriber_destroy i s)
      | Accepted i \<Rightarrow>
          if sv_io s = Running \<and> sv_accepting s \<and> sv_sessions s i = None then Some (accept_handler i s) else None
      | AcceptError \<Rightarrow>
          if sv_io s = Running \<and> sv_accepting s then Some (accept_error_handler s) else None
      | SessionData i bytes \<Rightarrow>
          if sv_io s = Running then map_option (\<lambda>ses. session_data syn i bytes ses s) (sv_sessions s i) else None
      | SessionError i \<Rightarrow>
          if sv_io s = Running \<and> sv_sessions s i \<noteq> None then Some (session_error i s) else None
      | DestroyServer \<Rightarrow> if sv_built s \<and> sv_alive s then Some (Server_destroy s) else None)"

declare server_step.simps [simp del]

section \<open>Invariant\<close>

text \<open>
  Registrations and pointers agree: a subscriber points to the server exactly while the server lists it, and
  nothing points to a destroyed server.
\<close>

definition server_inv :: "server \<Rightarrow> bool" where
  "server_inv s \<longleftrightarrow>
     (\<forall>i. sub_server s i = Some True \<longleftrightarrow> i \<in> sv_subscribers s) \<and>
     (\<not> sv_alive s \<longrightarrow> sv_subscribers s = {})"

lemma deliver_frame [simp]:
  "sub_server (deliver syn ds s) = sub_server s" "sv_subscribers (deliver syn ds s) = sv_subscribers s"
  "sv_alive (deliver syn ds s) = sv_alive s" "sv_sessions (deliver syn ds s) = sv_sessions s"
  "sv_io (deliver syn ds s) = sv_io s" "sv_accepting (deliver syn ds s) = sv_accepting s"
  by (induction ds arbitrary: s)
    (auto simp: M_notifyMessageReceived_def notify_def Let_def split: outcome.splits)

lemma session_data_frame [simp]:
  "sub_server (session_data syn i b ses s) = sub_server s"
  "sv_subscribers (session_data syn i b ses s) = sv_subscribers s"
  "sv_alive (session_data syn i b ses s) = sv_alive s"
  by (simp_all add: session_data_def Let_def split: prod.splits)

lemma server_inv_frame:
  "sub_server t = sub_server s \<Longrightarrow> sv_subscribers t = sv_subscribers s \<Longrightarrow> sv_alive t = sv_alive s \<Longrightarrow>
   server_inv t = server_inv s"
  by (simp add: server_inv_def)

lemma server_inv_Subscriber: "server_inv s \<Longrightarrow> sv_alive s \<Longrightarrow> server_inv (Subscriber i s)"
  by (simp add: server_inv_def Subscriber_def)

lemma server_inv_Subscriber_destroy: "server_inv s \<Longrightarrow> server_inv (Subscriber_destroy i s)"
  by (auto simp: server_inv_def Subscriber_destroy_def Let_def)

lemma server_inv_Server_destroy: "server_inv s \<Longrightarrow> server_inv (Server_destroy s)"
  by (auto simp: server_inv_def Server_destroy_def)

lemma server_step_frame:
  assumes "server_step syn s ev = Some t" and "\<And>i. ev \<noteq> Subscribe i" and "\<And>i. ev \<noteq> Unsubscribe i"
    and "ev \<noteq> DestroyServer"
  shows "sub_server t = sub_server s" and "sv_subscribers t = sv_subscribers s" and "sv_alive t = sv_alive s"
  using assms
  by (cases ev; auto simp: server_step.simps M_ioThread_def M_doAccept_def session_start_def
      accept_handler_def accept_error_handler_def session_error_def after_handler_def split: if_splits)+

lemma server_inv_step:
  assumes "server_inv s" and "server_step syn s ev = Some t"
  shows "server_inv t"
proof (cases ev)
  case (Subscribe i)
  then show ?thesis using assms server_inv_Subscriber by (auto simp: server_step.simps split: if_splits)
next
  case (Unsubscribe i)
  then show ?thesis using assms server_inv_Subscriber_destroy by (auto simp: server_step.simps split: if_splits)
next
  case DestroyServer
  then show ?thesis using assms server_inv_Server_destroy by (auto simp: server_step.simps split: if_splits)
qed (use assms server_step_frame [OF assms(2)] in \<open>simp_all add: server_inv_def\<close>)

interpretation server: event_machine "server_step syn" server_inv
  by unfold_locales (rule server_inv_step)

lemma server_inv_new: "server_inv new_server"
  by (simp add: server_inv_def new_server_def)

section \<open>Fan-out\<close>

lemma deliver_ok:
  "\<not> sv_fault s \<Longrightarrow> list_all2 (\<lambda>d m. syn d = Ok m) ds ms \<Longrightarrow>
   \<not> sv_fault (deliver syn ds s) \<and>
   sub_log (deliver syn ds s) = (\<lambda>i. if i \<in> sv_subscribers s then sub_log s i @ ms else sub_log s i)"
proof (induction ds arbitrary: s ms)
  case (Cons d ds)
  then obtain m ms' where ms: "ms = m # ms'" "syn d = Ok m" "list_all2 (\<lambda>d m. syn d = Ok m) ds ms'"
    by (auto simp: list_all2_Cons1)
  have "\<not> sv_fault (notify m s)" using Cons.prems(1) by (simp add: notify_def)
  then show ?case using Cons.IH [OF _ ms(3), of "notify m s"] ms
    by (auto simp: M_notifyMessageReceived_def Let_def notify_def)
qed auto

lemma feed_Crashed_mono: "feed_all Crashed cs = ([], Crashed)"
  by (induction cs) auto

lemma session_data_ok:
  assumes "\<not> sv_fault s" and "feed ses bytes = (ds, ses')" and "ses' \<noteq> Crashed"
    and "list_all2 (\<lambda>d m. syn d = Ok m) ds ms"
  shows "\<not> sv_fault (session_data syn i bytes ses s) \<and>
         sv_sessions (session_data syn i bytes ses s) = (sv_sessions s)(i \<mapsto> ses') \<and>
         sv_io (session_data syn i bytes ses s) = sv_io s \<and>
         sub_log (session_data syn i bytes ses s) =
           (\<lambda>j. if j \<in> sv_subscribers s then sub_log s j @ ms else sub_log s j)"
  using assms deliver_ok [OF _ assms(4), of "s\<lparr>sv_sessions := (sv_sessions s)(i \<mapsto> ses')\<rparr>"]
  by (simp add: session_data_def Let_def cong: if_cong)

text \<open>A whole stream of pieces, each its own completion.\<close>

lemma session_pieces_ok:
  assumes "\<not> sv_fault s" and "sv_io s = Running" and "sv_sessions s i = Some ses"
    and "feed_all ses pieces = (ds, ses')" and "ses' \<noteq> Crashed"
    and "list_all2 (\<lambda>d m. syn d = Ok m) ds ms"
  shows "\<exists>t. exec (server_step syn) s (map (SessionData i) pieces) = Some t \<and> \<not> sv_fault t \<and>
           sv_sessions t i = Some ses' \<and>
           sub_log t = (\<lambda>j. if j \<in> sv_subscribers s then sub_log s j @ ms else sub_log s j)"
  using assms
proof (induction pieces arbitrary: s ses ds ms)
  case Nil
  then show ?case by auto
next
  case (Cons p pieces)
  obtain ds1 ses1 where f1: "feed ses p = (ds1, ses1)" by (cases "feed ses p")
  then obtain ds2 where f2: "feed_all ses1 pieces = (ds2, ses')" "ds = ds1 @ ds2"
    using Cons.prems(4) by (cases "feed_all ses1 pieces") auto
  then have live: "ses1 \<noteq> Crashed" using Cons.prems(5) feed_Crashed_mono [of pieces] by auto
  obtain ms1 ms2 where ms: "ms = ms1 @ ms2" "list_all2 (\<lambda>d m. syn d = Ok m) ds1 ms1"
      "list_all2 (\<lambda>d m. syn d = Ok m) ds2 ms2"
    using Cons.prems(6) f2(2) by (auto simp: list_all2_append1)
  let ?t = "session_data syn i p ses s"
  note t = session_data_ok [OF Cons.prems(1) f1 live ms(2), of i]
  have step: "server_step syn s (SessionData i p) = Some ?t"
    using Cons.prems(1-3) by (simp add: server_step.simps)
  obtain u where u: "exec (server_step syn) ?t (map (SessionData i) pieces) = Some u" "\<not> sv_fault u"
      "sv_sessions u i = Some ses'"
      "sub_log u = (\<lambda>j. if j \<in> sv_subscribers ?t then sub_log ?t j @ ms2 else sub_log ?t j)"
    using Cons.IH [OF _ _ _ f2(1) Cons.prems(5) ms(3), of ?t] t Cons.prems(2) by auto
  have "sub_log u = (\<lambda>j. if j \<in> sv_subscribers s then sub_log s j @ ms else sub_log s j)"
    using u(4) t ms(1) by auto
  then show ?case using step u by simp
qed

section \<open>A server that hears nothing\<close>

definition deaf :: "server \<Rightarrow> bool" where
  "deaf s \<longleftrightarrow> sv_io s = Finished \<and> (\<forall>i. sub_log s i = [])"

lemma deaf_step: "deaf s \<Longrightarrow> server_step syn s ev = Some t \<Longrightarrow> deaf t"
  by (cases ev)
    (auto simp: server_step.simps deaf_def M_doAccept_def Subscriber_def Subscriber_destroy_def
      Server_destroy_def Let_def split: if_splits)

interpretation deaf_server: event_machine "server_step syn" deaf
  by unfold_locales (rule deaf_step)

section \<open>Properties\<close>

text \<open>
  Subscribers and the server never disagree: after any run from a new server, a subscriber points to the
  server exactly while it is registered, and once the server is destroyed no subscriber points to it, so no
  destructor of a subscriber touches a dead server.
\<close>

theorem subscriber_pointers_agree:
  assumes "exec (server_step syn) new_server es = Some s"
  shows "(sub_server s i = Some True \<longleftrightarrow> i \<in> sv_subscribers s) \<and>
         (sv_alive s \<or> sub_server s i \<noteq> Some True)"
  using server.exec_keeps [OF server_inv_new assms] by (auto simp: server_inv_def)

theorem subscriber_pointers_agree_witness:
  "\<exists>s. exec (server_step (\<lambda>_. Terminate)) new_server
         [ConstructorAccepts, IoThreadRuns, Subscribe 1, Subscribe 2, Unsubscribe 1, DestroyServer] = Some s \<and>
       sub_server s 2 = Some False \<and> sub_server s 1 = None \<and> (sv_alive s \<or> sub_server s 2 \<noteq> Some True)"
proof -
  obtain s where s: "exec (server_step (\<lambda>_. Terminate)) new_server
         [ConstructorAccepts, IoThreadRuns, Subscribe 1, Subscribe 2, Unsubscribe 1, DestroyServer] = Some s"
      "sub_server s 2 = Some False" "sub_server s 1 = None"
    by (simp add: server_step.simps new_server_def server_defs Let_def)
  then show ?thesis using subscriber_pointers_agree [OF s(1), of 2] by blast
qed

text \<open>
  Every subscriber gets every message: the bytes of one completion are decoded by the session, each message
  is synthetised once, and the log of every registered subscriber grows by exactly these messages in their
  order, while all other logs and the other sessions stay as they were.
\<close>

theorem session_data_fans_out:
  assumes "\<not> sv_fault s" and "sv_io s = Running" and "sv_sessions s i = Some ses"
    and "feed ses bytes = (ds, ses')" and "ses' \<noteq> Crashed"
    and "list_all2 (\<lambda>d m. syn d = Ok m) ds ms"
  shows "\<exists>t. server_step syn s (SessionData i bytes) = Some t \<and> \<not> sv_fault t \<and>
           sv_sessions t = (sv_sessions s)(i \<mapsto> ses') \<and>
           (\<forall>j. sub_log t j = (if j \<in> sv_subscribers s then sub_log s j @ ms else sub_log s j))"
  using session_data_ok [OF assms(1,4,5,6), of i] assms(1-3)
  by (intro exI [of _ "session_data syn i bytes ses s"]) (simp add: server_step.simps)

theorem session_data_fans_out_witness:
  "\<exists>t. server_step (\<lambda>d. Ok (Message 0 0 empty_msg_build_info empty_process_info d))
         (new_server\<lparr>sv_io := Running, sv_sessions := [7 \<mapsto> new_session], sv_subscribers := {1}\<rparr>)
         (SessionData 7 ''00000001x0'') = Some t \<and>
       sub_log t 1 = [Message 0 0 empty_msg_build_info empty_process_info ''x''] \<and> sub_log t 2 = []"
proof -
  have "frame ''x'' = Ok ''00000001x''" by (simp add: frame_Ok_iff header_text_small HeaderSize_def)
  then have f: "feed new_session ''00000001x0'' = ([''x''], Waiting Header ''0'')"
    using wire.dec_frame [of "''x''" "''00000001x''" "''0''"] by (simp add: feed_new drain.simps HeaderSize_def)
  show ?thesis
    using session_data_fans_out [OF _ _ _ f, of
        "new_server\<lparr>sv_io := Running, sv_sessions := [7 \<mapsto> new_session], sv_subscribers := {1}\<rparr>" 7
        "\<lambda>d. Ok (Message 0 0 empty_msg_build_info empty_process_info d)"
        "[Message 0 0 empty_msg_build_info empty_process_info ''x'']"]
    by (auto simp: new_server_def)
qed

text \<open>
  The constructor races with its own thread: when the I/O thread enters the event loop before the
  constructor has started to accept, the loop has nothing to wait for and returns, and from then on no run
  ever gives a subscriber a message; in the other order the thread keeps running.
\<close>

theorem early_io_thread_is_deaf:
  assumes "exec (server_step syn) new_server (IoThreadRuns # ConstructorAccepts # es) = Some s"
  shows "sv_io s = Finished \<and> sub_log s i = [] \<and>
         (\<exists>t. exec (server_step syn) new_server [ConstructorAccepts, IoThreadRuns] = Some t \<and> sv_io t = Running)"
proof -
  let ?t = "M_doAccept (M_ioThread new_server\<lparr>sv_built := True\<rparr>)"
  have "deaf ?t" by (simp add: deaf_def new_server_def server_defs)
  moreover have "exec (server_step syn) ?t es = Some s"
    using assms by (simp add: server_step.simps new_server_def server_defs)
  ultimately have "deaf s" by (rule deaf_server.exec_keeps)
  then show ?thesis
    by (simp add: deaf_def server_step.simps new_server_def server_defs)
qed

theorem early_io_thread_is_deaf_witness:
  "\<exists>s. exec (server_step (\<lambda>_. Terminate)) new_server
         (IoThreadRuns # ConstructorAccepts # [Subscribe 3]) = Some s \<and> sv_io s = Finished \<and> sub_log s 3 = []"
proof -
  obtain s where s: "exec (server_step (\<lambda>_. Terminate)) new_server
         (IoThreadRuns # ConstructorAccepts # [Subscribe 3]) = Some s"
    by (simp add: server_step.simps new_server_def server_defs)
  then show ?thesis using early_io_thread_is_deaf [OF s, of 3] by blast
qed

end
