(* ===== verification/Log_Formatter.thy ===== *)
theory Log_Formatter
  imports Log_Message
begin

text \<open>
  The formatters of \<^verbatim>\<open>inc/lesf/log/formatter.h\<close> and \<^verbatim>\<open>src/log/formatter.cpp\<close>: \<^verbatim>\<open>raw\<close>, which prints the serialised
  message, and \<^verbatim>\<open>plain_light\<close>, which lays a message out in columns and indents a stack trace with a search and
  replace loop. The stream is its text and its fill character; widths are reset after each output and
  are written at their use. \<open>ctime\<close> (the local time of a time point, ending in a line break) and the
  demangler of the C++ runtime are parameters.
\<close>

section \<open>Streams\<close>

record ostream =
  os_text :: string
  os_fill :: char

definition nl :: char where
  "nl = CHR 0x0A"

definition put :: "string \<Rightarrow> ostream \<Rightarrow> ostream" where
  "put s os = os\<lparr>os_text := os_text os @ s\<rparr>"

text \<open>\<^verbatim>\<open>os << std::setw(w) << std::left << s\<close> and \<^verbatim>\<open>os << std::setw(w) << std::right << s\<close>.\<close>

definition put_left :: "nat \<Rightarrow> string \<Rightarrow> ostream \<Rightarrow> ostream" where
  "put_left w s os = put (s @ replicate (w - length s) (os_fill os)) os"

definition put_right :: "nat \<Rightarrow> string \<Rightarrow> ostream \<Rightarrow> ostream" where
  "put_right w s os = put (replicate (w - length s) (os_fill os) @ s) os"

definition set_fill :: "char \<Rightarrow> ostream \<Rightarrow> ostream" where
  "set_fill c os = os\<lparr>os_fill := c\<rparr>"

definition show_cint :: "cint \<Rightarrow> string" where
  "show_cint i = int_dec (sint i)"

lemma put_sel [simp]:
  "os_text (put s os) = os_text os @ s" "os_fill (put s os) = os_fill os"
  "os_text (put_left w s os) = os_text os @ s @ replicate (w - length s) (os_fill os)"
  "os_fill (put_left w s os) = os_fill os"
  "os_text (put_right w s os) = os_text os @ replicate (w - length s) (os_fill os) @ s"
  "os_fill (put_right w s os) = os_fill os"
  "os_text (set_fill c os) = os_text os" "os_fill (set_fill c os) = c"
  by (simp_all add: put_def put_left_def put_right_def set_fill_def)

section \<open>The raw formatter\<close>

definition raw_format :: "'n json_lib \<Rightarrow> hex_lib \<Rightarrow> message \<Rightarrow> ostream \<Rightarrow> ostream res" where
  "raw_format J H m os = obind (serialize J H m) (\<lambda>s. Ok (put [nl] (put s os)))"

section \<open>Indenting a stack trace\<close>

definition indent :: string where
  "indent = ''    ''"

text \<open>\<^verbatim>\<open>trace.find("\n", k)\<close>: the position, or \<open>None\<close> for \<^verbatim>\<open>npos\<close>.\<close>

definition find_nl :: "string \<Rightarrow> nat \<Rightarrow> nat option" where
  "find_nl s k =
     (let r = dropWhile (\<lambda>c. c \<noteq> nl) (drop k s)
      in if r = [] then None else Some (length s - length r))"

lemma find_nl_Some:
  assumes "find_nl s k = Some q"
  shows "k \<le> q" and "q < length s" and "s ! q = nl"
    and "\<exists>u. drop k s = u @ nl # drop (Suc q) s \<and> nl \<notin> set u \<and> length u = q - k"
proof -
  let ?u = "takeWhile (\<lambda>c. c \<noteq> nl) (drop k s)" and ?r = "dropWhile (\<lambda>c. c \<noteq> nl) (drop k s)"
  have r: "?r \<noteq> []" and q: "q = length s - length ?r"
    using assms unfolding find_nl_def Let_def by (metis option.distinct(1), metis option.inject option.distinct(1))
  have ur: "drop k s = ?u @ ?r" by simp
  have len: "length s - k = length ?u + length ?r" by (simp flip: length_append)
  have pos: "0 < length ?r" using r by (rule length_greater_0_conv [THEN iffD2])
  have le: "length ?r \<le> length s - k" using len by linarith
  show kq: "k \<le> q" and qs: "q < length s" using q pos le by linarith+
  have u: "length ?u = q - k" using len q le by linarith
  then have rq: "?r = drop q s" using ur kq
    by (metis append_eq_conv_conj drop_drop le_add_diff_inverse2)
  then have "?r = s ! q # drop (Suc q) s" using qs by (simp add: Cons_nth_drop_Suc)
  moreover have hd: "hd ?r = nl" using hd_dropWhile [OF r] by blast
  ultimately show sq: "s ! q = nl" by simp
  have "nl \<notin> set ?u" by (auto dest: set_takeWhileD)
  then show "\<exists>u. drop k s = u @ nl # drop (Suc q) s \<and> nl \<notin> set u \<and> length u = q - k"
    using ur u sq \<open>?r = s ! q # drop (Suc q) s\<close> by metis
qed

lemma find_nl_None: "find_nl s k = None \<longleftrightarrow> nl \<notin> set (drop k s)"
  by (auto simp: find_nl_def Let_def)

text \<open>
  The loop, from the position of the line break it handled last. It ends because the text it inserts has
  no line break: fewer of them are left behind the position each time round.
\<close>

function indent_loop :: "nat \<Rightarrow> string \<Rightarrow> string" where
  "indent_loop p trace =
     (case find_nl trace (p + 1) of None \<Rightarrow> trace
      | Some q \<Rightarrow>
          if q = length trace - 1 then trace
          else indent_loop q (take q trace @ nl # indent @ indent @ drop (q + 1) trace))"
  by pat_completeness auto
termination
proof (relation "measure (\<lambda>(p, trace). count_list (drop (Suc p) trace) nl)")
  fix p q :: nat and trace :: string
  assume "find_nl trace (p + 1) = Some q"
  from find_nl_Some [OF this] obtain u where
    u: "drop (Suc p) trace = u @ nl # drop (Suc q) trace" and q: "q < length trace" by auto
  have "count_list (indent @ indent) nl = 0" by (simp add: indent_def nl_def)
  then show "((q, take q trace @ nl # indent @ indent @ drop (q + 1) trace), p, trace)
      \<in> measure (\<lambda>(p, trace). count_list (drop (Suc p) trace) nl)"
    using u q by (simp add: drop_Cons')
qed simp

declare indent_loop.simps [simp del]

definition indent_trace :: "string \<Rightarrow> string" where
  "indent_trace trace = indent_loop 0 trace"

text \<open>The reference: a line break that is not the last character is followed by two indents.\<close>

fun indent_lines :: "string \<Rightarrow> string" where
  "indent_lines [] = []"
| "indent_lines [c] = [c]"
| "indent_lines (c # d # cs) =
     (if c = nl then nl # indent @ indent @ indent_lines (d # cs) else c # indent_lines (d # cs))"

lemma indent_lines_no_nl: "nl \<notin> set u \<Longrightarrow> indent_lines (u @ v) = u @ indent_lines v"
proof (induction u)
  case (Cons c u)
  then show ?case by (cases "u @ v") auto
qed simp

lemma indent_lines_nl: "v \<noteq> [] \<Longrightarrow> indent_lines (nl # v) = nl # indent @ indent @ indent_lines v"
  by (cases v) auto

lemma indent_loop_lines:
  "p < length trace \<Longrightarrow> indent_loop p trace = take (Suc p) trace @ indent_lines (drop (Suc p) trace)"
proof (induction p trace rule: indent_loop.induct)
  case (1 p trace)
  show ?case
  proof (cases "find_nl trace (p + 1)")
    case None
    then have "nl \<notin> set (drop (Suc p) trace)" by (simp add: find_nl_None)
    then have "indent_lines (drop (Suc p) trace) = drop (Suc p) trace"
      using indent_lines_no_nl [of _ "[]"] by simp
    then show ?thesis using None by (simp add: indent_loop.simps)
  next
    case (Some q)
    obtain u where u: "drop (Suc p) trace = u @ nl # drop (Suc q) trace" "nl \<notin> set u"
        "length u = q - Suc p" and q: "Suc p \<le> q" "q < length trace"
      using find_nl_Some [OF Some] by auto
    have tq: "take q trace = take (Suc p) trace @ u"
    proof -
      have "take q trace = take (Suc p) trace @ take (q - Suc p) (drop (Suc p) trace)"
        using q by (metis le_add_diff_inverse take_add)
      then show ?thesis using u by simp
    qed
    show ?thesis
    proof (cases "q = length trace - 1")
      case True
      then have "drop (Suc q) trace = []" using q by simp
      then have "indent_lines (drop (Suc p) trace) = drop (Suc p) trace"
        using u indent_lines_no_nl [of u "[nl]"] by simp
      then show ?thesis using Some True by (simp add: indent_loop.simps)
    next
      case False
      let ?t = "take q trace @ nl # indent @ indent @ drop (q + 1) trace"
      have rest: "drop (Suc q) trace \<noteq> []" using False q by simp
      have ni: "nl \<notin> set (indent @ indent)" by (simp add: indent_def nl_def)
      have "indent_loop p trace = indent_loop q ?t" using Some False by (simp add: indent_loop.simps [of p])
      also have "\<dots> = take (Suc q) ?t @ indent_lines (drop (Suc q) ?t)"
        using q by (intro "1.IH" [OF Some False]) simp
      also have "\<dots> = take q trace @ nl # indent_lines ((indent @ indent) @ drop (Suc q) trace)"
        using q by simp
      also have "\<dots> = take (Suc p) trace @ u @ nl # indent @ indent @ indent_lines (drop (Suc q) trace)"
        using tq indent_lines_no_nl [OF ni] by simp
      also have "\<dots> = take (Suc p) trace @ indent_lines (drop (Suc p) trace)"
        using u indent_lines_no_nl [of u] indent_lines_nl [OF rest] by simp
      finally show ?thesis .
    qed
  qed
qed

lemma indent_trace_lines: "indent_trace (c # cs) = c # indent_lines cs"
  using indent_loop_lines [of 0 "c # cs"] by (simp add: indent_trace_def)

lemma indent_trace_nonempty: "t \<noteq> [] \<Longrightarrow> indent_trace t \<noteq> []"
  by (cases t) (simp_all add: indent_trace_lines)

section \<open>The plain formatter\<close>

definition type_str_map :: "(cint \<times> string) list" where
  "type_str_map =
     [(type_code Unknown, ''Unknown:''), (type_code Crash, ''Crash:  ''), (type_code Error, ''Error:  ''),
      (type_code Warning, ''Warning:''), (type_code Info, ''Info:   ''), (type_code Trace, ''Trace:  '')]"

definition type_str :: "cint \<Rightarrow> string" where
  "type_str t = (case map_of type_str_map t of Some s \<Rightarrow> s | None \<Rightarrow> ''???:    '')"

text \<open>The columns before the message text.\<close>

definition plain_prefix :: "(int64 \<Rightarrow> string) \<Rightarrow> message \<Rightarrow> ostream \<Rightarrow> ostream" where
  "plain_prefix ctime m os =
     (let os = put (butlast (ctime (m_time m)) @ '' | '') os;
          os = put '' <'' (put_left 8 (mb_user_program (m_build_info m)) os);
          os = put ''> | '' (put (mb_user_build_id (m_build_info m)) os);
          os = put '' ('' (put_left 8 (pi_process (m_process_info m)) os);
          os = set_fill CHR '' '' os;
          os = put '') | '' (put_right 5 (show_cint (pi_pid (m_process_info m))) os)
      in put (m_message m) (put (type_str (m_type m)) os))"

text \<open>The stack trace: unhexed, indented, without its last character, which must exist.\<close>

definition plain_trace :: "hex_lib \<Rightarrow> string \<Rightarrow> ostream \<Rightarrow> ostream res" where
  "plain_trace H trace os =
     (if trace \<noteq> [] then
        (let os = put (indent @ ''stack trace:'' @ [nl]) os in
         obind (h_unhex H trace) (\<lambda>t.
         let t = indent_trace t in
         if t = [] then Undef Bad_Iterator else Ok (put (indent @ indent @ butlast t) os)))
      else Ok (put (indent @ ''no stack trace available'') os))"

definition plain_exception ::
  "hex_lib \<Rightarrow> (string \<Rightarrow> string option) \<Rightarrow> exception_info \<Rightarrow> ostream \<Rightarrow> ostream res" where
  "plain_exception H demangle x os =
     (let b = ei_build_info x;
          os = put ('' (exception details follows)'' @ [nl]) os;
          os = put (indent @ ''in '' @ mb_user_program b @ '' <'') os;
          os = put (mb_user_build_id b @ ''>'' @ [nl]) os;
          os = put (indent @ ''at '' @ mb_file b @ '':'' @ show_cint (mb_line b) @ '' (in '' @ mb_function b @ '')'' @ [nl]) os;
          ty = (case demangle (ei_rtti_type x) of Some d \<Rightarrow> d | None \<Rightarrow> ei_rtti_type x);
          os = put (indent @ ''exception '' @ [CHR 0x27] @ ty @ [CHR 0x27] @ '': '' @ ei_what x @ [nl]) os
      in plain_trace H (ei_trace x) os)"

definition plain_light ::
  "hex_lib \<Rightarrow> (int64 \<Rightarrow> string) \<Rightarrow> (string \<Rightarrow> string option) \<Rightarrow> message \<Rightarrow> ostream \<Rightarrow> ostream res" where
  "plain_light H ctime demangle m os =
     (let os = plain_prefix ctime m os in
      obind (case m_exception_info m of None \<Rightarrow> Ok os | Some x \<Rightarrow> plain_exception H demangle x os)
        (\<lambda>os. Ok (put [nl] os)))"

lemma plain_trace_Ok:
  assumes "h_unhex H trace = Ok t" and "trace \<noteq> []" and "t \<noteq> []"
  shows "plain_trace H trace os =
           Ok (put (indent @ indent @ butlast (indent_trace t)) (put (indent @ ''stack trace:'' @ [nl]) os))"
  using assms indent_trace_nonempty [OF assms(3)] by (simp add: plain_trace_def Let_def)

text \<open>Whatever is printed, the text already in the stream stays.\<close>

definition extends :: "ostream \<Rightarrow> ostream \<Rightarrow> bool" where
  "extends os os' \<longleftrightarrow> (\<exists>s. os_text os' = os_text os @ s)"

lemma extends_prefix: "extends os (plain_prefix ctime m os)"
  by (simp add: extends_def plain_prefix_def Let_def)

lemma plain_trace_outcome:
  assumes "hex_codec H"
  shows "if trace = [] \<or> (\<exists>t. h_unhex H trace = Ok t)
         then \<exists>os'. plain_trace H trace os = Ok os' \<and> extends os os'
         else \<exists>n w. plain_trace H trace os = Throw (StdExc n w)"
proof (cases "trace = []")
  case True
  then show ?thesis by (simp add: plain_trace_def extends_def)
next
  case False
  show ?thesis
  proof (cases "\<exists>t. h_unhex H trace = Ok t")
    case True
    then obtain t where t: "h_unhex H trace = Ok t" by blast
    then have "t \<noteq> []" using hex_codec.unhex_length [OF assms t] False by auto
    then show ?thesis using plain_trace_Ok [OF t False] t by (simp add: extends_def)
  next
    case no: False
    then obtain n w where "h_unhex H trace = Throw (StdExc n w)"
      using hex_codec.unhex_safe [OF assms, of trace] by blast
    then show ?thesis using False by (simp add: plain_trace_def Let_def)
  qed
qed

lemma plain_exception_trace:
  "\<exists>os'. plain_exception H demangle x os = plain_trace H (ei_trace x) os' \<and> extends os os'"
  unfolding plain_exception_def Let_def by (rule exI, rule conjI, rule refl) (simp add: extends_def)

lemma extends_trans [trans]: "extends a b \<Longrightarrow> extends b c \<Longrightarrow> extends a c"
  by (auto simp: extends_def)

section \<open>Properties\<close>

text \<open>
  C37. The search and replace loop of \<^verbatim>\<open>plain_light\<close>, which edits the trace while it scans it, computes the
  simple specification: the first character is kept, and from there on every line break other than the last
  character is followed by eight spaces.
\<close>

theorem indent_trace_spec:
  "indent_trace trace = (case trace of [] \<Rightarrow> [] | c # cs \<Rightarrow> c # indent_lines cs)"
proof (cases trace)
  case Nil
  then show ?thesis by (simp add: indent_trace_def indent_loop.simps find_nl_def)
qed (simp add: indent_trace_lines)

fun layout_lines :: "string list \<Rightarrow> string" where
  "layout_lines [] = []"
| "layout_lines [l] = indent @ indent @ l"
| "layout_lines (l # ls) = indent @ indent @ l @ [nl] @ layout_lines ls"

lemma indent_lines_unlines:
  "ls \<noteq> [] \<Longrightarrow> \<forall>l \<in> set ls. nl \<notin> set l \<Longrightarrow>
   indent @ indent @ indent_lines (concat (map (\<lambda>l. l @ [nl]) ls)) = layout_lines ls @ [nl]"
proof (induction ls rule: layout_lines.induct)
  case (2 l)
  then show ?case using indent_lines_no_nl [of l "[nl]"] by simp
next
  case (3 l k ls)
  have "k @ nl # concat (map (\<lambda>l. l @ [nl]) ls) \<noteq> []" by simp
  then show ?case using 3 indent_lines_no_nl [of l] indent_lines_nl by simp
qed simp

text \<open>
  A stack trace printed by Boost, one line after the other, comes out line by line: each line is preceded
  by eight spaces, nothing is lost but the final line break, and the text before it is untouched.
\<close>

theorem plain_trace_lines:
  assumes "hex_codec H" and "ls \<noteq> []" and "\<forall>l \<in> set ls. nl \<notin> set l" and "hd ls \<noteq> []"
  shows "plain_trace H (h_hex H (concat (map (\<lambda>l. l @ [nl]) ls))) os =
           Ok (put (layout_lines ls) (put (indent @ ''stack trace:'' @ [nl]) os))"
proof -
  let ?t = "concat (map (\<lambda>l. l @ [nl]) ls)"
  obtain c cs where c: "?t = c # cs" "c \<noteq> nl"
  proof (cases ls)
    case (Cons l k)
    then show ?thesis using assms(3,4) that by (cases l) auto
  qed (use assms(2) in simp)
  have "indent_lines ?t = c # indent_lines cs" using c by (cases cs) auto
  then have "indent @ indent @ butlast (indent_trace ?t) @ [last (indent_trace ?t)] = layout_lines ls @ [nl]"
    using indent_lines_unlines [OF assms(2,3)] c by (simp add: indent_trace_lines del: butlast.simps last.simps)
  then have "indent @ indent @ butlast (indent_trace ?t) = layout_lines ls"
    by (simp flip: append_assoc)
  moreover have "?t \<noteq> []" using c by simp
  ultimately show ?thesis
    using plain_trace_Ok [OF hex_codec.unhex_hex [OF assms(1)]] hex_codec.hex_empty_iff [OF assms(1)] by simp
qed

theorem plain_trace_lines_witness:
  "plain_trace ref_hex_lib (h_hex ref_hex_lib (concat (map (\<lambda>l. l @ [nl]) [''0# f'', ''1# main''])))
       \<lparr>os_text = [], os_fill = CHR '' ''\<rparr> =
     Ok (put (''        0# f'' @ [nl] @ ''        1# main'')
          (put (''    stack trace:'' @ [nl]) \<lparr>os_text = [], os_fill = CHR '' ''\<rparr>))"
  using plain_trace_lines [OF ref_hex.hex_codec_axioms, of "[''0# f'', ''1# main'']"
      "\<lparr>os_text = [], os_fill = CHR '' ''\<rparr>"]
  by (simp add: nl_def indent_def)

text \<open>
  \<^verbatim>\<open>plain_light\<close> never reaches undefined behaviour. It prints every message without exception
  information, and one with it exactly when the trace is empty or is hexadecimal text, always ending the output
  with a line break and keeping what the stream held; for any other trace, which a peer can send, the
  exception of the decoder leaves the formatter.
\<close>

theorem plain_light_outcome:
  assumes "hex_codec H"
  shows "if (case m_exception_info m of None \<Rightarrow> True
             | Some x \<Rightarrow> ei_trace x = [] \<or> (\<exists>t. h_unhex H (ei_trace x) = Ok t))
         then \<exists>os' s. plain_light H ctime demangle m os = Ok os' \<and> os_text os' = os_text os @ s @ [nl]
         else \<exists>n w. plain_light H ctime demangle m os = Throw (StdExc n w)"
proof (cases "m_exception_info m")
  case None
  then show ?thesis
    using extends_prefix [of os ctime m] by (auto simp: plain_light_def Let_def extends_def)
next
  case (Some x)
  obtain os1 where os1: "plain_exception H demangle x (plain_prefix ctime m os) = plain_trace H (ei_trace x) os1"
      "extends (plain_prefix ctime m os) os1"
    using plain_exception_trace by blast
  have "extends os os1" using extends_prefix os1(2) by (rule extends_trans)
  then show ?thesis
    using Some os1(1) plain_trace_outcome [OF assms, of "ei_trace x" os1]
    by (auto simp: plain_light_def Let_def extends_def split: if_splits)
qed

theorem plain_light_outcome_witness:
  "\<exists>n w. plain_light ref_hex_lib (\<lambda>_. ''now'' @ [nl]) (\<lambda>_. None)
     ((Message 0 (type_code Crash) empty_msg_build_info empty_process_info ''boom'')
        \<lparr>m_exception_info := Some (empty_exception_info\<lparr>ei_trace := ''zz''\<rparr>)\<rparr>)
     \<lparr>os_text = [], os_fill = CHR '' ''\<rparr> = Throw (StdExc n w)"
proof -
  have "\<not> (\<exists>t. h_unhex ref_hex_lib ''zz'' = Ok t)"
    by (simp add: ref_hex_lib_def hex_value_def Let_def)
  then show ?thesis
    using plain_light_outcome [OF ref_hex.hex_codec_axioms, of
        "(Message 0 (type_code Crash) empty_msg_build_info empty_process_info ''boom'')
          \<lparr>m_exception_info := Some (empty_exception_info\<lparr>ei_trace := ''zz''\<rparr>)\<rparr>"
        "\<lambda>_. ''now'' @ [nl]" "\<lambda>_. None" "\<lparr>os_text = [], os_fill = CHR '' ''\<rparr>"]
    by simp
qed

end
