(* ===== verification/Log_Service.thy ===== *)
theory Log_Service
  imports Log_Server Log_Formatter
begin

text \<open>
  The log server program, \<^verbatim>\<open>examples/logserver/src/main.cpp\<close>: the subscriber \<^verbatim>\<open>outputs::Ostream\<close>, which formats
  every message onto a stream, and \<^verbatim>\<open>LogService\<close>, the daemon service that owns a server and prints what it
  receives on its standard output. The construction of the subscriber is in two steps, because the server may
  notify it between them. The last section has \<^verbatim>\<open>outputs::String\<close>, which formats into a string of its own.
\<close>

section \<open>State\<close>

text \<open>
  A subscriber is \<open>Registered\<close> once the constructor of its base class has put it into the set of the server,
  \<open>Formatting\<close> once its own formatter is constructed and its virtual functions are its own, and \<open>Gone\<close> when it was
  destroyed. The virtual functions become its own just before the formatter, a reference to the stream, is set; the two
  are one step here, so that a message exactly between them, which would use a formatter that is not there yet, is not
  told from one just before. \<open>so_built\<close> says that the constructor of the service has returned.
\<close>

datatype out_phase = Absent | Registered | Formatting | Gone

record log_service =
  so_server :: server
  so_pointer :: bool
  so_out :: out_phase
  so_built :: bool
  so_cout :: ostream
  so_locked :: bool

section \<open>Operations\<close>

text \<open>Before its constructor ends, \<^verbatim>\<open>M_notifyMessageReceived\<close> of a subscriber is the pure virtual function of its base.\<close>

definition Ostream_notify ::
  "(message \<Rightarrow> ostream \<Rightarrow> ostream res) \<Rightarrow> out_phase \<Rightarrow> message \<Rightarrow> ostream \<Rightarrow> ostream res" where
  "Ostream_notify fmt ph m os = (case ph of Formatting \<Rightarrow> fmt m os | _ \<Rightarrow> Terminate)"

lemma Ostream_notify_phases:
  "Ostream_notify fmt Formatting = fmt" "Ostream_notify fmt Absent = (\<lambda>_ _. Terminate)"
  "Ostream_notify fmt Registered = (\<lambda>_ _. Terminate)" "Ostream_notify fmt Gone = (\<lambda>_ _. Terminate)"
  by (simp_all add: Ostream_notify_def fun_eq_iff)

fun notify_all :: "(message \<Rightarrow> ostream \<Rightarrow> ostream res) \<Rightarrow> message list \<Rightarrow> ostream \<Rightarrow> ostream res" where
  "notify_all f [] os = Ok os"
| "notify_all f (m # ms) os = obind (f m os) (notify_all f ms)"

text \<open>The members of \<^verbatim>\<open>LogService\<close> in their order: the server, the output, the mutex; then the body.\<close>

definition LogService_server :: "ostream \<Rightarrow> log_service" where
  "LogService_server cout =
     \<lparr>so_server = new_server, so_pointer = True, so_out = Absent, so_built = False, so_cout = cout, so_locked = False\<rparr>"

definition Ostream_base :: "log_service \<Rightarrow> log_service" where
  "Ostream_base s = s\<lparr>so_server := Subscriber 0 (so_server s), so_out := Registered\<rparr>"

definition Ostream_formatter :: "log_service \<Rightarrow> log_service" where
  "Ostream_formatter s = s\<lparr>so_out := Formatting\<rparr>"

definition LogService_body :: "log_service \<Rightarrow> log_service" where
  "LogService_body s = s\<lparr>so_locked := True, so_built := True\<rparr>"

definition LogService_run :: "log_service \<Rightarrow> log_service res" where
  "LogService_run s = (if so_locked s then Undef Relock_Mutex else Ok (s\<lparr>so_locked := True\<rparr>))"

definition LogService_restart :: "log_service \<Rightarrow> log_service" where
  "LogService_restart s = s"

text \<open>Deleting a null pointer does nothing.\<close>

definition LogService_stop :: "log_service \<Rightarrow> log_service res" where
  "LogService_stop s =
     (let s = (if so_pointer s then s\<lparr>so_server := Server_destroy (so_server s), so_pointer := False\<rparr> else s)
      in if so_locked s then Ok (s\<lparr>so_locked := False\<rparr>) else Undef Unlock_Free)"

text \<open>The destructor destroys the output; the server is left as it is.\<close>

definition LogService_dtor :: "log_service \<Rightarrow> log_service" where
  "LogService_dtor s = s\<lparr>so_server := Subscriber_destroy 0 (so_server s), so_out := Gone\<rparr>"

text \<open>
  An event of the server, in its I/O thread: what it gives to the subscriber is printed. An exception that leaves the
  formatter, like a call of a pure virtual function, ends the process.
\<close>

definition service_server ::
  "(string \<Rightarrow> message res) \<Rightarrow> (message \<Rightarrow> ostream \<Rightarrow> ostream res) \<Rightarrow> log_service \<Rightarrow> server_event \<Rightarrow> log_service option" where
  "service_server syn fmt s ev =
     (case server_step syn (so_server s) ev of None \<Rightarrow> None
      | Some t \<Rightarrow>
          let news = drop (length (sub_log (so_server s) 0)) (sub_log t 0)
          in Some (case notify_all (Ostream_notify fmt (so_out s)) news (so_cout s) of
               Ok os \<Rightarrow> s\<lparr>so_server := t, so_cout := os\<rparr>
             | _ \<Rightarrow> s\<lparr>so_server := t\<lparr>sv_fault := True\<rparr>\<rparr>))"

datatype service_event = SBase | SFormatter | SBody | SServer server_event | SRestart | SStop | SDelete

definition io_server_event :: "server_event \<Rightarrow> bool" where
  "io_server_event ev \<longleftrightarrow> (case ev of Subscribe i \<Rightarrow> False | Unsubscribe i \<Rightarrow> False | DestroyServer \<Rightarrow> False | _ \<Rightarrow> True)"

text \<open>
  The construction of the service, with the I/O thread of its server beside it, and the calls of \<^verbatim>\<open>daemonize\<close> and
  its signal handler. Undefined behaviour is a fault.
\<close>

definition service_step ::
  "(string \<Rightarrow> message res) \<Rightarrow> (message \<Rightarrow> ostream \<Rightarrow> ostream res) \<Rightarrow> log_service \<Rightarrow> service_event \<Rightarrow> log_service option" where
  "service_step syn fmt s e =
     (if sv_fault (so_server s) then None
      else case e of
        SBase \<Rightarrow> if sv_built (so_server s) \<and> so_out s = Absent then Some (Ostream_base s) else None
      | SFormatter \<Rightarrow> if so_out s = Registered then Some (Ostream_formatter s) else None
      | SBody \<Rightarrow> if so_out s = Formatting \<and> \<not> so_built s then Some (LogService_body s) else None
      | SServer ev \<Rightarrow> if io_server_event ev then service_server syn fmt s ev else None
      | SRestart \<Rightarrow> if so_out s = Formatting \<and> so_built s then Some (LogService_restart s) else None
      | SStop \<Rightarrow>
          if so_out s = Formatting \<and> so_built s
          then Some (case LogService_stop s of Ok t \<Rightarrow> t | _ \<Rightarrow> s\<lparr>so_server := (so_server s)\<lparr>sv_fault := True\<rparr>\<rparr>)
          else None
      | SDelete \<Rightarrow> if so_out s = Formatting \<and> so_built s then Some (LogService_dtor s) else None)"

section \<open>Printing is appending\<close>

text \<open>\<open>before t os\<close> is the stream with \<open>t\<close> in front of its text.\<close>

definition before :: "string \<Rightarrow> ostream \<Rightarrow> ostream" where
  "before t os = os\<lparr>os_text := t @ os_text os\<rparr>"

lemma before_put [simp]:
  "put s (before t os) = before t (put s os)" "put_left w s (before t os) = before t (put_left w s os)"
  "put_right w s (before t os) = before t (put_right w s os)" "set_fill c (before t os) = before t (set_fill c os)"
  "os_fill (before t os) = os_fill os" "os_text (before t os) = t @ os_text os"
  by (simp_all add: before_def put_def put_left_def put_right_def set_fill_def)

lemma plain_trace_before: "plain_trace H tr (before t os) = obind (plain_trace H tr os) (\<lambda>r. Ok (before t r))"
  by (cases "h_unhex H tr") (simp_all add: plain_trace_def Let_def)

lemma plain_light_before: "plain_light H ctime d m (before t os) = obind (plain_light H ctime d m os) (\<lambda>r. Ok (before t r))"
proof -
  have "plain_prefix ctime m (before t os) = before t (plain_prefix ctime m os)"
    by (simp add: plain_prefix_def Let_def)
  then show ?thesis
    by (cases "m_exception_info m")
      (simp_all add: plain_light_def plain_exception_def Let_def plain_trace_before obind_assoc)
qed

lemma plain_trace_fill: "plain_trace H tr os = Ok r \<Longrightarrow> os_fill r = os_fill os"
  by (auto simp: plain_trace_def Let_def outcome_simps split: if_splits)

lemma plain_light_fill: "plain_light H ctime d m os = Ok r \<Longrightarrow> os_fill r = CHR '' ''"
  by (cases "m_exception_info m")
    (auto simp: plain_light_def plain_exception_def plain_prefix_def Let_def outcome_simps dest!: plain_trace_fill)

lemma plain_light_prints:
  assumes "hex_codec H" and "case m_exception_info m of None \<Rightarrow> True | Some x \<Rightarrow> ei_trace x = [] \<or> (\<exists>t. h_unhex H (ei_trace x) = Ok t)"
  shows "\<exists>r. plain_light H ctime d m os = Ok r"
proof (cases "m_exception_info m")
  case None
  then show ?thesis by (simp add: plain_light_def Let_def)
next
  case (Some x)
  obtain os1 where "plain_exception H d x (plain_prefix ctime m os) = plain_trace H (ei_trace x) os1"
    using plain_exception_trace by blast
  then show ?thesis using Some assms(2) plain_trace_outcome [OF assms(1), of "ei_trace x" os1]
    by (auto simp: plain_light_def Let_def)
qed

text \<open>What a message looks like on a stream whose fill character is a space, as it is from the first message on.\<close>

definition blank_stream :: ostream where
  "blank_stream = \<lparr>os_text = [], os_fill = CHR '' ''\<rparr>"

definition rendered :: "(message \<Rightarrow> ostream \<Rightarrow> ostream res) \<Rightarrow> message \<Rightarrow> string" where
  "rendered fmt m = (case fmt m blank_stream of Ok os \<Rightarrow> os_text os | _ \<Rightarrow> [])"

lemma plain_light_rendered:
  assumes "plain_light H ctime d m blank_stream = Ok r" and "os_fill os = CHR '' ''"
  shows "plain_light H ctime d m os = Ok (put (rendered (plain_light H ctime d) m) os)"
proof -
  have os: "os = before (os_text os) blank_stream" using assms(2) by (cases os) (simp add: before_def blank_stream_def)
  have "plain_light H ctime d m os = Ok (before (os_text os) r)"
    by (subst os) (simp add: plain_light_before assms(1))
  moreover have "before (os_text os) r = put (rendered (plain_light H ctime d) m) os"
    using plain_light_fill [OF assms(1)] assms by (cases os; cases r) (simp add: before_def put_def rendered_def)
  ultimately show ?thesis by simp
qed

lemma notify_all_rendered:
  assumes "\<forall>m \<in> set ms. \<exists>r. plain_light H ctime d m blank_stream = Ok r" and "os_fill os = CHR '' ''"
  shows "notify_all (plain_light H ctime d) ms os =
         Ok (put (concat (map (rendered (plain_light H ctime d)) ms)) os)"
  using assms
proof (induction ms arbitrary: os)
  case Nil
  then show ?case by (cases os) (simp add: put_def)
next
  case (Cons m ms)
  then obtain r where "plain_light H ctime d m blank_stream = Ok r" by auto
  then show ?case using Cons plain_light_rendered [of H ctime d m r os]
    by (simp add: put_def)
qed

section \<open>A session feeds the service\<close>

lemma deliver_extends: "\<exists>x. sub_log (deliver syn ds s) j = sub_log s j @ x"
proof (induction ds arbitrary: s)
  case (Cons d ds)
  have "\<exists>y. sub_log (M_notifyMessageReceived syn d s) j = sub_log s j @ y"
    by (cases "syn d"; cases "j \<in> sv_subscribers s") (auto simp: M_notifyMessageReceived_def notify_def)
  then obtain y where y: "sub_log (M_notifyMessageReceived syn d s) j = sub_log s j @ y" ..
  obtain x where "sub_log (deliver syn ds (M_notifyMessageReceived syn d s)) j = sub_log (M_notifyMessageReceived syn d s) j @ x"
    using Cons.IH by blast
  then show ?case using y by (auto simp: Let_def)
qed auto

lemma session_step_extends:
  assumes "server_step syn s (SessionData i p) = Some t"
  shows "\<exists>x. sub_log t j = sub_log s j @ x"
proof -
  from assms obtain ses where t: "t = session_data syn i p ses s"
    by (auto simp: server_step.simps split: if_splits)
  obtain ds ses' where f: "feed ses p = (ds, ses')" by (cases "feed ses p")
  show ?thesis
    using deliver_extends [of syn ds "s\<lparr>sv_sessions := (sv_sessions s)(i \<mapsto> ses')\<rparr>" j]
    by (cases "ses' = Crashed") (simp_all add: t session_data_def f Let_def)
qed

lemma session_run_extends:
  "exec (server_step syn) s (map (SessionData i) ps) = Some t \<Longrightarrow> \<exists>x. sub_log t j = sub_log s j @ x"
proof (induction ps arbitrary: s)
  case (Cons p ps)
  then obtain u where u: "server_step syn s (SessionData i p) = Some u" "exec (server_step syn) u (map (SessionData i) ps) = Some t"
    by (auto split: option.splits)
  then show ?case using Cons.IH [OF u(2)] session_step_extends [OF u(1), of j] by auto
qed auto

lemma notify_all_append: "notify_all f (xs @ ys) os = obind (notify_all f xs os) (notify_all f ys)"
proof (induction xs arbitrary: os)
  case (Cons x xs)
  then show ?case by (cases "f x os") simp_all
qed simp

lemma service_session:
  assumes "exec (server_step syn) (so_server s) (map (SessionData i) ps) = Some t" and "\<not> sv_fault t"
    and "notify_all (Ostream_notify fmt (so_out s)) (drop (length (sub_log (so_server s) 0)) (sub_log t 0)) (so_cout s) = Ok os"
  shows "exec (service_step syn fmt) s (map (SServer \<circ> SessionData i) ps) = Some (s\<lparr>so_server := t, so_cout := os\<rparr>)"
  using assms
proof (induction ps arbitrary: s)
  case Nil
  then show ?case by simp
next
  case (Cons p ps)
  obtain u where u: "server_step syn (so_server s) (SessionData i p) = Some u"
      "exec (server_step syn) u (map (SessionData i) ps) = Some t"
    using Cons.prems(1) by (auto split: option.splits)
  obtain x y where x: "sub_log u 0 = sub_log (so_server s) 0 @ x" and y: "sub_log t 0 = sub_log u 0 @ y"
    using session_step_extends [OF u(1)] session_run_extends [OF u(2)] by blast
  obtain os1 where os1: "notify_all (Ostream_notify fmt (so_out s)) x (so_cout s) = Ok os1"
      "notify_all (Ostream_notify fmt (so_out s)) y os1 = Ok os"
    using Cons.prems(3) x y by (auto simp: notify_all_append outcome_simps)
  have "service_step syn fmt s (SServer (SessionData i p)) = Some (s\<lparr>so_server := u, so_cout := os1\<rparr>)"
    using u(1) x os1(1)
    by (auto simp: service_step_def io_server_event_def service_server_def server_step.simps split: if_splits)
  then show ?case
    using Cons.IH [of "s\<lparr>so_server := u, so_cout := os1\<rparr>"] u(2) Cons.prems(2) os1(2) x y by simp
qed

section \<open>The console follows the subscriber\<close>

lemma rendered_before:
  assumes "plain_light H ctime d m os = Ok os'" and "os_fill os = CHR '' ''"
  shows "os' = put (rendered (plain_light H ctime d) m) os"
proof -
  have os: "os = before (os_text os) blank_stream" using assms(2) by (cases os) (simp add: before_def blank_stream_def)
  obtain r where r: "plain_light H ctime d m blank_stream = Ok r"
    using assms(1) by (subst (asm) os) (auto simp: plain_light_before outcome_simps)
  from plain_light_rendered [OF this assms(2)] assms(1) show ?thesis by simp
qed

lemma put_twice [simp]: "put t (put s os) = put (s @ t) os"
  by (simp add: put_def)

lemma notify_all_console:
  "notify_all (plain_light H ctime d) ms os = Ok os' \<Longrightarrow> os_fill os = CHR '' '' \<Longrightarrow>
   os' = put (concat (map (rendered (plain_light H ctime d)) ms)) os"
proof (induction ms arbitrary: os)
  case Nil
  then show ?case by (cases os) (simp add: put_def)
next
  case (Cons m ms)
  then obtain o1 where o1: "plain_light H ctime d m os = Ok o1" "notify_all (plain_light H ctime d) ms o1 = Ok os'"
    by (auto simp: outcome_simps)
  with Cons.IH [OF o1(2)] rendered_before [OF o1(1) Cons.prems(2)] Cons.prems(2) show ?case by simp
qed

lemma deliver_logs: "j \<notin> sv_subscribers s \<Longrightarrow> sub_log (deliver syn ds s) j = sub_log s j"
proof (induction ds arbitrary: s)
  case (Cons d ds)
  then show ?case by (cases "syn d") (auto simp: M_notifyMessageReceived_def notify_def Let_def)
qed simp

lemma io_event_logs:
  assumes "server_step syn s ev = Some t" and "io_server_event ev"
  shows "\<exists>x. sub_log t j = sub_log s j @ x" and "j \<notin> sv_subscribers s \<Longrightarrow> sub_log t j = sub_log s j"
proof -
  have other: "sub_log t = sub_log s" if "\<And>i p. ev \<noteq> SessionData i p"
    using assms that
    by (cases ev) (auto simp: server_step.simps io_server_event_def M_ioThread_def M_doAccept_def session_start_def
        accept_handler_def accept_error_handler_def session_error_def after_handler_def split: if_splits)
  show "\<exists>x. sub_log t j = sub_log s j @ x"
  proof (cases "\<exists>i p. ev = SessionData i p")
    case True
    then show ?thesis using assms(1) session_step_extends by blast
  next
    case False
    with other show ?thesis by auto
  qed
  show "sub_log t j = sub_log s j" if "j \<notin> sv_subscribers s"
  proof (cases "\<exists>i p. ev = SessionData i p")
    case True
    then obtain i p ses where t: "t = session_data syn i p ses s"
      using assms(1) by (auto simp: server_step.simps split: if_splits)
    show ?thesis using that
      by (auto simp: t session_data_def Let_def deliver_logs split: prod.splits)
  next
    case False
    with other show ?thesis by auto
  qed
qed

lemma io_event_frame:
  assumes "server_step syn s ev = Some t" and "io_server_event ev"
  shows "sub_server t = sub_server s" and "sv_subscribers t = sv_subscribers s" and "sv_alive t = sv_alive s"
proof -
  have "\<And>i. ev \<noteq> Subscribe i" "\<And>i. ev \<noteq> Unsubscribe i" "ev \<noteq> DestroyServer"
    using assms(2) by (auto simp: io_server_event_def)
  from server_step_frame [OF assms(1) this] show "sub_server t = sub_server s"
    "sv_subscribers t = sv_subscribers s" "sv_alive t = sv_alive s" .
qed

text \<open>
  The invariant: the server keeps its own, the subscriber is in its set only while it exists, and what stands on the
  stream is what the formatter makes of the messages the subscriber was given.
\<close>

definition service_inv :: "(message \<Rightarrow> ostream \<Rightarrow> ostream res) \<Rightarrow> ostream \<Rightarrow> log_service \<Rightarrow> bool" where
  "service_inv fmt cout s \<longleftrightarrow>
     sv_fault (so_server s) \<or>
     server_inv (so_server s) \<and>
     (so_out s \<in> {Absent, Gone} \<longrightarrow> 0 \<notin> sv_subscribers (so_server s)) \<and>
     (so_out s \<in> {Absent, Registered} \<longrightarrow> sub_log (so_server s) 0 = []) \<and>
     (so_pointer s \<longleftrightarrow> sv_alive (so_server s)) \<and>
     (so_out s = Absent \<longrightarrow> so_pointer s) \<and>
     notify_all fmt (sub_log (so_server s) 0) cout = Ok (so_cout s)"

lemma service_inv_start: "service_inv fmt cout (LogService_server cout)"
  by (simp add: service_inv_def LogService_server_def server_inv_new) (simp add: new_server_def)

lemma service_inv_server:
  assumes inv: "service_inv fmt cout s" and ok: "\<not> sv_fault (so_server s)" and io: "io_server_event ev"
    and st: "service_server syn fmt s ev = Some t"
  shows "service_inv fmt cout t"
proof -
  from st obtain v where v: "server_step syn (so_server s) ev = Some v"
    by (auto simp: service_server_def split: option.splits)
  obtain x where x: "sub_log v 0 = sub_log (so_server s) 0 @ x" using io_event_logs(1) [OF v io] by blast
  note frame = io_event_frame [OF v io]
  have quiet: "x = []" if "0 \<notin> sv_subscribers (so_server s)" using io_event_logs(2) [OF v io that] x by simp
  have notify: "notify_all fmt x os = notify_all (Ostream_notify fmt (so_out s)) x os"
    if "notify_all (Ostream_notify fmt (so_out s)) x os = Ok o1" for os o1
    using that by (cases "so_out s"; cases x) (auto simp: Ostream_notify_phases)
  have half: "x = []" if "so_out s \<noteq> Formatting" "notify_all (Ostream_notify fmt (so_out s)) x os = Ok o1" for os o1
    using that by (cases "so_out s"; cases x) (auto simp: Ostream_notify_phases)
  have t: "t = (case notify_all (Ostream_notify fmt (so_out s)) x (so_cout s) of
      Ok os \<Rightarrow> s\<lparr>so_server := v, so_cout := os\<rparr> | _ \<Rightarrow> s\<lparr>so_server := v\<lparr>sv_fault := True\<rparr>\<rparr>)"
    using st v x by (simp add: service_server_def)
  show ?thesis
  proof (cases "notify_all (Ostream_notify fmt (so_out s)) x (so_cout s)")
    case (Ok os)
    have inv': "server_inv v" "\<not> sv_fault (so_server s)" using inv ok server_inv_step [OF _ v] by (auto simp: service_inv_def)
    have "notify_all fmt (sub_log v 0) cout = Ok os"
      using inv ok notify [OF Ok] Ok x by (simp add: service_inv_def notify_all_append)
    then show ?thesis
      using inv ok inv' frame half [OF _ Ok] x by (auto simp: t Ok service_inv_def)
  qed (simp_all add: t service_inv_def)
qed

lemma service_inv_Subscriber:
  assumes "service_inv fmt cout s" and "so_out s = Absent"
  shows "service_inv fmt cout (Ostream_base s)"
  using assms server_inv_Subscriber [of "so_server s" 0]
  by (auto simp: service_inv_def Ostream_base_def) (auto simp: Subscriber_def)

lemma service_inv_stop:
  assumes "service_inv fmt cout s" and "so_out s = Formatting" and "LogService_stop s = Ok t"
  shows "service_inv fmt cout t"
  using assms server_inv_Server_destroy [of "so_server s"]
  by (auto simp: service_inv_def LogService_stop_def Let_def split: if_splits) (auto simp: Server_destroy_def)

lemma service_inv_delete:
  assumes "service_inv fmt cout s" and "so_out s = Formatting"
  shows "service_inv fmt cout (LogService_dtor s)"
  using assms server_inv_Subscriber_destroy [of "so_server s" 0]
  by (auto simp: service_inv_def LogService_dtor_def) (auto simp: Subscriber_destroy_def server_inv_def Let_def split: if_splits)

lemma service_inv_construct:
  "service_inv fmt cout (LogService_body s) = service_inv fmt cout s"
  "service_inv fmt cout s \<Longrightarrow> so_out s = Registered \<Longrightarrow> service_inv fmt cout (Ostream_formatter s)"
  by (auto simp: service_inv_def LogService_body_def Ostream_formatter_def)

lemma service_inv_step:
  assumes inv: "service_inv fmt cout s" and st: "service_step syn fmt s e = Some t"
  shows "service_inv fmt cout t"
proof (cases e)
  case SStop
  then show ?thesis using inv st service_inv_stop [OF inv]
    by (cases "LogService_stop s") (auto simp: service_step_def service_inv_def split: if_splits)
next
  case SBody
  then show ?thesis using inv st by (auto simp: service_step_def service_inv_construct split: if_splits)
next
  case SFormatter
  then show ?thesis using inv st service_inv_construct(2) [OF inv] by (simp add: service_step_def split: if_splits)
next
  case (SServer ev)
  then show ?thesis using st service_inv_server [OF inv] by (simp add: service_step_def split: if_splits)
next
  case SBase
  then show ?thesis using st service_inv_Subscriber [OF inv] by (auto simp: service_step_def split: if_splits)
next
  case SRestart
  then show ?thesis using inv st by (simp add: service_step_def LogService_restart_def split: if_splits)
next
  case SDelete
  then show ?thesis using st service_inv_delete [OF inv] by (auto simp: service_step_def split: if_splits)
qed

interpretation service: event_machine "service_step syn fmt" "service_inv fmt cout"
  by unfold_locales (rule service_inv_step)

section \<open>Properties\<close>

text \<open>
  C5. The console of the log server: after any run of the service, from the construction of its server over the
  construction of its output to its end, unless the process ended, the standard output holds what it held before
  and then, for each message the subscriber was given, in order, what \<^verbatim>\<open>plain_light\<close> makes of it, and nothing else;
  the subscriber is in the set of the server only while it exists.
\<close>

theorem service_console:
  assumes run: "exec (service_step syn (plain_light H ctime d)) (LogService_server cout) es = Some s"
    and fill: "os_fill cout = CHR '' ''" and ok: "\<not> sv_fault (so_server s)"
  shows "so_cout s = put (concat (map (rendered (plain_light H ctime d)) (sub_log (so_server s) 0))) cout \<and>
         (so_out s = Registered \<or> so_out s = Formatting \<or> 0 \<notin> sv_subscribers (so_server s))"
proof -
  have inv: "service_inv (plain_light H ctime d) cout s"
    using service_inv_start run by (rule service.exec_keeps)
  then have "notify_all (plain_light H ctime d) (sub_log (so_server s) 0) cout = Ok (so_cout s)"
    using ok by (simp add: service_inv_def)
  from notify_all_console [OF this fill] inv ok show ?thesis
    by (cases "so_out s") (auto simp: service_inv_def)
qed

lemma demo_feed: "feed new_session ''00000001x'' = ([''x''], Waiting Header [])"
proof -
  have "frame ''x'' = Ok ''00000001x''" by (simp add: frame_Ok_iff header_text_small HeaderSize_def)
  then show ?thesis
    using wire.dec_frame [of "''x''" "''00000001x''" "[]"] by (simp add: feed_new drain.simps HeaderSize_def)
qed

definition text_message :: "string \<Rightarrow> message" where
  "text_message x = Message 0 0 empty_msg_build_info empty_process_info x"

lemmas service_run_simps =
  service_step_def service_server_def io_server_event_def LogService_server_def Ostream_base_def Ostream_formatter_def LogService_body_def
  LogService_stop_def LogService_dtor_def Ostream_notify_phases server_step.simps new_server_def server_defs
  demo_feed Let_def

lemma demo_service:
  assumes "fmt (text_message ''x'') cout = Ok os"
  shows "\<exists>s. exec (service_step (\<lambda>x. Ok (text_message x)) fmt) (LogService_server cout)
        [SServer ConstructorAccepts, SServer IoThreadRuns, SBase, SFormatter, SBody, SServer (Accepted 7),
         SServer (SessionData 7 ''00000001x''), SStop, SDelete] = Some s \<and>
      \<not> sv_fault (so_server s) \<and> sub_log (so_server s) 0 = [text_message ''x'']"
  using assms by (simp add: service_run_simps)

theorem service_console_witness:
  "\<exists>s. exec (service_step (\<lambda>x. Ok (text_message x))
          (plain_light ref_hex_lib (\<lambda>_. ''now'' @ [nl]) (\<lambda>_. None))) (LogService_server blank_stream)
        [SServer ConstructorAccepts, SServer IoThreadRuns, SBase, SFormatter, SBody, SServer (Accepted 7),
         SServer (SessionData 7 ''00000001x''), SStop, SDelete] = Some s \<and>
      so_cout s = put (rendered (plain_light ref_hex_lib (\<lambda>_. ''now'' @ [nl]) (\<lambda>_. None))
        (text_message ''x'')) blank_stream"
proof -
  let ?fmt = "plain_light ref_hex_lib (\<lambda>_. ''now'' @ [nl]) (\<lambda>_. None)"
  let ?syn = "\<lambda>x. Ok (text_message x)"
  let ?es = "[SServer ConstructorAccepts, SServer IoThreadRuns, SBase, SFormatter, SBody, SServer (Accepted 7),
         SServer (SessionData 7 ''00000001x''), SStop, SDelete]"
  obtain os where "?fmt (text_message ''x'') blank_stream = Ok os"
    by (simp add: plain_light_def text_message_def Message_def Let_def)
  from demo_service [of ?fmt, OF this]
  obtain s where s: "exec (service_step ?syn ?fmt) (LogService_server blank_stream) ?es = Some s"
      "\<not> sv_fault (so_server s)" "sub_log (so_server s) 0 = [text_message ''x'']"
    by (elim exE conjE)
  have "os_fill blank_stream = CHR '' ''" by (simp add: blank_stream_def)
  from service_console [OF s(1) this s(2)] s(1,3) show ?thesis by auto
qed

text \<open>
  C6. A client that connects while the service is being constructed can end it: between the constructor of
  \<^verbatim>\<open>Subscriber\<close>, which registers the output, and the end of that of \<^verbatim>\<open>Ostream\<close>, the first message that arrives is
  given to a pure virtual function. After the construction the same bytes are printed, or are left to the
  formatter to refuse.
\<close>

theorem half_built_output:
  assumes "exec (service_step syn fmt) (LogService_server cout) es = Some s" and "so_out s = Registered"
    and "server_step syn (so_server s) (SessionData i bytes) = Some v" and "sub_log v 0 \<noteq> []" and "\<not> sv_fault v"
  shows "\<exists>t. service_step syn fmt s (SServer (SessionData i bytes)) = Some t \<and> sv_fault (so_server t) \<and>
     (service_step syn fmt (Ostream_formatter s) (SServer (SessionData i bytes)) =
        Some (case notify_all fmt (sub_log v 0) cout of
            Ok os \<Rightarrow> (Ostream_formatter s)\<lparr>so_server := v, so_cout := os\<rparr>
          | _ \<Rightarrow> (Ostream_formatter s)\<lparr>so_server := v\<lparr>sv_fault := True\<rparr>\<rparr>))"
proof -
  have ok: "\<not> sv_fault (so_server s)" using assms(3) by (auto simp: server_step.simps)
  have "service_inv fmt cout s" using service_inv_start assms(1) by (rule service.exec_keeps)
  then have log: "sub_log (so_server s) 0 = []" "so_cout s = cout"
    using assms(2) ok by (auto simp: service_inv_def)
  obtain m ms where ms: "sub_log v 0 = m # ms" using assms(4) by (cases "sub_log v 0") auto
  have io: "io_server_event (SessionData i bytes)" by (simp add: io_server_event_def)
  have out: "so_out (Ostream_formatter s) = Formatting" "so_server (Ostream_formatter s) = so_server s"
    "so_cout (Ostream_formatter s) = so_cout s"
    by (simp_all add: Ostream_formatter_def)
  show ?thesis using ok io assms(2,3) log
    by (simp add: service_step_def service_server_def out Ostream_notify_phases ms)
qed

theorem half_built_output_witness:
  "\<exists>s t. exec (service_step (\<lambda>x. Ok (text_message x)) (\<lambda>m os. Ok os))
        (LogService_server blank_stream)
        [SServer ConstructorAccepts, SServer IoThreadRuns, SServer (Accepted 7), SBase] = Some s \<and>
      service_step (\<lambda>x. Ok (text_message x)) (\<lambda>m os. Ok os) s
        (SServer (SessionData 7 ''00000001x'')) = Some t \<and> sv_fault (so_server t)"
proof -
  let ?syn = "\<lambda>x. Ok (text_message x)"
  let ?fmt = "(\<lambda>m os. Ok os) :: message \<Rightarrow> ostream \<Rightarrow> ostream res"
  let ?es = "[SServer ConstructorAccepts, SServer IoThreadRuns, SServer (Accepted 7), SBase]"
  obtain s v where s: "exec (service_step ?syn ?fmt) (LogService_server blank_stream) ?es = Some s"
      "so_out s = Registered" "server_step ?syn (so_server s) (SessionData 7 ''00000001x'') = Some v"
      "sub_log v 0 \<noteq> []" "\<not> sv_fault v"
    by (simp add: service_run_simps)
  from half_built_output [OF s] s(1) show ?thesis by blast
qed

text \<open>
  The mutex of the service is not a way to wait: \<^verbatim>\<open>run\<close> locks it again in the thread that constructed the service,
  and a second \<^verbatim>\<open>stop\<close>, for a second signal, unlocks it when nobody holds it. One \<^verbatim>\<open>stop\<close> and the deletion are in
  order, and no subscriber is left pointing at the deleted server.
\<close>

theorem service_mutex:
  assumes "exec (service_step syn fmt) (LogService_server cout) es = Some s" and "\<not> sv_fault (so_server s)"
    and "so_out s = Formatting" and "so_locked s"
  shows "LogService_run s = Undef Relock_Mutex \<and>
     (\<exists>t. LogService_stop s = Ok t \<and> LogService_stop t = Undef Unlock_Free \<and> \<not> sv_alive (so_server t) \<and>
        sub_server (so_server t) 0 \<noteq> Some True \<and> sub_server (so_server (LogService_dtor t)) 0 = None)"
proof -
  have inv: "service_inv fmt cout s" using service_inv_start assms(1) by (rule service.exec_keeps)
  obtain t where t: "LogService_stop s = Ok t" using assms(4) by (cases "so_pointer s") (simp_all add: LogService_stop_def)
  have "\<not> so_pointer t" "\<not> so_locked t"
    using t assms(4) by (auto simp: LogService_stop_def Let_def split: if_splits)
  moreover have "\<not> sv_alive (so_server t)" "server_inv (so_server t)"
  proof -
    have "sv_fault (so_server t) = sv_fault (so_server s)"
      using t by (cases "so_pointer s"; cases "so_locked s") (simp_all add: LogService_stop_def Server_destroy_def, auto)
    moreover have "service_inv fmt cout t" using inv assms(3) t by (rule service_inv_stop)
    ultimately show "\<not> sv_alive (so_server t)" "server_inv (so_server t)"
      using assms(2) \<open>\<not> so_pointer t\<close> by (simp_all add: service_inv_def)
  qed
  moreover have "sub_server (so_server (LogService_dtor t)) 0 = None"
    by (simp add: LogService_dtor_def Subscriber_destroy_def Let_def)
  moreover have "LogService_run s = Undef Relock_Mutex" using assms(4) by (simp add: LogService_run_def)
  moreover from calculation have "LogService_stop t = Undef Unlock_Free" "sub_server (so_server t) 0 \<noteq> Some True"
    by (simp add: LogService_stop_def) (use calculation in \<open>auto simp: server_inv_def\<close>)
  ultimately show ?thesis using t by blast
qed

section \<open>A stream of messages\<close>

text \<open>The service prints, in order, what a session of its server takes from the wire.\<close>

lemma service_prints:
  assumes run: "exec (server_step syn) (so_server s) (map (SessionData i) ps) = Some t" and "\<not> sv_fault t"
    and log: "sub_log t 0 = sub_log (so_server s) 0 @ ms" and out: "so_out s = Formatting"
    and fmt: "\<forall>m \<in> set ms. \<exists>r. plain_light H ctime d m blank_stream = Ok r" and fill: "os_fill (so_cout s) = CHR '' ''"
  shows "exec (service_step syn (plain_light H ctime d)) s (map (SServer \<circ> SessionData i) ps) =
     Some (s\<lparr>so_server := t, so_cout := put (concat (map (rendered (plain_light H ctime d)) ms)) (so_cout s)\<rparr>)"
  using service_session [OF run assms(2)] notify_all_rendered [OF fmt fill] log out
  by (simp add: Ostream_notify_phases)

section \<open>The other output\<close>

text \<open>\<^verbatim>\<open>outputs::String\<close>: the same subscriber on a string stream of its own, which can be read as a string.\<close>

definition String_stream :: ostream where
  "String_stream = blank_stream"

definition String_notify ::
  "(message \<Rightarrow> ostream \<Rightarrow> ostream res) \<Rightarrow> out_phase \<Rightarrow> message \<Rightarrow> ostream \<Rightarrow> ostream res" where
  "String_notify fmt ph m ss = (case ph of Formatting \<Rightarrow> fmt m ss | _ \<Rightarrow> Terminate)"

definition String_string :: "ostream \<Rightarrow> string" where
  "String_string ss = os_text ss"

lemma notify_all_before:
  "notify_all (plain_light H ctime d) ms (before t os) = obind (notify_all (plain_light H ctime d) ms os) (\<lambda>r. Ok (before t r))"
proof (induction ms arbitrary: os)
  case (Cons m ms)
  then show ?case by (cases "plain_light H ctime d m os") (simp_all add: plain_light_before)
qed simp

text \<open>It holds what the output on a stream appends to it for the same messages.\<close>

theorem string_collects:
  assumes "os_fill os = CHR '' ''"
  shows "notify_all (Ostream_notify (plain_light H ctime d) Formatting) ms os =
     obind (notify_all (String_notify (plain_light H ctime d) Formatting) ms String_stream)
       (\<lambda>ss. Ok (os\<lparr>os_text := os_text os @ String_string ss, os_fill := os_fill ss\<rparr>))"
proof -
  let ?fmt = "plain_light H ctime d"
  have os: "before (os_text os) blank_stream = os" using assms by (cases os) (simp add: before_def blank_stream_def)
  have app: "before (os_text os) r = os\<lparr>os_text := os_text os @ String_string r, os_fill := os_fill r\<rparr>" for r
    by (cases r; cases os) (simp add: before_def String_string_def)
  have "String_notify ?fmt Formatting = ?fmt" by (simp add: String_notify_def fun_eq_iff)
  moreover have "notify_all ?fmt ms os = obind (notify_all ?fmt ms blank_stream) (\<lambda>r. Ok (before (os_text os) r))"
    using notify_all_before [of H ctime d ms "os_text os" blank_stream] by (simp only: os)
  ultimately show ?thesis by (simp only: Ostream_notify_phases String_stream_def app)
qed

end
