(* ===== verification/Log_Logger.thy ===== *)
theory Log_Logger
  imports Log_Client Log_Message
begin

text \<open>
  \<^verbatim>\<open>log::Logger\<close> (\<^verbatim>\<open>inc/lesf/log/logger.h\<close>, \<^verbatim>\<open>src/log/logger.cpp\<close>) with the \<^verbatim>\<open>LESF_LOG\<close> macros: the process wide
  instance, its mutex, the client it sends through and the file it falls back to. The file system is a map
  from names to contents; what the environment decides (whether a file opens, whether an allocation in
  \<^verbatim>\<open>send\<close> throws, the clock) is a parameter of the operation concerned.
\<close>

section \<open>State\<close>

definition ServerPort :: "16 word" where
  "ServerPort = 50001"

text \<open>\<open>lg_open\<close> says whether the stream \<^verbatim>\<open>m_fallback\<close> could be opened: writing to one that is not does nothing.\<close>

record logger =
  lg_port :: "16 word"
  lg_argc :: cint
  lg_argv :: "cstr list option"
  lg_pid :: cint
  lg_remote :: "client option"
  lg_fallback_fn :: string
  lg_open :: bool

text \<open>
  \<open>ls_inst\<close> is \<^verbatim>\<open>m_inst\<close>; \<open>ls_freed\<close> says that it dangles, because \<^verbatim>\<open>AutoDeleter\<close> does not reset it.
  \<open>ls_leaked\<close> keeps the instances a repeated \<^verbatim>\<open>init\<close> lost.
\<close>

record logger_state =
  ls_locked :: bool
  ls_inst :: "logger option"
  ls_freed :: bool
  ls_leaked :: "logger list"
  ls_files :: "string \<Rightarrow> string option"

definition logger_start :: "(string \<Rightarrow> string option) \<Rightarrow> logger_state" where
  "logger_start files =
     \<lparr>ls_locked = False, ls_inst = None, ls_freed = False, ls_leaked = [], ls_files = files\<rparr>"

record 'n log_env =
  le_json :: "'n json_lib"
  le_hex :: hex_lib
  le_rtti :: "cpp_exc \<Rightarrow> string"
  le_show_trace :: "stacktrace \<Rightarrow> string"
  le_build :: throw_env
  le_pid :: cint
  le_can_open :: "string \<Rightarrow> bool"

definition FallbackLogFilePrefix :: "'n log_env \<Rightarrow> string" where
  "FallbackLogFilePrefix E = ''/var/log/'' @ te_program (le_build E) @ ''.fallback.log.''"

section \<open>The mutex and the fallback file\<close>

text \<open>Locking a \<^verbatim>\<open>std::mutex\<close> that the calling thread already owns is undefined behaviour.\<close>

definition lock_mutex :: "logger_state \<Rightarrow> logger_state res" where
  "lock_mutex s = (if ls_locked s then Undef Relock_Mutex else Ok (s\<lparr>ls_locked := True\<rparr>))"

definition unlock_mutex :: "logger_state \<Rightarrow> logger_state" where
  "unlock_mutex s = s\<lparr>ls_locked := False\<rparr>"

definition endl :: string where
  "endl = [CHR 0x0A]"

text \<open>The stream appends; what is written to a file that was removed meanwhile is lost with it.\<close>

definition fallback_write :: "logger \<Rightarrow> string \<Rightarrow> logger_state \<Rightarrow> logger_state" where
  "fallback_write g txt s =
     (if lg_open g
      then s\<lparr>ls_files := (ls_files s)(lg_fallback_fn g := map_option (\<lambda>old. old @ txt) (ls_files s (lg_fallback_fn g)))\<rparr>
      else s)"

definition init_failed_text :: "'n log_env \<Rightarrow> cpp_exc \<Rightarrow> string" where
  "init_failed_text E e =
     ''Failed to create remote client due to active exception ('' @ le_rtti E e @ ''): '' @ what e @ endl @
     ''Falling back to raw file logging.'' @ endl @ endl"

definition send_failed_text :: "'n log_env \<Rightarrow> cpp_exc \<Rightarrow> string \<Rightarrow> string" where
  "send_failed_text E e x =
     ''Failed to send log message due to active exception ('' @ le_rtti E e @ '') : '' @ what e @ ''.'' @ endl @
     ''Serialized message follows :'' @ endl @ x @ endl @ endl"

definition no_remote_text :: "string \<Rightarrow> string" where
  "no_remote_text x =
     ''Failed to send log message (no remote client).'' @ endl @ ''Serialized message follows :'' @ endl @
     x @ endl @ endl"

definition construct_failed_text :: "'n log_env \<Rightarrow> cpp_exc \<Rightarrow> string \<Rightarrow> string \<Rightarrow> string" where
  "construct_failed_text E e ty fmt =
     ''Failed to construct log message due to active exception ('' @ le_rtti E e @ '') : '' @ what e @ ''.'' @ endl @
     ''msg_type: '' @ ty @ endl @ ''msg_fmt:  '' @ fmt @ endl @ endl"

section \<open>Construction\<close>

text \<open>Opening for output in append mode creates the file when it does not exist.\<close>

definition Logger_ctor ::
  "'n log_env \<Rightarrow> cint \<Rightarrow> cstr list option \<Rightarrow> 16 word \<Rightarrow> string \<Rightarrow> logger_state \<Rightarrow> logger \<times> logger_state" where
  "Logger_ctor E argc argv port prefix s =
     (let fn = prefix @ int_dec (sint (le_pid E));
          opens = le_can_open E fn
      in (\<lparr>lg_port = port, lg_argc = argc, lg_argv = argv, lg_pid = le_pid E, lg_remote = None,
           lg_fallback_fn = fn, lg_open = opens\<rparr>,
          if opens \<and> ls_files s fn = None then s\<lparr>ls_files := (ls_files s)(fn \<mapsto> [])\<rparr> else s))"

text \<open>Assigning \<^verbatim>\<open>m_inst\<close> loses the instance it pointed to.\<close>

definition set_inst :: "logger \<Rightarrow> logger_state \<Rightarrow> logger_state" where
  "set_inst g s =
     s\<lparr>ls_inst := Some g, ls_freed := False,
       ls_leaked := ls_leaked s @ (if ls_freed s then [] else case ls_inst s of None \<Rightarrow> [] | Some h \<Rightarrow> [h])\<rparr>"

definition Logger_init ::
  "'n log_env \<Rightarrow> bool \<Rightarrow> cint \<Rightarrow> cstr list option \<Rightarrow> 16 word \<Rightarrow> string \<Rightarrow> logger_state \<Rightarrow> logger_state res" where
  "Logger_init E resolves argc argv port prefix s =
     no_except (obind (lock_mutex s) (\<lambda>s.
       let (g, s) = Logger_ctor E argc argv port prefix s;
           s = set_inst g s
       in obind (try_catch
            (obind (new_client resolves) (\<lambda>c. Ok (s\<lparr>ls_inst := Some (g\<lparr>lg_remote := Some c\<rparr>)\<rparr>)))
            (\<lambda>_. True)
            (\<lambda>e. Ok (fallback_write g (init_failed_text E e) s)))
          (\<lambda>s. Ok (unlock_mutex s))))"

section \<open>Building a message\<close>

definition the_inst :: "logger_state \<Rightarrow> logger res" where
  "the_inst s = (if ls_freed s then Undef Use_After_Free else deref (ls_inst s))"

text \<open>\<^verbatim>\<open>m_argv[0]\<close> is read when \<^verbatim>\<open>m_argc\<close> is not zero, and copied into a string.\<close>

definition process_info_of :: "logger \<Rightarrow> process_info res" where
  "process_info_of g =
     (case lg_argv g of None \<Rightarrow> Ok empty_process_info
      | Some vs \<Rightarrow>
          if lg_argc g = 0 then Ok \<lparr>pi_process = ''<no argv[0]>'', pi_pid = lg_pid g\<rparr>
          else (case vs of [] \<Rightarrow> Undef Buffer_Overflow
                | v # _ \<Rightarrow> obind (deref v) (\<lambda>p. Ok \<lparr>pi_process = p, pi_pid = lg_pid g\<rparr>)))"

definition getProcessInfo :: "logger_state \<Rightarrow> process_info res" where
  "getProcessInfo s = (if ls_inst s = None then Ok empty_process_info else obind (the_inst s) process_info_of)"

definition log_build_info :: "throw_env \<Rightarrow> site \<Rightarrow> msg_build_info" where
  "log_build_info B st =
     \<lparr>mb_file = st_file st, mb_line = st_line st, mb_function = st_function st, mb_build_date = te_date B,
      mb_build_time = te_time B, mb_user_build_id = te_build_id B, mb_user_program = te_program B,
      mb_user_version = te_version B\<rparr>"

text \<open>The enumerator's name, \<^verbatim>\<open>#type\<close> in the macros.\<close>

fun type_name :: "msg_type \<Rightarrow> string" where
  "type_name Unknown = ''Unknown''"
| "type_name Crash = ''Crash''"
| "type_name Error = ''Error''"
| "type_name Warning = ''Warning''"
| "type_name Info = ''Info''"
| "type_name Trace = ''Trace''"

text \<open>
  A use of a macro: the severity, where it stands, the stream expression and its source text, and the
  exception for the \<^verbatim>\<open>WITH_EXCEPT\<close> variants.
\<close>

record log_site =
  lo_type :: msg_type
  lo_site :: site
  lo_pieces :: "string res list"
  lo_fmt :: string
  lo_exc :: "exc option"

text \<open>The arguments of \<^verbatim>\<open>Message\<close> in the macros, from the process information on.\<close>

definition build_message :: "'n log_env \<Rightarrow> int64 \<Rightarrow> log_site \<Rightarrow> process_info res \<Rightarrow> message res" where
  "build_message E now l pinfo =
     obind pinfo (\<lambda>pi. obind (info_string [] (lo_pieces l)) (\<lambda>txt.
       let ty = type_code (lo_type l); bi = log_build_info (le_build E) (lo_site l) in
       case lo_exc l of
         None \<Rightarrow> Ok (Message now ty bi pi txt)
       | Some e \<Rightarrow> Message_exception (le_hex E) (\<lambda>c. le_rtti E (CoreExc e)) (le_show_trace E) now ty bi pi txt e))"

section \<open>Logging\<close>

text \<open>
  The two overloads of \<^verbatim>\<open>log\<close>. The option is what the posting inside \<^verbatim>\<open>send\<close> throws, if it does; the header is
  written before that.
\<close>

datatype log_request = LogMessage message "cpp_exc option" | LogException cpp_exc string string

text \<open>
  \<^verbatim>\<open>LESF_LOG\<close> and \<^verbatim>\<open>LESF_LOG_WITH_EXCEPT\<close> with \<^verbatim>\<open>Logger::log\<close> as a parameter, because \<^verbatim>\<open>log\<close> itself uses them.
\<close>

definition LESF_LOG ::
  "(log_request \<Rightarrow> logger_state \<Rightarrow> logger_state res) \<Rightarrow> 'n log_env \<Rightarrow> int64 \<Rightarrow> cpp_exc option \<Rightarrow>
   log_site \<Rightarrow> logger_state \<Rightarrow> logger_state res" where
  "LESF_LOG log E now raised l s =
     try_catch
       (obind (build_message E now l (getProcessInfo s)) (\<lambda>m. log (LogMessage m raised) s))
       (\<lambda>_. True)
       (\<lambda>e. log (LogException e (type_name (lo_type l)) (lo_fmt l)) s)"

text \<open>The format is two string literals side by side; \<^verbatim>\<open>#fmt\<close> keeps their quotes and one blank between them.\<close>

definition not_initialised :: log_site where
  "not_initialised =
     (let called = ''lesf::Logger::log() called before lesf::log::Logger::init(), '';
          starting = ''starting log client with default parameters and no process information.'';
          quote = CHR 0x22
      in \<lparr>lo_type = Warning,
          lo_site = \<lparr>st_file = ''src/log/logger.cpp'', st_line = 153, st_function = ''M_maybeInstanciate''\<rparr>,
          lo_pieces = [Ok (called @ starting)],
          lo_fmt = [quote] @ called @ [quote, CHR '' '', quote] @ starting @ [quote], lo_exc = None\<rparr>)"

definition M_maybeInstanciate ::
  "(log_request \<Rightarrow> logger_state \<Rightarrow> logger_state res) \<Rightarrow> 'n log_env \<Rightarrow> int64 \<Rightarrow> logger_state \<Rightarrow> logger_state res" where
  "M_maybeInstanciate log E now s =
     (if ls_inst s = None
      then let (g, s) = Logger_ctor E 0 None ServerPort (FallbackLogFilePrefix E) s
           in LESF_LOG log E now None not_initialised (set_inst g s)
      else Ok s)"

text \<open>What the overloads do once there is an instance.\<close>

definition log_route :: "'n log_env \<Rightarrow> log_request \<Rightarrow> logger_state \<Rightarrow> logger_state res" where
  "log_route E r s =
     obind (the_inst s) (\<lambda>g.
     case r of
       LogMessage m raised \<Rightarrow>
         (case lg_remote g of
            Some c \<Rightarrow>
              try_catch
                (obind (serialize (le_json E) (le_hex E) m) (\<lambda>x.
                 obind (client_send x c) (\<lambda>d.
                 case raised of Some e \<Rightarrow> Throw e
                 | None \<Rightarrow> Ok (s\<lparr>ls_inst := Some (g\<lparr>lg_remote := Some d\<rparr>)\<rparr>))))
                (\<lambda>_. True)
                (\<lambda>e. obind (serialize (le_json E) (le_hex E) m) (\<lambda>x.
                     Ok (fallback_write g (send_failed_text E e x) s)))
          | None \<Rightarrow>
              obind (serialize (le_json E) (le_hex E) m) (\<lambda>x. Ok (fallback_write g (no_remote_text x) s)))
     | LogException e ty fmt \<Rightarrow> Ok (fallback_write g (construct_failed_text E e ty fmt) s))"

lemma obind_cong [fundef_cong]:
  "m = n \<Longrightarrow> (\<And>a. n = Ok a \<Longrightarrow> f a = g a) \<Longrightarrow> obind m f = obind n g"
  by (cases n) auto

lemma Logger_ctor_locked: "Logger_ctor E argc argv port prefix s = (g, t) \<Longrightarrow> ls_locked t = ls_locked s"
  by (auto simp: Logger_ctor_def Let_def split: if_splits)

text \<open>\<^verbatim>\<open>M_maybeInstanciate\<close> calls back into \<^verbatim>\<open>log\<close> with the mutex as it found it.\<close>

lemma M_maybeInstanciate_cong [fundef_cong]:
  assumes "s = s'" and "\<And>r t. ls_locked t = ls_locked s' \<Longrightarrow> log r t = log' r t"
  shows "M_maybeInstanciate log E now s = M_maybeInstanciate log' E now s'"
proof -
  have "LESF_LOG log E now None not_initialised (set_inst g t) =
        LESF_LOG log' E now None not_initialised (set_inst g t)"
    if "Logger_ctor E 0 None ServerPort (FallbackLogFilePrefix E) s' = (g, t)" for g t
    using Logger_ctor_locked [OF that] assms(2) [of "set_inst g t"] by (simp add: LESF_LOG_def set_inst_def)
  then show ?thesis by (auto simp: M_maybeInstanciate_def assms(1) split: prod.splits)
qed

function Logger_log :: "'n log_env \<Rightarrow> int64 \<Rightarrow> log_request \<Rightarrow> logger_state \<Rightarrow> logger_state res" where
  "Logger_log E now r s =
     no_except (obind (lock_mutex s) (\<lambda>s.
       obind (M_maybeInstanciate (Logger_log E now) E now s) (\<lambda>s.
       obind (log_route E r s) (\<lambda>s. Ok (unlock_mutex s)))))"
  by pat_completeness auto

text \<open>The recursion ends because the inner call finds the mutex taken.\<close>

termination
  by (relation "measure (\<lambda>(E, now, r, s). if ls_locked s then 0 else 1)")
    (auto simp: lock_mutex_def split: if_splits)

declare Logger_log.simps [simp del]

section \<open>Destruction\<close>

text \<open>
  The positions read from the fallback file are \<open>- 1\<close> when it cannot be opened for reading. \<^verbatim>\<open>remove\<close> of a
  name that does not exist does nothing. Then the client is destroyed, which may have to wait.
\<close>

definition Logger_dtor :: "bool \<Rightarrow> logger \<Rightarrow> logger_state \<Rightarrow> logger_state option" where
  "Logger_dtor readable g s =
     (let f = (if readable then ls_files s (lg_fallback_fn g) else None);
          l = (if f = None then - 1 else 0 :: int);
          m = (case f of None \<Rightarrow> - 1 | Some old \<Rightarrow> int (length old));
          s = (if m - l = 0 then s\<lparr>ls_files := (ls_files s)(lg_fallback_fn g := None)\<rparr> else s)
      in case lg_remote g of
           None \<Rightarrow> Some s
         | Some c \<Rightarrow> map_option (\<lambda>d. s\<lparr>ls_inst := Some (g\<lparr>lg_remote := Some d\<rparr>)\<rparr>) (client_destroy c))"

definition AutoDeleter_dtor :: "bool \<Rightarrow> logger_state \<Rightarrow> logger_state option" where
  "AutoDeleter_dtor readable s =
     (case ls_inst s of None \<Rightarrow> Some s
      | Some g \<Rightarrow> map_option (\<lambda>s. s\<lparr>ls_freed := True\<rparr>) (Logger_dtor readable g s))"

section \<open>Runs of a process that logs\<close>

text \<open>
  \<open>LRemote\<close> is a completion in the I/O thread of the client; what goes through the client's interface
  only does so by the operations of the logger.
\<close>

datatype log_event =
    LInit bool cint "cstr list option" "16 word" string
  | LLog int64 "cpp_exc option" log_site
  | LRemote client_event
  | LExit bool

definition result_of :: "('e, 'a) outcome \<Rightarrow> 'a option" where
  "result_of r = (case r of Ok a \<Rightarrow> Some a | _ \<Rightarrow> None)"

fun io_event :: "client_event \<Rightarrow> bool" where
  "io_event (Send x) = False"
| "io_event Destroy = False"
| "io_event _ = True"

definition remote_step :: "client_event \<Rightarrow> logger_state \<Rightarrow> logger_state option" where
  "remote_step ev s =
     (case ls_inst s of None \<Rightarrow> None
      | Some g \<Rightarrow> (case lg_remote g of None \<Rightarrow> None
        | Some c \<Rightarrow> if io_event ev \<and> \<not> ls_freed s
            then map_option (\<lambda>d. s\<lparr>ls_inst := Some (g\<lparr>lg_remote := Some d\<rparr>)\<rparr>) (client_step c ev) else None))"

definition remote_fault :: "logger_state \<Rightarrow> bool" where
  "remote_fault s = (\<exists>g c. ls_inst s = Some g \<and> lg_remote g = Some c \<and> cl_fault c \<noteq> None)"

lemma remote_fault_code [code, simp]:
  "remote_fault s =
     (case ls_inst s of None \<Rightarrow> False
      | Some g \<Rightarrow> (case lg_remote g of None \<Rightarrow> False | Some c \<Rightarrow> cl_fault c \<noteq> None))"
  by (auto simp: remote_fault_def split: option.splits)

text \<open>
  The argument of \<^verbatim>\<open>log\<close> in the macros, in the \<^verbatim>\<open>try\<close> block or in the \<^verbatim>\<open>catch\<close> clause, and what a call of \<^verbatim>\<open>log\<close> makes
  of the state: an overrun of the header buffer is recorded as a fault of the client.
\<close>

definition log_argument ::
  "'n log_env \<Rightarrow> int64 \<Rightarrow> cpp_exc option \<Rightarrow> log_site \<Rightarrow> process_info res \<Rightarrow> log_request res" where
  "log_argument E now raised l pinfo =
     try_catch (obind (build_message E now l pinfo) (\<lambda>m. Ok (LogMessage m raised)))
       (\<lambda>_. True) (\<lambda>e. Ok (LogException e (type_name (lo_type l)) (lo_fmt l)))"

definition overrun :: "logger_state \<Rightarrow> logger_state" where
  "overrun s =
     (case ls_inst s of None \<Rightarrow> s
      | Some g \<Rightarrow> s\<lparr>ls_inst := Some (g\<lparr>lg_remote :=
          map_option (\<lambda>c. c\<lparr>cl_fault := Some Header_Overflow\<rparr>) (lg_remote g)\<rparr>)\<rparr>)"

definition after_log :: "logger_state \<Rightarrow> logger_state res \<Rightarrow> logger_state option" where
  "after_log s r = (case r of Ok t \<Rightarrow> Some t | Undef Buffer_Overflow \<Rightarrow> Some (overrun s) | _ \<Rightarrow> None)"

definition log_use ::
  "'n log_env \<Rightarrow> int64 \<Rightarrow> cpp_exc option \<Rightarrow> log_site \<Rightarrow> logger_state \<Rightarrow> logger_state option" where
  "log_use E now raised l s =
     Option.bind (result_of (log_argument E now raised l (getProcessInfo s))) (\<lambda>r. after_log s (Logger_log E now r s))"

definition logger_step :: "'n log_env \<Rightarrow> logger_state \<Rightarrow> log_event \<Rightarrow> logger_state option" where
  "logger_step E s e =
     (if remote_fault s then None
      else case e of
        LInit resolves argc argv port prefix \<Rightarrow> result_of (Logger_init E resolves argc argv port prefix s)
      | LLog now raised l \<Rightarrow> log_use E now raised l s
      | LRemote ev \<Rightarrow> remote_step ev s
      | LExit readable \<Rightarrow> AutoDeleter_dtor readable s)"

fun in_service :: "log_event \<Rightarrow> bool" where
  "in_service (LLog now raised l) = True"
| "in_service (LRemote ev) = True"
| "in_service _ = False"

text \<open>
  The abstract logger: each use of a macro gives one message to the client or one block of text to the
  fallback file, never both. \<open>g\<close> is the instance, of which only the constant members are used and
  whether it has a client. A message too long for its header goes to the client whatever the posting would throw.
\<close>

definition serialized :: "'n log_env \<Rightarrow> message \<Rightarrow> string" where
  "serialized E m = (case serialize (le_json E) (le_hex E) m of Ok x \<Rightarrow> x | _ \<Rightarrow> [])"

definition logged :: "'n log_env \<Rightarrow> logger \<Rightarrow> log_event \<Rightarrow> string list \<times> string" where
  "logged E g e =
     (case e of
        LLog now raised l \<Rightarrow>
          (case build_message E now l (process_info_of g) of
             Ok m \<Rightarrow>
               (if lg_remote g = None then ([], no_remote_text (serialized E m))
                else case raised of
                    Some x \<Rightarrow>
                      if length (serialized E m) < 10 ^ HeaderSize then ([], send_failed_text E x (serialized E m))
                      else ([serialized E m], [])
                  | None \<Rightarrow> ([serialized E m], []))
           | Throw x \<Rightarrow> ([], construct_failed_text E x (type_name (lo_type l)) (lo_fmt l))
           | _ \<Rightarrow> ([], []))
      | _ \<Rightarrow> ([], []))"

definition client_events :: "'n log_env \<Rightarrow> logger \<Rightarrow> log_event \<Rightarrow> client_event list" where
  "client_events E g e = (case e of LRemote ev \<Rightarrow> [ev] | _ \<Rightarrow> map Send (fst (logged E g e)))"

definition logged_text :: "'n log_env \<Rightarrow> logger \<Rightarrow> log_event list \<Rightarrow> string" where
  "logged_text E g es = concat (map (\<lambda>e. snd (logged E g e)) es)"

definition logged_events :: "'n log_env \<Rightarrow> logger \<Rightarrow> log_event list \<Rightarrow> client_event list" where
  "logged_events E g es = concat (map (client_events E g) es)"

text \<open>A use of a macro leaves its message in exactly one of the two places.\<close>

definition one_place :: "'n log_env \<Rightarrow> logger \<Rightarrow> log_event \<Rightarrow> bool" where
  "one_place E g e \<longleftrightarrow>
     (case e of LLog now raised l \<Rightarrow> (fst (logged E g e) = [] \<longleftrightarrow> snd (logged E g e) \<noteq> []) | _ \<Rightarrow> True)"

lemma texts_nonempty:
  "no_remote_text x \<noteq> []" "send_failed_text E e x \<noteq> []" "construct_failed_text E e ty fmt \<noteq> []"
  by (simp_all add: no_remote_text_def send_failed_text_def construct_failed_text_def)

lemma logged_Nil [simp]: "logged_text E g [] = []" "logged_events E g [] = []"
  by (simp_all add: logged_text_def logged_events_def)

lemma logged_Cons [simp]:
  "logged_text E g (e # es) = snd (logged E g e) @ logged_text E g es"
  "logged_events E g (e # es) = client_events E g e @ logged_events E g es"
  by (simp_all add: logged_text_def logged_events_def)

section \<open>One operation\<close>

text \<open>The instance is in service: initialised, not destroyed, the mutex free, the fallback file open.\<close>

definition serving :: "logger \<Rightarrow> string \<Rightarrow> logger_state \<Rightarrow> bool" where
  "serving g txt s \<longleftrightarrow>
     ls_inst s = Some g \<and> \<not> ls_locked s \<and> \<not> ls_freed s \<and> lg_open g \<and>
     ls_files s (lg_fallback_fn g) = Some txt"

lemma Logger_log_ready:
  assumes "ls_inst s = Some g" and "\<not> ls_locked s"
  shows "Logger_log E now r s =
     no_except (obind (log_route E r (s\<lparr>ls_locked := True\<rparr>)) (\<lambda>s. Ok (unlock_mutex s)))"
  using assms by (simp add: Logger_log.simps lock_mutex_def M_maybeInstanciate_def)

lemma serialize_serialized:
  assumes "json_library (le_json E)"
  shows "serialize (le_json E) (le_hex E) m = Ok (serialized E m)"
  using serialize_serializes [OF assms, of "le_hex E" m] by (auto simp: serialized_def)

lemma Logger_log_message_ready:
  assumes "json_library (le_json E)" and "ls_inst s = Some g" and "\<not> ls_locked s" and "\<not> ls_freed s"
  shows "Logger_log E now (LogMessage m raised) s =
     (case lg_remote g of
        None \<Rightarrow> Ok (fallback_write g (no_remote_text (serialized E m)) s)
      | Some c \<Rightarrow>
          if length (serialized E m) < 10 ^ HeaderSize
          then Ok (case raised of
              None \<Rightarrow> s\<lparr>ls_inst := Some (g\<lparr>lg_remote := Some (send_step (serialized E m) c)\<rparr>)\<rparr>
            | Some x \<Rightarrow> fallback_write g (send_failed_text E x (serialized E m)) s)
          else Undef Buffer_Overflow)"
  using assms(2-4)
  by (auto simp: Logger_log_ready log_route_def the_inst_def serialize_serialized [OF assms(1)] client_send_cases
      fallback_write_def unlock_mutex_def split: option.splits)

lemma Logger_log_exception_ready:
  assumes "ls_inst s = Some g" and "\<not> ls_locked s" and "\<not> ls_freed s"
  shows "Logger_log E now (LogException x ty fmt) s = Ok (fallback_write g (construct_failed_text E x ty fmt) s)"
  using assms
  by (auto simp: Logger_log_ready log_route_def the_inst_def fallback_write_def unlock_mutex_def)

definition after_text :: "logger \<Rightarrow> string \<Rightarrow> logger_state \<Rightarrow> logger_state" where
  "after_text g txt s = s\<lparr>ls_files := (ls_files s)(lg_fallback_fn g \<mapsto> txt)\<rparr>"

lemma fallback_write_serving:
  "lg_open g \<Longrightarrow> ls_files s (lg_fallback_fn g) = Some txt \<Longrightarrow>
   fallback_write g new s = after_text g (txt @ new) s"
  by (simp add: fallback_write_def after_text_def)

lemma Logger_log_message:
  assumes "json_library (le_json E)" and "serving g txt s"
  shows "after_log s (Logger_log E now (LogMessage m raised) s) = Some
     (case lg_remote g of
        None \<Rightarrow> after_text g (txt @ no_remote_text (serialized E m)) s
      | Some c \<Rightarrow>
          if raised = None \<or> \<not> length (serialized E m) < 10 ^ HeaderSize
          then s\<lparr>ls_inst := Some (g\<lparr>lg_remote := Some (send_step (serialized E m) c)\<rparr>)\<rparr>
          else after_text g (txt @ send_failed_text E (the raised) (serialized E m)) s)"
proof (cases "lg_remote g")
  case (Some c)
  show ?thesis
  proof (cases "length (serialized E m) < 10 ^ HeaderSize")
    case True
    then show ?thesis using assms(2) Some
      by (auto simp: serving_def Logger_log_message_ready [OF assms(1)] fallback_write_serving after_log_def
          split: option.splits)
  next
    case False
    then have "overrun s = s\<lparr>ls_inst := Some (g\<lparr>lg_remote := Some (send_step (serialized E m) c)\<rparr>)\<rparr>"
      using assms(2) Some by (simp add: overrun_def serving_def send_step_def client_send_cases)
    then show ?thesis using assms(2) Some False
      by (simp add: serving_def Logger_log_message_ready [OF assms(1)] after_log_def)
  qed
qed (use assms(2) in \<open>simp add: serving_def Logger_log_message_ready [OF assms(1)] fallback_write_serving after_log_def\<close>)

lemma Logger_log_exception:
  assumes "serving g txt s"
  shows "after_log s (Logger_log E now (LogException x ty fmt) s) = Some (after_text g (txt @ construct_failed_text E x ty fmt) s)"
  using assms by (simp add: serving_def Logger_log_exception_ready fallback_write_serving after_log_def)

lemma getProcessInfo_serving: "serving g txt s \<Longrightarrow> getProcessInfo s = process_info_of g"
  by (simp add: serving_def getProcessInfo_def the_inst_def)

lemma LESF_LOG_message:
  assumes "build_message E now l (getProcessInfo s) = Ok m"
  shows "LESF_LOG (Logger_log E now) E now raised l s = Logger_log E now (LogMessage m raised) s"
proof -
  have "Logger_log E now (LogMessage m raised) s \<noteq> Throw e" for e
    by (subst Logger_log.simps) (rule no_except_never_throws)
  then show ?thesis using assms
    by (cases "Logger_log E now (LogMessage m raised) s") (auto simp: LESF_LOG_def)
qed

text \<open>The macro builds the argument and calls \<^verbatim>\<open>log\<close>, which throws nothing, once.\<close>

lemma LESF_LOG_argument:
  "LESF_LOG (Logger_log E now) E now raised l s =
     obind (log_argument E now raised l (getProcessInfo s)) (\<lambda>r. Logger_log E now r s)"
  by (cases "build_message E now l (getProcessInfo s)") (simp_all add: LESF_LOG_message, simp_all add: LESF_LOG_def log_argument_def)

lemma log_use_LESF_LOG:
  "log_use E now raised l s = Some t \<longleftrightarrow>
     LESF_LOG (Logger_log E now) E now raised l s = Ok t \<or>
     t = overrun s \<and> (\<exists>r. log_argument E now raised l (getProcessInfo s) = Ok r \<and> Logger_log E now r s = Undef Buffer_Overflow)"
  by (cases "log_argument E now raised l (getProcessInfo s)")
    (auto simp: log_use_def LESF_LOG_argument result_of_def after_log_def split: outcome.splits ub.splits)

lemma log_use_built:
  assumes "serving g txt s" and "log_use E now raised l s = Some t"
  obtains m where "build_message E now l (process_info_of g) = Ok m"
      and "after_log s (Logger_log E now (LogMessage m raised) s) = Some t"
    | x where "build_message E now l (process_info_of g) = Throw x"
      and "after_log s (Logger_log E now (LogException x (type_name (lo_type l)) (lo_fmt l)) s) = Some t"
  using assms
  by (cases "build_message E now l (process_info_of g)")
    (simp_all add: log_use_def getProcessInfo_serving log_argument_def result_of_def)

lemma log_use_serving:
  assumes "json_library (le_json E)" and "serving g txt s" and "log_use E now raised l s = Some t"
  shows "t = after_text g (txt @ snd (logged E g (LLog now raised l)))
           (case (lg_remote g, fst (logged E g (LLog now raised l))) of
              (Some c, [x]) \<Rightarrow> s\<lparr>ls_inst := Some (g\<lparr>lg_remote := Some (send_step x c)\<rparr>)\<rparr> | _ \<Rightarrow> s)"
  using assms(2,3)
proof (cases rule: log_use_built)
  case (1 m)
  have "(ls_files s)(lg_fallback_fn g \<mapsto> txt) = ls_files s"
    using assms(2) by (simp add: serving_def fun_upd_idem)
  then show ?thesis using 1
    by (auto simp: Logger_log_message [OF assms(1,2)] logged_def after_text_def split: option.splits if_splits)
next
  case (2 x)
  then show ?thesis by (simp add: Logger_log_exception [OF assms(2)] logged_def split: option.splits)
qed

lemma one_place_logged:
  assumes "serving g txt s" and "log_use E now raised l s = Some t"
  shows "one_place E g (LLog now raised l)"
  using assms by (cases rule: log_use_built) (auto simp: one_place_def logged_def texts_nonempty split: option.splits)

lemma client_step_terminate:
  assumes "client_step c ev = Some d" and "ev \<noteq> Destroy"
  shows "cl_terminate d = cl_terminate c"
  using assms
  by (cases ev)
    (auto simp: client_step.simps handler_defs Let_def split: if_splits list.splits posted.splits outcome.splits)

lemma logged_remote:
  assumes "r = None \<longleftrightarrow> lg_remote g = None"
  shows "logged E (g\<lparr>lg_remote := r\<rparr>) e = logged E g e"
proof -
  have "process_info_of (g\<lparr>lg_remote := r\<rparr>) = process_info_of g" by (simp add: process_info_of_def split: option.split list.split)
  then show ?thesis using assms by (simp add: logged_def split: log_event.split outcome.split)
qed

lemma client_events_remote:
  "r = None \<longleftrightarrow> lg_remote g = None \<Longrightarrow> client_events E (g\<lparr>lg_remote := r\<rparr>) e = client_events E g e"
  by (simp add: client_events_def logged_remote split: log_event.split)

lemma logged_text_remote:
  "r = None \<longleftrightarrow> lg_remote g = None \<Longrightarrow> logged_text E (g\<lparr>lg_remote := r\<rparr>) es = logged_text E g es"
  by (simp add: logged_text_def logged_remote)

lemma logged_events_remote:
  "r = None \<longleftrightarrow> lg_remote g = None \<Longrightarrow> logged_events E (g\<lparr>lg_remote := r\<rparr>) es = logged_events E g es"
  by (simp add: logged_events_def client_events_remote cong: map_cong)

lemma one_place_remote:
  "r = None \<longleftrightarrow> lg_remote g = None \<Longrightarrow> one_place E (g\<lparr>lg_remote := r\<rparr>) = one_place E g"
  by (simp add: fun_eq_iff one_place_def logged_remote split: log_event.split)

lemma logged_cases:
  obtains "fst (logged E g e) = []"
  | x c where "fst (logged E g e) = [x]" and "snd (logged E g e) = []" and "lg_remote g = Some c"
proof (cases "fst (logged E g e)")
  case (Cons x xs)
  then have "xs = [] \<and> snd (logged E g e) = [] \<and> lg_remote g \<noteq> None"
    by (auto simp: logged_def split: log_event.splits outcome.splits option.splits if_splits)
  then show ?thesis using Cons that(2) by auto
qed (rule that(1))

lemma logger_step_serving:
  assumes J: "json_library (le_json E)" and s: "serving g txt s" and e: "in_service e"
    and step: "logger_step E s e = Some t"
  shows "\<exists>r. serving (g\<lparr>lg_remote := r\<rparr>) (txt @ snd (logged E g e)) t \<and>
           (r = None \<longleftrightarrow> lg_remote g = None) \<and> one_place E g e \<and>
           ls_files t = (ls_files s)(lg_fallback_fn g \<mapsto> txt @ snd (logged E g e)) \<and>
           (\<forall>c. lg_remote g = Some c \<longrightarrow> \<not> cl_terminate c \<longrightarrow>
             (\<exists>d. r = Some d \<and> exec client_step c (client_events E g e) = Some d \<and> \<not> cl_terminate d))"
proof (cases e)
  case (LRemote ev)
  have up: "(ls_files s)(lg_fallback_fn g \<mapsto> txt) = ls_files s"
    using s by (simp add: serving_def fun_upd_idem)
  from LRemote step s obtain c d where c: "lg_remote g = Some c" "client_step c ev = Some d" "io_event ev"
      "t = s\<lparr>ls_inst := Some (g\<lparr>lg_remote := Some d\<rparr>)\<rparr>"
    by (auto simp: logger_step_def remote_step_def serving_def split: option.splits if_splits)
  have "ev \<noteq> Destroy" using c(3) by (cases ev) auto
  then show ?thesis using c s LRemote client_step_terminate [OF c(2)]
    by (intro exI [of _ "Some d"]) (auto simp: serving_def logged_def client_events_def one_place_def up)
next
  case (LLog now raised l)
  have nf: "\<not> remote_fault s" using step by (auto simp: logger_step_def split: if_splits)
  have run: "log_use E now raised l s = Some t"
    using step LLog by (auto simp: logger_step_def split: if_splits)
  note t = log_use_serving [OF J s run, folded LLog] and one = one_place_logged [OF s run, folded LLog]
  show ?thesis
  proof (cases rule: logged_cases [of E g e])
    case 1
    then show ?thesis using t s LLog one
      by (intro exI [of _ "lg_remote g"]) (auto simp: serving_def after_text_def client_events_def split: option.splits)
  next
    case (2 x c)
    moreover have "cl_fault c = None" using nf s 2 by (auto simp: serving_def)
    ultimately show ?thesis using t s LLog one
      by (intro exI [of _ "Some (send_step x c)"])
        (auto simp: serving_def after_text_def client_events_def client_step.simps)
  qed
qed (use e in simp_all)

lemma logger_run_serving:
  assumes "json_library (le_json E)" and "serving g txt s" and "\<forall>e \<in> set es. in_service e"
    and "exec (logger_step E) s es = Some t"
  shows "\<exists>r. serving (g\<lparr>lg_remote := r\<rparr>) (txt @ logged_text E g es) t \<and>
           (r = None \<longleftrightarrow> lg_remote g = None) \<and> list_all (one_place E g) es \<and>
           ls_files t = (ls_files s)(lg_fallback_fn g \<mapsto> txt @ logged_text E g es) \<and>
           (\<forall>c. lg_remote g = Some c \<longrightarrow> \<not> cl_terminate c \<longrightarrow>
             (\<exists>d. r = Some d \<and> exec client_step c (logged_events E g es) = Some d))"
  using assms(2,3,4)
proof (induction es arbitrary: g "txt" s)
  case Nil
  then show ?case by (intro exI [of _ "lg_remote g"]) (auto simp: serving_def fun_upd_idem)
next
  case (Cons e es)
  obtain u where u: "logger_step E s e = Some u" "exec (logger_step E) u es = Some t"
    using Cons.prems(3) by (auto split: option.splits)
  obtain r where r: "serving (g\<lparr>lg_remote := r\<rparr>) (txt @ snd (logged E g e)) u"
      "r = None \<longleftrightarrow> lg_remote g = None" "one_place E g e"
      "ls_files u = (ls_files s)(lg_fallback_fn g \<mapsto> txt @ snd (logged E g e))"
      "\<forall>c. lg_remote g = Some c \<longrightarrow> \<not> cl_terminate c \<longrightarrow>
         (\<exists>d. r = Some d \<and> exec client_step c (client_events E g e) = Some d \<and> \<not> cl_terminate d)"
    using logger_step_serving [OF assms(1) Cons.prems(1) _ u(1)] Cons.prems(2) by auto
  let ?txt = "txt @ snd (logged E g e) @ logged_text E g es"
  let ?done = "\<lambda>q. serving (g\<lparr>lg_remote := q\<rparr>) ?txt t \<and> (q = None \<longleftrightarrow> r = None) \<and>
      list_all (one_place E g) es \<and> ls_files t = (ls_files u)(lg_fallback_fn g \<mapsto> ?txt) \<and>
      (\<forall>c. r = Some c \<longrightarrow> \<not> cl_terminate c \<longrightarrow>
        (\<exists>d. q = Some d \<and> exec client_step c (logged_events E g es) = Some d))"
  have "\<exists>q. ?done q"
    using Cons.IH [OF r(1) _ u(2)] Cons.prems(2)
    unfolding logged_text_remote [OF r(2)] logged_events_remote [OF r(2)] one_place_remote [OF r(2)]
    by (simp add: fun_upd_def)
  then obtain q where q: "?done q" ..
  have files: "ls_files t = (ls_files s)(lg_fallback_fn g \<mapsto> ?txt)" using q r(4) by simp
  have run: "\<exists>d. q = Some d \<and> exec client_step c (logged_events E g (e # es)) = Some d"
    if "lg_remote g = Some c" "\<not> cl_terminate c" for c
    using q r(5) that by (fastforce simp: exec_append)
  show ?case
    using q r(2,3) files run by (intro exI [of _ q]) simp
qed

section \<open>From the constructor to the destructor\<close>

definition fallback_name :: "'n log_env \<Rightarrow> string \<Rightarrow> string" where
  "fallback_name E prefix = prefix @ int_dec (sint (le_pid E))"

text \<open>What a first \<^verbatim>\<open>init\<close> leaves in the fallback file.\<close>

definition init_text :: "'n log_env \<Rightarrow> bool \<Rightarrow> string" where
  "init_text E resolves =
     (case new_client resolves of Throw e \<Rightarrow> init_failed_text E e | _ \<Rightarrow> [])"

lemma Logger_init_serving:
  assumes "Logger_init E resolves argc argv port prefix (logger_start files) = Ok s"
    and "le_can_open E (fallback_name E prefix)"
  shows "\<exists>g. serving g ((case files (fallback_name E prefix) of None \<Rightarrow> [] | Some old \<Rightarrow> old) @ init_text E resolves) s \<and>
           lg_fallback_fn g = fallback_name E prefix \<and>
           (lg_remote g = (if resolves then Some (M_doConnect True client_blank) else None)) \<and>
           (\<forall>fn. fn \<noteq> fallback_name E prefix \<longrightarrow> ls_files s fn = files fn)"
  using assms
  by (cases "files (fallback_name E prefix)"; cases resolves)
    (auto simp: Logger_init_def lock_mutex_def logger_start_def Logger_ctor_def fallback_name_def set_inst_def
      new_client_def fallback_write_def unlock_mutex_def serving_def init_text_def Let_def)

lemma dtor_files:
  assumes "serving g txt s" and "AutoDeleter_dtor readable s = Some t"
  shows "ls_files t = (ls_files s)(lg_fallback_fn g := if readable \<and> txt \<noteq> [] then Some txt else None)"
  using assms
  by (auto simp: serving_def AutoDeleter_dtor_def Logger_dtor_def Let_def fun_upd_idem split: option.splits if_splits)

text \<open>A small environment for runs.\<close>

definition demo_log_env :: "jnode log_env" where
  "demo_log_env =
     \<lparr>le_json = ref_json, le_hex = ref_hex_lib, le_rtti = (\<lambda>_. ''rtti''), le_show_trace = (\<lambda>_. ''trace''),
      le_build = \<lparr>te_date = ''d'', te_time = ''t'', te_build_id = ''b'', te_program = ''demo'',
                  te_version = ''v'', te_trace = [1]\<rparr>,
      le_pid = 77, le_can_open = (\<lambda>_. True)\<rparr>"

definition demo_log_site :: log_site where
  "demo_log_site =
     \<lparr>lo_type = Info, lo_site = \<lparr>st_file = ''main.cpp'', st_line = 7, st_function = ''main''\<rparr>,
      lo_pieces = [Ok ''hello''], lo_fmt = ''hello'', lo_exc = None\<rparr>"

definition demo_broken_site :: log_site where
  "demo_broken_site = demo_log_site\<lparr>lo_pieces := [Throw (StdExc ''n'' ''bad cast'')]\<rparr>"

definition demo_message :: message where
  "demo_message = Message 0 (type_code Info) (log_build_info (le_build demo_log_env) (lo_site demo_log_site))
     empty_process_info ''hello''"

lemma demo_build:
  "build_message demo_log_env 0 demo_log_site (Ok empty_process_info) = Ok demo_message"
  "build_message demo_log_env 0 demo_broken_site (Ok empty_process_info) = Throw (StdExc ''n'' ''bad cast'')"
  by (simp_all add: build_message_def demo_log_site_def demo_broken_site_def demo_message_def)

lemma demo_library: "json_library (le_json demo_log_env)"
  using ref.json_library_axioms by (simp add: demo_log_env_def)

definition demo_logger :: "client option \<Rightarrow> logger" where
  "demo_logger r =
     \<lparr>lg_port = ServerPort, lg_argc = 0, lg_argv = None, lg_pid = 77, lg_remote = r,
      lg_fallback_fn = ''log.77'', lg_open = True\<rparr>"

definition demo_logging :: "client option \<Rightarrow> string \<Rightarrow> logger_state" where
  "demo_logging r txt =
     \<lparr>ls_locked = False, ls_inst = Some (demo_logger r), ls_freed = False, ls_leaked = [],
      ls_files = [''log.77'' \<mapsto> txt]\<rparr>"

lemma demo_serving: "serving (demo_logger r) txt (demo_logging r txt)"
  by (simp add: serving_def demo_logging_def demo_logger_def)

lemma demo_logger_sel [simp]:
  "lg_remote (demo_logger r) = r" "lg_fallback_fn (demo_logger r) = ''log.77''"
  "(demo_logger r)\<lparr>lg_remote := q\<rparr> = demo_logger q" "ls_inst (demo_logging r txt) = Some (demo_logger r)"
  "(demo_logging r txt)\<lparr>ls_inst := Some (demo_logger q)\<rparr> = demo_logging q txt"
  "process_info_of (demo_logger r) = Ok empty_process_info"
  "ls_files (demo_logging r txt) = [''log.77'' \<mapsto> txt]"
  "\<not> ls_locked (demo_logging r txt)" "\<not> ls_freed (demo_logging r txt)"
  by (simp_all add: demo_logger_def demo_logging_def process_info_of_def)

lemma demo_after_text [simp]: "after_text (demo_logger r) new (demo_logging r txt) = demo_logging r new"
  by (simp add: after_text_def demo_logging_def demo_logger_def)

lemma demo_init:
  "Logger_init demo_log_env True 0 None ServerPort ''log.'' (logger_start (\<lambda>_. None)) =
     Ok (demo_logging (Some (M_doConnect True client_blank)) [])"
proof -
  have "int_dec (sint (77 :: cint)) = ''77''" by code_simp
  then show ?thesis
    by (simp add: Logger_init_def lock_mutex_def logger_start_def Logger_ctor_def set_inst_def demo_log_env_def
        new_client_def unlock_mutex_def demo_logging_def demo_logger_def Let_def)
qed

lemma demo_message_short: "length (serialized demo_log_env demo_message) < 10 ^ HeaderSize"
proof -
  have "length (serialized demo_log_env demo_message) < 1000" by code_simp
  then show ?thesis by (simp add: HeaderSize_def)
qed

lemma demo_step_log:
  assumes "case r of None \<Rightarrow> True | Some c \<Rightarrow> cl_fault c = None"
  shows "logger_step demo_log_env (demo_logging r txt) (LLog 0 raised demo_log_site) = Some
     (case (r, raised) of
        (None, _) \<Rightarrow> demo_logging None (txt @ no_remote_text (serialized demo_log_env demo_message))
      | (Some c, None) \<Rightarrow> demo_logging (Some (send_step (serialized demo_log_env demo_message) c)) txt
      | (Some c, Some x) \<Rightarrow>
          demo_logging (Some c) (txt @ send_failed_text demo_log_env x (serialized demo_log_env demo_message)))"
  using assms demo_message_short
  by (auto simp: logger_step_def log_use_def log_argument_def result_of_def getProcessInfo_serving [OF demo_serving] demo_build
      Logger_log_message [OF demo_library demo_serving] split: option.splits)

lemma demo_step_broken:
  assumes "case r of None \<Rightarrow> True | Some c \<Rightarrow> cl_fault c = None"
  shows "logger_step demo_log_env (demo_logging r txt) (LLog 0 raised demo_broken_site) = Some
     (demo_logging r (txt @ construct_failed_text demo_log_env (StdExc ''n'' ''bad cast'') ''Info'' ''hello''))"
proof -
  have "lo_type demo_broken_site = Info" "lo_fmt demo_broken_site = ''hello''"
    by (simp_all add: demo_broken_site_def demo_log_site_def)
  then show ?thesis using assms
    by (auto simp: logger_step_def log_use_def log_argument_def result_of_def getProcessInfo_serving [OF demo_serving] demo_build
        Logger_log_exception [OF demo_serving] split: option.splits)
qed

lemma demo_step_remote:
  assumes "cl_fault c = None" and "io_event ev" and "client_step c ev = Some d"
  shows "logger_step demo_log_env (demo_logging (Some c) txt) (LRemote ev) = Some (demo_logging (Some d) txt)"
  using assms by (simp add: logger_step_def remote_step_def)

section \<open>Properties\<close>

text \<open>
  C26. Nothing is lost while the logger is in service: initialised, its fallback file open. After any interleaving of uses of the macros and of
  completions in the client's thread, each use has left its message in exactly one place. The fallback
  file holds its old text followed by the blocks of the uses that could not be sent, in order, no other
  file changed, and the client has made the run that consists of the other uses, as sends, and its completions.
\<close>

theorem logger_routes_all:
  assumes "json_library (le_json E)" and "serving g txt s" and "\<forall>e \<in> set es. in_service e"
    and "exec (logger_step E) s es = Some t"
  shows "list_all (one_place E g) es \<and>
         ls_files t = (ls_files s)(lg_fallback_fn g \<mapsto> txt @ logged_text E g es) \<and>
         (\<forall>c. lg_remote g = Some c \<longrightarrow> \<not> cl_terminate c \<longrightarrow>
           (\<exists>h d. ls_inst t = Some h \<and> lg_remote h = Some d \<and>
                  exec client_step c (logged_events E g es) = Some d))"
proof -
  obtain r where r: "serving (g\<lparr>lg_remote := r\<rparr>) (txt @ logged_text E g es) t" "list_all (one_place E g) es"
      "ls_files t = (ls_files s)(lg_fallback_fn g \<mapsto> txt @ logged_text E g es)"
      "\<forall>c. lg_remote g = Some c \<longrightarrow> \<not> cl_terminate c \<longrightarrow>
        (\<exists>d. r = Some d \<and> exec client_step c (logged_events E g es) = Some d)"
    using logger_run_serving [OF assms] by (elim exE conjE)
  moreover have "ls_inst t = Some (g\<lparr>lg_remote := r\<rparr>)" using r(1) by (simp add: serving_def)
  ultimately show ?thesis by auto
qed

definition demo_uses :: "log_event list" where
  "demo_uses = [LLog 0 None demo_log_site, LRemote Connected, LLog 0 (Some (StdExc ''m'' ''bad alloc'')) demo_log_site,
     LLog 0 None demo_broken_site]"

theorem logger_routes_all_witness:
  "\<exists>t h d c. exec (logger_step demo_log_env) (demo_logging (Some c) ''old'') demo_uses = Some t \<and>
     ls_files t = [''log.77'' \<mapsto> ''old'' @
        send_failed_text demo_log_env (StdExc ''m'' ''bad alloc'') (serialized demo_log_env demo_message) @
        construct_failed_text demo_log_env (StdExc ''n'' ''bad cast'') ''Info'' ''hello''] \<and>
     ls_inst t = Some h \<and> lg_remote h = Some d \<and>
     exec client_step c [Send (serialized demo_log_env demo_message), Connected] = Some d"
proof -
  let ?c = "M_doConnect True client_blank"
  let ?x = "serialized demo_log_env demo_message"
  let ?g = "demo_logger (Some ?c)"
  note len = demo_message_short
  have c: "cl_fault ?c = None" "cl_fault (send_step ?x ?c) = None" "\<not> cl_terminate ?c"
    by (simp_all add: M_doConnect_def client_blank_def send_step_Ok [OF len])
  obtain d where d: "client_step (send_step ?x ?c) Connected = Some d" "cl_fault d = None"
    using c by (simp add: client_step.simps handler_defs Let_def client_blank_def send_step_Ok [OF len])
  have remote: "logger_step demo_log_env (demo_logging (Some (send_step ?x ?c)) ''old'') (LRemote Connected) =
      Some (demo_logging (Some d) ''old'')"
    by (rule demo_step_remote [OF c(2) _ d(1)]) simp
  have first: "logger_step demo_log_env (demo_logging (Some ?c) ''old'') (LLog 0 None demo_log_site) =
      Some (demo_logging (Some (send_step ?x ?c)) ''old'')"
    using c(1) by (simp add: demo_step_log)
  obtain t where t: "exec (logger_step demo_log_env) (demo_logging (Some ?c) ''old'') demo_uses = Some t"
    using d(2) by (simp add: demo_uses_def first remote demo_step_log demo_step_broken)
  have texts: "logged_text demo_log_env ?g demo_uses =
      send_failed_text demo_log_env (StdExc ''m'' ''bad alloc'') ?x @
      construct_failed_text demo_log_env (StdExc ''n'' ''bad cast'') ''Info'' ''hello''"
    using len by (simp add: demo_uses_def logged_def demo_build)
      (simp add: demo_broken_site_def demo_log_site_def)
  have events: "logged_events demo_log_env ?g demo_uses = [Send ?x, Connected]"
    using len by (simp add: demo_uses_def client_events_def logged_def demo_build)
  have "\<forall>e \<in> set demo_uses. in_service e" by (simp add: demo_uses_def)
  from logger_routes_all [OF demo_library demo_serving this t] c(3) show ?thesis
    unfolding texts events demo_logger_sel by (intro exI [of _ t]) (auto intro: t)
qed

text \<open>
  When \<^verbatim>\<open>log\<close> is called before \<^verbatim>\<open>init\<close> the message does not go out with default parameters: the
  warning that announces it locks the mutex that \<^verbatim>\<open>log\<close> already holds, whichever overload is called.
\<close>

theorem log_before_init_relocks:
  assumes "ls_inst s = None"
  shows "Logger_log E now r s = Undef Relock_Mutex"
proof -
  have locked: "Logger_log E now q t = Undef Relock_Mutex" if "ls_locked t" for q t
    using that by (simp add: Logger_log.simps lock_mutex_def)
  have "LESF_LOG (Logger_log E now) E now None not_initialised t = Undef Relock_Mutex"
    if "ls_locked t" "ls_inst t = Some h" "\<not> ls_freed t" "lg_argv h = None" for t h
    using that
    by (simp add: LESF_LOG_def getProcessInfo_def the_inst_def process_info_of_def build_message_def
        not_initialised_def Let_def locked)
  then show ?thesis using assms
    by (subst Logger_log.simps)
      (auto simp: lock_mutex_def M_maybeInstanciate_def Logger_ctor_def set_inst_def Let_def)
qed

theorem log_before_init_relocks_witness:
  "Logger_log demo_log_env 0 (LogException (StdExc ''n'' ''x'') ''Info'' ''x'') (logger_start (\<lambda>_. None)) =
     Undef Relock_Mutex"
  by (rule log_before_init_relocks) (simp add: logger_start_def)

text \<open>The message fits the header of the client it would go to.\<close>

definition header_fits :: "'n log_env \<Rightarrow> logger \<Rightarrow> log_request \<Rightarrow> bool" where
  "header_fits E g r =
     (case r of LogMessage m raised \<Rightarrow> lg_remote g = None \<or> length (serialized E m) < 10 ^ HeaderSize
      | LogException e ty fmt \<Rightarrow> True)"

text \<open>
  C30. Once the logger was initialised a call of \<^verbatim>\<open>log\<close> ends in one of two ways, whatever else fails. It returns: it throws
  nothing, releases the mutex, keeps the instance and touches no file but its own, to which it only appends. Or the
  logger has a client and the serialised message has a hundred million bytes or more: then \<^verbatim>\<open>send\<close> overruns the buffer of
  the header. Neither the recursion nor the mutex can keep it from ending.
\<close>

theorem log_returns:
  assumes "json_library (le_json E)" and "ls_inst s = Some g" and "\<not> ls_locked s" and "\<not> ls_freed s"
  shows "if header_fits E g r
         then \<exists>t h new. Logger_log E now r s = Ok t \<and> \<not> ls_locked t \<and> \<not> ls_freed t \<and> ls_inst t = Some h \<and>
           h\<lparr>lg_remote := None\<rparr> = g\<lparr>lg_remote := None\<rparr> \<and>
           ls_files t = (ls_files s)(lg_fallback_fn g :=
             map_option (\<lambda>old. old @ new) (ls_files s (lg_fallback_fn g)))
         else Logger_log E now r s = Undef Buffer_Overflow"
proof -
  let ?returns = "\<exists>t h new. Logger_log E now r s = Ok t \<and> \<not> ls_locked t \<and> \<not> ls_freed t \<and> ls_inst t = Some h \<and>
           h\<lparr>lg_remote := None\<rparr> = g\<lparr>lg_remote := None\<rparr> \<and>
           ls_files t = (ls_files s)(lg_fallback_fn g :=
             map_option (\<lambda>old. old @ new) (ls_files s (lg_fallback_fn g)))"
  have wrote: ?returns if "Logger_log E now r s = Ok (fallback_write g b s)" for b
    using assms(2-4) that
    by (intro exI [of _ "fallback_write g b s"] exI [of _ g] exI [of _ "if lg_open g then b else []"])
      (auto simp: fallback_write_def map_option.identity fun_upd_idem)
  have sent: ?returns if "Logger_log E now r s = Ok (s\<lparr>ls_inst := Some (g\<lparr>lg_remote := q\<rparr>)\<rparr>)" for q
    using assms(2-4) that
    by (intro exI [of _ "s\<lparr>ls_inst := Some (g\<lparr>lg_remote := q\<rparr>)\<rparr>"] exI [of _ "g\<lparr>lg_remote := q\<rparr>"] exI [of _ "[]"])
      (simp add: map_option.identity fun_upd_idem)
  show ?thesis
  proof (cases r)
    case (LogMessage m raised)
    note run = Logger_log_message_ready [OF assms, of now m raised, folded LogMessage]
    show ?thesis
    proof (cases "header_fits E g r")
      case True
      show ?thesis
      proof (cases "lg_remote g")
        case None
        then have ?returns using run by (intro wrote) simp
        then show ?thesis using True by simp
      next
        case (Some c)
        then have "length (serialized E m) < 10 ^ HeaderSize" using True by (simp add: header_fits_def LogMessage)
        note run = run [unfolded Some option.case, simplified this if_True]
        have ?returns
        proof (cases raised)
          case None
          show ?thesis by (rule sent) (simp add: run None)
        next
          case (Some x)
          show ?thesis by (rule wrote) (simp add: run Some)
        qed
        then show ?thesis using True by simp
      qed
    next
      case False
      then show ?thesis using run by (auto simp: header_fits_def LogMessage split: option.splits)
    qed
  next
    case (LogException x ty fmt)
    have ?returns
      by (rule wrote) (simp add: LogException Logger_log_exception_ready [OF assms(2-4)])
    then show ?thesis by (simp add: header_fits_def LogException)
  qed
qed

theorem log_returns_witness:
  "\<exists>t h new. Logger_log demo_log_env 0 (LogMessage demo_message None) (demo_logging (Some (M_doConnect True client_blank)) ''old'') = Ok t \<and>
     \<not> ls_locked t \<and> ls_inst t = Some h \<and> ls_files t ''log.77'' = Some (''old'' @ new)"
proof -
  let ?s = "demo_logging (Some (M_doConnect True client_blank)) ''old''"
  have "header_fits demo_log_env (demo_logger (Some (M_doConnect True client_blank))) (LogMessage demo_message None)"
    using demo_message_short by (simp add: header_fits_def)
  then show ?thesis
    using log_returns [OF demo_library, of ?s "demo_logger (Some (M_doConnect True client_blank))" "LogMessage demo_message None" 0]
    by (simp del: fun_upd_apply) (elim exE conjE, intro exI conjI, assumption+, simp)
qed

text \<open>
  C34. The fallback file outlives the process exactly when something was written to it. From a first
  \<^verbatim>\<open>init\<close> that creates it to the static destructor, with any uses of the macros in between, the file is gone
  in the end when nothing had to be written, and otherwise holds what \<^verbatim>\<open>init\<close> and the uses wrote; but a file that
  the destructor cannot open for reading is removed with the messages in it.
\<close>

theorem fallback_outlives:
  assumes "json_library (le_json E)" and "\<forall>e \<in> set es. in_service e"
    and "Logger_init E resolves argc argv port prefix (logger_start files) = Ok s"
    and "le_can_open E (fallback_name E prefix)" and "files (fallback_name E prefix) = None"
    and "exec (logger_step E) s (es @ [LExit readable]) = Some t"
  shows "\<exists>g. ls_inst s = Some g \<and> ls_freed t = True \<and>
           ls_files t (fallback_name E prefix) =
             (let txt = init_text E resolves @ logged_text E g es
              in if readable \<and> txt \<noteq> [] then Some txt else None)"
proof -
  obtain g where g: "serving g (init_text E resolves) s" "lg_fallback_fn g = fallback_name E prefix"
    using Logger_init_serving [OF assms(3,4)] unfolding assms(5) option.case append_Nil
    by (elim exE conjE)
  obtain u where u: "exec (logger_step E) s es = Some u" "AutoDeleter_dtor readable u = Some t"
    using assms(6) by (auto simp: exec_snoc logger_step_def bind_eq_Some_conv split: if_splits)
  obtain r where r: "serving (g\<lparr>lg_remote := r\<rparr>) (init_text E resolves @ logged_text E g es) u"
    using logger_run_serving [OF assms(1) g(1) assms(2) u(1)] by (elim exE conjE)
  have "ls_inst s = Some g" using g(1) by (simp add: serving_def)
  moreover have "ls_freed t"
    using u(2) r by (auto simp: AutoDeleter_dtor_def serving_def)
  ultimately show ?thesis using dtor_files [OF r u(2)] g(2) by (auto simp: Let_def)
qed

theorem fallback_outlives_witness:
  "\<exists>s t. Logger_init demo_log_env False 0 None ServerPort ''log.'' (logger_start (\<lambda>_. None)) = Ok s \<and>
     exec (logger_step demo_log_env) s ([] @ [LExit True]) = Some t \<and>
     ls_files t (fallback_name demo_log_env ''log.'') =
       Some (init_failed_text demo_log_env (StdExc ''boost::system::system_error'' ''resolve''))"
proof -
  let ?fn = "fallback_name demo_log_env ''log.''"
  obtain s where s: "Logger_init demo_log_env False 0 None ServerPort ''log.'' (logger_start (\<lambda>_. None)) = Ok s"
    by (simp add: Logger_init_def lock_mutex_def logger_start_def Logger_ctor_def new_client_def Let_def)
  have opens: "le_can_open demo_log_env ?fn" by (simp add: demo_log_env_def)
  obtain g where g: "serving g (init_text demo_log_env False) s" "lg_remote g = None"
    using Logger_init_serving [OF s opens] unfolding option.case append_Nil if_False by (elim exE conjE)
  obtain t where t: "exec (logger_step demo_log_env) s ([] @ [LExit True]) = Some t"
    using g by (simp add: logger_step_def serving_def AutoDeleter_dtor_def Logger_dtor_def Let_def)
  have "init_text demo_log_env False =
      init_failed_text demo_log_env (StdExc ''boost::system::system_error'' ''resolve'')"
    by (simp add: init_text_def new_client_def)
  moreover have "init_text demo_log_env False \<noteq> []"
    by (simp add: init_text_def new_client_def init_failed_text_def)
  ultimately show ?thesis
    using fallback_outlives [OF demo_library _ s opens _ t] s t by (auto simp: Let_def)
qed

text \<open>
  When neither the client nor the fallback file could be created the process does not end, as the
  comments promise: every message is dropped without a trace.
\<close>

theorem log_drops_silently:
  assumes "json_library (le_json E)" and "ls_inst s = Some g" and "\<not> ls_locked s" and "\<not> ls_freed s"
    and "lg_remote g = None" and "\<not> lg_open g"
  shows "Logger_log E now r s = Ok s"
  using assms(2-6)
  by (cases r) (simp_all add: Logger_log_message_ready [OF assms(1)] Logger_log_exception_ready fallback_write_def)

theorem log_drops_silently_witness:
  "let s = (demo_logging None [])\<lparr>ls_inst := Some ((demo_logger None)\<lparr>lg_open := False\<rparr>)\<rparr>
   in Logger_log demo_log_env 0 (LogMessage demo_message None) s = Ok s"
  unfolding Let_def
  by (rule log_drops_silently [OF demo_library, where g = "(demo_logger None)\<lparr>lg_open := False\<rparr>"])
    (simp_all add: demo_logging_def demo_logger_def)

end
