(* ===== verification/Log_Threads.thy ===== *)
theory Log_Threads
  imports Log_Logger
begin

text \<open>
  Several threads of a process that use the macros of \<^verbatim>\<open>log/logger.h\<close> at the same time. A use of a macro builds its message,
  reading the process information without the mutex, then waits for the mutex, does what \<^verbatim>\<open>log\<close> does under it, and
  releases it; between any two of these the other threads and the completions of the client go on. The
  abstract machine is the one of \<^verbatim>\<open>Log_Logger\<close>, in which a use of a macro is one event.
\<close>

section \<open>State and steps\<close>

text \<open>Where a thread is: outside the macros, with its message built, with the mutex, about to release it.\<close>

datatype log_pc = Outside | Built int64 log_request | Locked int64 log_request | Leaving

record log_threads =
  lt_logger :: logger_state
  lt_pc :: "nat \<Rightarrow> log_pc"

datatype thread_event =
    TBuild nat int64 "cpp_exc option" log_site
  | TLock nat
  | TLog nat
  | TUnlock nat
  | TRemote client_event

text \<open>The bodies of both \<^verbatim>\<open>log\<close>, between the lock guard's constructor and destructor.\<close>

definition log_locked :: "'n log_env \<Rightarrow> int64 \<Rightarrow> log_request \<Rightarrow> logger_state \<Rightarrow> logger_state res" where
  "log_locked E now r s =
     no_except (obind (M_maybeInstanciate (Logger_log E now) E now s) (log_route E r))"

definition at_pc :: "nat \<Rightarrow> log_pc \<Rightarrow> log_threads \<Rightarrow> log_threads" where
  "at_pc i p s = s\<lparr>lt_pc := (lt_pc s)(i := p)\<rparr>"

definition threads_step :: "'n log_env \<Rightarrow> log_threads \<Rightarrow> thread_event \<Rightarrow> log_threads option" where
  "threads_step E s e =
     (if remote_fault (lt_logger s) then None
      else case e of
        TBuild i now raised l \<Rightarrow>
          (case lt_pc s i of
             Outside \<Rightarrow>
               map_option (\<lambda>r. at_pc i (Built now r) s)
                 (result_of (log_argument E now raised l (getProcessInfo (lt_logger s))))
           | _ \<Rightarrow> None)
      | TLock i \<Rightarrow>
          (case lt_pc s i of
             Built now r \<Rightarrow>
               map_option (\<lambda>u. at_pc i (Locked now r) (s\<lparr>lt_logger := u\<rparr>)) (result_of (lock_mutex (lt_logger s)))
           | _ \<Rightarrow> None)
      | TLog i \<Rightarrow>
          (case lt_pc s i of
             Locked now r \<Rightarrow>
               map_option (\<lambda>u. at_pc i Leaving (s\<lparr>lt_logger := u\<rparr>))
                 (after_log (lt_logger s) (log_locked E now r (lt_logger s)))
           | _ \<Rightarrow> None)
      | TUnlock i \<Rightarrow>
          (case lt_pc s i of
             Leaving \<Rightarrow> Some (at_pc i Outside (s\<lparr>lt_logger := unlock_mutex (lt_logger s)\<rparr>))
           | _ \<Rightarrow> None)
      | TRemote ev \<Rightarrow> map_option (\<lambda>u. s\<lparr>lt_logger := u\<rparr>) (remote_step ev (lt_logger s)))"

section \<open>The order of the uses\<close>

text \<open>
  The events of the abstract machine, each with its thread: a use of a macro happens when \<^verbatim>\<open>log\<close> runs under the mutex. \<open>p\<close>
  holds what each thread has built and not logged.
\<close>

fun linear :: "(nat \<rightharpoonup> log_event) \<Rightarrow> thread_event list \<Rightarrow> (nat option \<times> log_event) list" where
  "linear p [] = []"
| "linear p (TBuild i now raised l # es) = linear (p(i \<mapsto> LLog now raised l)) es"
| "linear p (TLog i # es) =
     (case p i of None \<Rightarrow> [] | Some e \<Rightarrow> [(Some i, e)]) @ linear (p(i := None)) es"
| "linear p (TRemote ev # es) = (None, LRemote ev) # linear p es"
| "linear p (_ # es) = linear p es"

text \<open>The uses that a thread makes, in the order of its program.\<close>

fun uses_by :: "nat \<Rightarrow> thread_event list \<Rightarrow> log_event list" where
  "uses_by i [] = []"
| "uses_by i (TBuild j now raised l # es) = (if j = i then [LLog now raised l] else []) @ uses_by i es"
| "uses_by i (_ # es) = uses_by i es"

section \<open>Simulation\<close>

text \<open>What a thread has built, as long as it has not been logged.\<close>

definition pending_ok :: "'n log_env \<Rightarrow> logger \<Rightarrow> log_event option \<Rightarrow> log_pc \<Rightarrow> bool" where
  "pending_ok E g q pc \<longleftrightarrow>
     (case pc of
        Built now r \<Rightarrow> \<exists>raised l. q = Some (LLog now raised l) \<and> log_argument E now raised l (process_info_of g) = Ok r
      | Locked now r \<Rightarrow> \<exists>raised l. q = Some (LLog now raised l) \<and> log_argument E now raised l (process_info_of g) = Ok r
      | _ \<Rightarrow> q = None)"

definition inside :: "log_pc \<Rightarrow> bool" where
  "inside pc \<longleftrightarrow> (case pc of Locked now r \<Rightarrow> True | Leaving \<Rightarrow> True | _ \<Rightarrow> False)"

text \<open>One thread holds the mutex, or none.\<close>

definition mutex_ok :: "log_threads \<Rightarrow> bool" where
  "mutex_ok s \<longleftrightarrow>
     (\<forall>i j. inside (lt_pc s i) \<longrightarrow> inside (lt_pc s j) \<longrightarrow> i = j) \<and>
     (ls_locked (lt_logger s) \<longleftrightarrow> (\<exists>i. inside (lt_pc s i)))"

text \<open>The state with the mutex free is one that serves; \<open>g\<close> is the instance at the start.\<close>

definition threads_inv ::
  "'n log_env \<Rightarrow> logger \<Rightarrow> (nat \<rightharpoonup> log_event) \<Rightarrow> log_threads \<Rightarrow> bool" where
  "threads_inv E g p s \<longleftrightarrow>
     mutex_ok s \<and> (\<forall>i. pending_ok E g (p i) (lt_pc s i)) \<and>
     (\<exists>r txt. serving (g\<lparr>lg_remote := r\<rparr>) txt (unlock_mutex (lt_logger s)))"

lemma process_info_remote: "process_info_of (g\<lparr>lg_remote := r\<rparr>) = process_info_of g"
  by (simp add: process_info_of_def split: option.split list.split)

lemma unlock_simps [simp]:
  "getProcessInfo (unlock_mutex s) = getProcessInfo s" "remote_fault (unlock_mutex s) = remote_fault s"
  "unlock_mutex (unlock_mutex s) = unlock_mutex s" "unlock_mutex (s\<lparr>ls_locked := b\<rparr>) = unlock_mutex s"
  "ls_locked (unlock_mutex s) = False" "ls_inst (unlock_mutex s) = ls_inst s"
  by (simp_all add: unlock_mutex_def getProcessInfo_def the_inst_def)

lemma remote_step_unlock: "remote_step ev (unlock_mutex s) = map_option unlock_mutex (remote_step ev s)"
proof (cases "ls_inst s")
  case (Some g)
  then show ?thesis
  proof (cases "lg_remote g")
    case (Some c)
    then show ?thesis using \<open>ls_inst s = Some g\<close>
      by (cases "client_step c ev") (simp_all add: remote_step_def unlock_mutex_def)
  qed (simp add: remote_step_def unlock_mutex_def)
qed (simp add: remote_step_def unlock_mutex_def)

lemma remote_step_locked: "remote_step ev s = Some t \<Longrightarrow> ls_locked t = ls_locked s"
  by (auto simp: remote_step_def split: option.splits if_splits)

lemma fallback_write_locked [simp]: "ls_locked (fallback_write g txt s) = ls_locked s"
  by (simp add: fallback_write_def)

lemma log_route_locked:
  assumes "log_route E r s = Ok t"
  shows "ls_locked t = ls_locked s"
proof -
  obtain g where g: "the_inst s = Ok g" using assms by (auto simp: log_route_def outcome_simps)
  show ?thesis
  proof (cases r)
    case (LogMessage m raised)
    then show ?thesis using assms g
      by (cases "serialize (le_json E) (le_hex E) m"; cases "lg_remote g"; cases raised)
        (auto simp: log_route_def client_send_cases split: if_splits)
  next
    case (LogException e ty fmt)
    then show ?thesis using assms g by (auto simp: log_route_def)
  qed
qed

text \<open>Under the mutex an instance that serves does what the whole of \<^verbatim>\<open>log\<close> does when nobody else is there.\<close>

lemma log_locked_route: "ls_inst s = Some g \<Longrightarrow> log_locked E now r s = no_except (log_route E r s)"
  by (simp add: log_locked_def M_maybeInstanciate_def)

lemma overrun_unlock: "overrun (unlock_mutex s) = unlock_mutex (overrun s)"
  by (simp add: overrun_def unlock_mutex_def split: option.split)

lemma overrun_locked: "ls_locked (overrun s) = ls_locked s"
  by (simp add: overrun_def split: option.split)

lemma Logger_log_locked:
  assumes "ls_inst s = Some g" and "ls_locked s"
  shows "after_log (unlock_mutex s) (Logger_log E now r (unlock_mutex s)) =
    map_option unlock_mutex (after_log s (log_locked E now r s))"
proof -
  have "(unlock_mutex s)\<lparr>ls_locked := True\<rparr> = s" using assms(2) by (simp add: unlock_mutex_def)
  then have "Logger_log E now r (unlock_mutex s) = no_except (obind (log_route E r s) (\<lambda>s. Ok (unlock_mutex s)))"
    using Logger_log_ready [of "unlock_mutex s" g E now r] assms(1) by (simp add: unlock_mutex_def)
  then show ?thesis
    by (cases "log_route E r s") (auto simp: log_locked_route [OF assms(1)] after_log_def overrun_unlock split: ub.split)
qed

fun pending_after :: "(nat \<rightharpoonup> log_event) \<Rightarrow> thread_event \<Rightarrow> (nat \<rightharpoonup> log_event)" where
  "pending_after p (TBuild i now raised l) = p(i \<mapsto> LLog now raised l)"
| "pending_after p (TLog i) = p(i := None)"
| "pending_after p e = p"

lemma linear_Cons: "linear p (e # es) = linear p [e] @ linear (pending_after p e) es"
  by (cases e) (auto split: option.splits)

lemma at_pc_simps [simp]:
  "lt_pc (at_pc i q s) = (lt_pc s)(i := q)" "lt_logger (at_pc i q s) = lt_logger s"
  "lt_pc (at_pc i q (s\<lparr>lt_logger := u\<rparr>)) = (lt_pc s)(i := q)" "lt_logger (at_pc i q (s\<lparr>lt_logger := u\<rparr>)) = u"
  by (simp_all add: at_pc_def)

lemma inside_simps [simp]: "\<not> inside Outside" "\<not> inside (Built now r)" "inside (Locked now r)" "inside Leaving"
  by (simp_all add: inside_def)

lemma log_locked_keeps_lock:
  assumes "ls_inst s = Some g" and "after_log s (log_locked E now r s) = Some t"
  shows "ls_locked t = ls_locked s"
proof (cases "log_route E r s")
  case (Ok u)
  then show ?thesis using assms(2) log_route_locked [OF Ok] by (simp add: log_locked_route [OF assms(1)] after_log_def)
next
  case (Undef u)
  then show ?thesis using assms(2)
    by (cases u) (auto simp: log_locked_route [OF assms(1)] after_log_def overrun_locked)
qed (use assms(2) in \<open>simp_all add: log_locked_route [OF assms(1)] after_log_def\<close>)

lemma result_of_Some [simp]: "result_of r = Some a \<longleftrightarrow> r = Ok a"
  by (cases r) (simp_all add: result_of_def)

text \<open>Each step of the threads is one of the shapes below.\<close>

lemma threads_step_cases:
  assumes "threads_step E s e = Some t"
  obtains
    (build) i now raised l r where "e = TBuild i now raised l" "lt_pc s i = Outside"
      "log_argument E now raised l (getProcessInfo (lt_logger s)) = Ok r" "t = at_pc i (Built now r) s"
  | (lock) i now r where "e = TLock i" "lt_pc s i = Built now r" "\<not> ls_locked (lt_logger s)"
      "t = at_pc i (Locked now r) (s\<lparr>lt_logger := (lt_logger s)\<lparr>ls_locked := True\<rparr>\<rparr>)"
  | (log) i now r u where "e = TLog i" "lt_pc s i = Locked now r" "\<not> remote_fault (lt_logger s)"
      "after_log (lt_logger s) (log_locked E now r (lt_logger s)) = Some u" "t = at_pc i Leaving (s\<lparr>lt_logger := u\<rparr>)"
  | (unlock) i where "e = TUnlock i" "lt_pc s i = Leaving"
      "t = at_pc i Outside (s\<lparr>lt_logger := unlock_mutex (lt_logger s)\<rparr>)"
  | (remote) ev u where "e = TRemote ev" "\<not> remote_fault (lt_logger s)" "remote_step ev (lt_logger s) = Some u"
      "t = s\<lparr>lt_logger := u\<rparr>"
proof (cases e)
  case (TBuild i now raised l)
  then show ?thesis using assms build by (auto simp: threads_step_def split: if_splits log_pc.splits)
next
  case (TLock i)
  then show ?thesis using assms lock
    by (auto simp: threads_step_def lock_mutex_def split: if_splits log_pc.splits)
next
  case (TLog i)
  then show ?thesis using assms log by (auto simp: threads_step_def split: if_splits log_pc.splits)
next
  case (TUnlock i)
  then show ?thesis using assms unlock by (auto simp: threads_step_def split: if_splits log_pc.splits)
next
  case (TRemote ev)
  then show ?thesis using assms remote by (auto simp: threads_step_def split: if_splits)
qed

lemma mutex_ok_step:
  assumes m: "mutex_ok s" and g: "ls_inst (lt_logger s) = Some g" and step: "threads_step E s e = Some t"
  shows "mutex_ok t"
  using step
proof (cases rule: threads_step_cases)
  case (build i now raised l r)
  then have "inside (lt_pc t j) = inside (lt_pc s j)" for j by simp
  then show ?thesis using m build by (simp add: mutex_ok_def)
next
  case (lock i now r)
  then have "\<not> inside (lt_pc s j)" for j using m by (auto simp: mutex_ok_def)
  then show ?thesis using lock by (auto simp: mutex_ok_def)
next
  case (log i now r u)
  then have "ls_locked u = ls_locked (lt_logger s)" using log_locked_keeps_lock [OF g] by simp
  moreover have "inside (lt_pc t j) = inside (lt_pc s j)" for j using log by simp
  ultimately show ?thesis using m log by (simp add: mutex_ok_def)
next
  case (unlock i)
  then have "inside (lt_pc s j) \<Longrightarrow> j = i" for j using m by (auto simp: mutex_ok_def)
  then show ?thesis using unlock by (auto simp: mutex_ok_def)
next
  case (remote ev u)
  then show ?thesis using m remote_step_locked [of ev "lt_logger s" u] by (simp add: mutex_ok_def)
qed

lemma pending_ok_simps [simp]:
  "pending_ok E g q Outside \<longleftrightarrow> q = None" "pending_ok E g q Leaving \<longleftrightarrow> q = None"
  by (simp_all add: pending_ok_def)

lemma pending_in_service: "pending_ok E g q pc \<Longrightarrow> q = None \<or> (\<exists>x. q = Some x \<and> in_service x)"
  by (cases pc) (auto simp: pending_ok_def)

lemma pending_ok_step:
  assumes "\<forall>i. pending_ok E g (p i) (lt_pc s i)" and "getProcessInfo (lt_logger s) = process_info_of g"
    and "threads_step E s e = Some t"
  shows "\<forall>i. pending_ok E g (pending_after p e i) (lt_pc t i)"
  using assms(3)
proof (cases rule: threads_step_cases)
  case (build i now raised l r)
  then show ?thesis using assms(1,2) by (auto simp: pending_ok_def)
next
  case (lock i now r)
  then show ?thesis using assms(1) spec [OF assms(1), of i] by (auto simp: pending_ok_def)
next
  case (log i now r u)
  then show ?thesis using assms(1) by auto
next
  case (unlock i)
  then show ?thesis using assms(1) spec [OF assms(1), of i] by auto
next
  case (remote ev u)
  then show ?thesis using assms(1) by simp
qed

text \<open>A step of the threads is an event of the abstract machine, or none.\<close>

lemma threads_step_simulates:
  assumes inv: "threads_inv E g p s" and step: "threads_step E s e = Some t"
  shows "exec (logger_step E) (unlock_mutex (lt_logger s)) (map snd (linear p [e])) = Some (unlock_mutex (lt_logger t))"
  using step
proof (cases rule: threads_step_cases)
  case (log i now r u)
  obtain q "txt" where sv: "serving (g\<lparr>lg_remote := q\<rparr>) txt (unlock_mutex (lt_logger s))"
    using inv by (auto simp: threads_inv_def)
  obtain raised l where l: "p i = Some (LLog now raised l)" "log_argument E now raised l (process_info_of g) = Ok r"
    using inv log(2) by (auto simp: threads_inv_def pending_ok_def dest!: spec [of _ i])
  have pi: "getProcessInfo (unlock_mutex (lt_logger s)) = process_info_of g"
    using getProcessInfo_serving [OF sv] by (simp add: process_info_remote)
  have inst: "ls_inst (lt_logger s) = Some (g\<lparr>lg_remote := q\<rparr>)" using sv by (simp add: serving_def unlock_mutex_def)
  have "ls_locked (lt_logger s)" using inv log(2) by (auto simp: threads_inv_def mutex_ok_def intro: exI [of _ i])
  then have "log_use E now raised l (unlock_mutex (lt_logger s)) = Some (unlock_mutex u)"
    using Logger_log_locked [OF inst, of E now r] log(4) l(2) pi by (simp add: log_use_def result_of_def)
  then show ?thesis using log l(1) by (simp add: logger_step_def)
qed (simp_all add: logger_step_def remote_step_unlock)

lemma threads_inv_step:
  assumes J: "json_library (le_json E)" and inv: "threads_inv E g p s" and step: "threads_step E s e = Some t"
  shows "threads_inv E g (pending_after p e) t"
proof -
  obtain q "txt" where sv: "serving (g\<lparr>lg_remote := q\<rparr>) txt (unlock_mutex (lt_logger s))"
    using inv by (auto simp: threads_inv_def)
  have inst: "ls_inst (lt_logger s) = Some (g\<lparr>lg_remote := q\<rparr>)" using sv by (simp add: serving_def unlock_mutex_def)
  have pi: "getProcessInfo (lt_logger s) = process_info_of g"
    using getProcessInfo_serving [OF sv] by (simp add: process_info_remote)
  have es: "map snd (linear p [e]) = [] \<or> (\<exists>x. map snd (linear p [e]) = [x] \<and> in_service x)"
  proof (cases e)
    case (TLog i)
    have "pending_ok E g (p i) (lt_pc s i)" using inv by (simp add: threads_inv_def)
    then have "p i = None \<or> (\<exists>x. p i = Some x \<and> in_service x)" by (rule pending_in_service)
    then show ?thesis using TLog by auto
  qed simp_all
  have "\<exists>q' txt'. serving (g\<lparr>lg_remote := q'\<rparr>) txt' (unlock_mutex (lt_logger t))"
    using es
  proof
    assume "map snd (linear p [e]) = []"
    then show ?thesis using threads_step_simulates [OF inv step] sv by auto
  next
    assume "\<exists>x. map snd (linear p [e]) = [x] \<and> in_service x"
    then obtain x where x: "map snd (linear p [e]) = [x]" "in_service x" by (elim exE conjE)
    have "logger_step E (unlock_mutex (lt_logger s)) x = Some (unlock_mutex (lt_logger t))"
      using threads_step_simulates [OF inv step] unfolding x(1) by (simp split: option.splits)
    from logger_step_serving [OF J sv x(2) this] show ?thesis by auto
  qed
  then show ?thesis
    using inv mutex_ok_step [OF _ inst step] pending_ok_step [OF _ pi step] unfolding threads_inv_def by blast
qed

lemma threads_run:
  assumes J: "json_library (le_json E)" and "threads_inv E g p s" and "exec (threads_step E) s es = Some t"
  shows "(\<exists>p'. threads_inv E g p' t) \<and>
    exec (logger_step E) (unlock_mutex (lt_logger s)) (map snd (linear p es)) = Some (unlock_mutex (lt_logger t))"
  using assms(2,3)
proof (induction es arbitrary: p s)
  case (Cons e es)
  obtain u where u: "threads_step E s e = Some u" "exec (threads_step E) u es = Some t"
    using Cons.prems(2) by (auto split: option.splits)
  note inv = threads_inv_step [OF J Cons.prems(1) u(1)]
  show ?case using Cons.IH [OF inv u(2)] threads_step_simulates [OF Cons.prems(1) u(1)]
    by (subst linear_Cons) (simp add: exec_append)
qed auto

section \<open>The program order of each thread\<close>

definition pending_list :: "log_event option \<Rightarrow> log_event list" where
  "pending_list q = (case q of None \<Rightarrow> [] | Some e \<Rightarrow> [e])"

lemma pending_list_simps [simp]: "pending_list None = []" "pending_list (Some e) = [e]"
  by (simp_all add: pending_list_def)

definition logged_by :: "nat \<Rightarrow> (nat option \<times> log_event) list \<Rightarrow> log_event list" where
  "logged_by i ls = map snd (filter (\<lambda>x. fst x = Some i) ls)"

lemma logged_by_simps [simp]:
  "logged_by i [] = []" "logged_by i (x # ls) = (if fst x = Some i then snd x # logged_by i ls else logged_by i ls)"
  "logged_by i (ls @ ms) = logged_by i ls @ logged_by i ms"
  by (simp_all add: logged_by_def)

lemma program_order_step:
  assumes "threads_inv E g p s" and "threads_step E s e = Some t"
  shows "pending_list (p i) @ uses_by i [e] = logged_by i (linear p [e]) @ pending_list (pending_after p e i)"
  using assms(2)
proof (cases rule: threads_step_cases)
  case (build j now raised l r)
  then have "p j = None" using assms(1) by (auto simp: threads_inv_def dest!: spec [of _ j])
  then show ?thesis using build by simp
next
  case (log j now r u)
  then show ?thesis by (cases "p j") auto
qed simp_all

lemma program_order:
  assumes J: "json_library (le_json E)" and "threads_inv E g p s" and "exec (threads_step E) s es = Some t"
  shows "\<exists>q. pending_list (p i) @ uses_by i es = logged_by i (linear p es) @ pending_list q \<and> pending_ok E g q (lt_pc t i)"
  using assms(2,3)
proof (induction es arbitrary: p s)
  case Nil
  then show ?case by (auto simp: threads_inv_def)
next
  case (Cons e es)
  obtain u where u: "threads_step E s e = Some u" "exec (threads_step E) u es = Some t"
    using Cons.prems(2) by (auto split: option.splits)
  obtain q where q: "pending_list (pending_after p e i) @ uses_by i es = logged_by i (linear (pending_after p e) es) @ pending_list q"
      "pending_ok E g q (lt_pc t i)"
    using Cons.IH [OF threads_inv_step [OF J Cons.prems(1) u(1)] u(2)] by (elim exE conjE)
  have "uses_by i (e # es) = uses_by i [e] @ uses_by i es" by (cases e) simp_all
  then have "pending_list (p i) @ uses_by i (e # es) = (pending_list (p i) @ uses_by i [e]) @ uses_by i es" by simp
  also have "\<dots> = logged_by i (linear p [e]) @ (pending_list (pending_after p e i) @ uses_by i es)"
    by (simp only: program_order_step [OF Cons.prems(1) u(1), of i] append_assoc)
  also have "\<dots> = logged_by i (linear p (e # es)) @ pending_list q"
    unfolding q(1) by (subst linear_Cons) simp
  finally show ?case using q(2) by (intro exI [of _ q] conjI)
qed

section \<open>Nobody waits for ever\<close>

lemma log_locked_returns:
  assumes J: "json_library (le_json E)" and s: "serving g txt (unlock_mutex s)" "ls_locked s"
  shows "\<exists>t. after_log s (log_locked E now r s) = Some t"
proof -
  have "\<exists>t. after_log (unlock_mutex s) (Logger_log E now r (unlock_mutex s)) = Some t"
  proof (cases r)
    case (LogMessage m raised)
    show ?thesis unfolding LogMessage Logger_log_message [OF J s(1)] by blast
  next
    case (LogException x ty fmt)
    show ?thesis unfolding LogException Logger_log_exception [OF s(1)] by blast
  qed
  moreover have "ls_inst s = Some g" using s(1) by (simp add: serving_def)
  ultimately show ?thesis by (simp add: Logger_log_locked [OF _ s(2)])
qed

lemma threads_progress:
  assumes J: "json_library (le_json E)" and inv: "threads_inv E g p s" and "\<not> remote_fault (lt_logger s)"
    and "lt_pc s i \<noteq> Outside"
  shows "\<exists>j. threads_step E s (TLock j) \<noteq> None \<or> threads_step E s (TLog j) \<noteq> None \<or> threads_step E s (TUnlock j) \<noteq> None"
proof (cases "ls_locked (lt_logger s)")
  case False
  then have "\<not> inside (lt_pc s i)" using inv by (auto simp: threads_inv_def mutex_ok_def)
  then obtain now r where "lt_pc s i = Built now r" using assms(4) by (cases "lt_pc s i") simp_all
  then have "threads_step E s (TLock i) \<noteq> None"
    using False assms(3) by (simp add: threads_step_def lock_mutex_def result_of_def)
  then show ?thesis by blast
next
  case True
  obtain q "txt" where sv: "serving (g\<lparr>lg_remote := q\<rparr>) txt (unlock_mutex (lt_logger s))"
    using inv by (auto simp: threads_inv_def)
  obtain j where j: "inside (lt_pc s j)" using True inv by (auto simp: threads_inv_def mutex_ok_def)
  then show ?thesis
  proof (cases "lt_pc s j")
    case (Locked now r)
    obtain u where "after_log (lt_logger s) (log_locked E now r (lt_logger s)) = Some u"
      using log_locked_returns [OF J sv True] by blast
    then have "threads_step E s (TLog j) \<noteq> None"
      using Locked assms(3) by (simp add: threads_step_def)
    then show ?thesis by blast
  next
    case Leaving
    then have "threads_step E s (TUnlock j) \<noteq> None" using assms(3) by (simp add: threads_step_def)
    then show ?thesis by blast
  qed simp_all
qed

section \<open>Property\<close>

definition threads_start :: "logger_state \<Rightarrow> log_threads" where
  "threads_start s = \<lparr>lt_logger = s, lt_pc = (\<lambda>_. Outside)\<rparr>"

lemma threads_start_inv: "serving g txt s \<Longrightarrow> threads_inv E g Map.empty (threads_start s)"
  by (auto simp: threads_inv_def threads_start_def mutex_ok_def serving_def unlock_mutex_def
      intro!: exI [of _ "lg_remote g"])

text \<open>
  C27. Threads that log at the same time are as good as one that does all the logging. Whatever their interleaving, with each
  other and with the client's completions, the instance is where a sequential run of whole uses of the macros leads,
  in which each thread's uses come in the order of its program, all of them except at most the one the thread is at. No two
  threads are under the mutex, and as long as some thread is inside a macro some thread can go on.
\<close>

theorem concurrent_logging:
  assumes "json_library (le_json E)" and "serving g txt s" and "exec (threads_step E) (threads_start s) fs = Some t"
  shows "exec (logger_step E) s (map snd (linear Map.empty fs)) = Some (unlock_mutex (lt_logger t))
    \<and> (\<forall>i. \<exists>q. uses_by i fs = logged_by i (linear Map.empty fs) @ pending_list q \<and> (lt_pc t i = Outside \<longrightarrow> q = None))
    \<and> (\<forall>i j. inside (lt_pc t i) \<longrightarrow> inside (lt_pc t j) \<longrightarrow> i = j)
    \<and> (\<forall>i. lt_pc t i \<noteq> Outside \<longrightarrow> \<not> remote_fault (lt_logger t) \<longrightarrow>
        (\<exists>j. threads_step E t (TLock j) \<noteq> None \<or> threads_step E t (TLog j) \<noteq> None \<or> threads_step E t (TUnlock j) \<noteq> None))"
proof -
  note inv = threads_start_inv [OF assms(2), of E]
  obtain p where p: "threads_inv E g p t" using threads_run [OF assms(1) inv assms(3)] by blast
  have s: "unlock_mutex (lt_logger (threads_start s)) = s"
    using assms(2) by (simp add: threads_start_def serving_def unlock_mutex_def)
  have "\<exists>q. uses_by i fs = logged_by i (linear Map.empty fs) @ pending_list q \<and> (lt_pc t i = Outside \<longrightarrow> q = None)" for i
    using program_order [OF assms(1) inv assms(3), of i] by (auto simp: pending_ok_def)
  moreover have "inside (lt_pc t i) \<longrightarrow> inside (lt_pc t j) \<longrightarrow> i = j" for i j
    using p unfolding threads_inv_def mutex_ok_def by blast
  ultimately show ?thesis
    using threads_run [OF assms(1) inv assms(3)] threads_progress [OF assms(1) p] unfolding s by blast
qed

definition demo_threads :: "thread_event list" where
  "demo_threads =
     [TBuild 0 0 None demo_log_site, TBuild 1 0 None demo_broken_site, TLock 1, TLog 1, TUnlock 1, TLock 0, TLog 0]"

lemma demo_argument:
  "log_argument demo_log_env 0 None demo_log_site (Ok empty_process_info) = Ok (LogMessage demo_message None)"
  "log_argument demo_log_env 0 None demo_broken_site (Ok empty_process_info)
    = Ok (LogException (StdExc ''n'' ''bad cast'') ''Info'' ''hello'')"
  by (simp_all add: log_argument_def demo_build) (simp add: demo_broken_site_def demo_log_site_def)

lemma demo_log_locked:
  assumes "s = (demo_logging None txt)\<lparr>ls_locked := True\<rparr>"
  shows "log_locked demo_log_env 0 (LogMessage demo_message None) s
      = Ok ((demo_logging None (txt @ no_remote_text (serialized demo_log_env demo_message)))\<lparr>ls_locked := True\<rparr>)"
    and "log_locked demo_log_env 0 (LogException x ty fmt) s
      = Ok ((demo_logging None (txt @ construct_failed_text demo_log_env x ty fmt))\<lparr>ls_locked := True\<rparr>)"
  by (simp_all add: assms log_locked_def M_maybeInstanciate_def log_route_def the_inst_def
      serialize_serialized [OF demo_library] fallback_write_def) (simp_all add: demo_logging_def demo_logger_def)

theorem concurrent_logging_witness:
  "\<exists>t. exec (threads_step demo_log_env) (threads_start (demo_logging None ''old'')) demo_threads = Some t \<and>
     exec (logger_step demo_log_env) (demo_logging None ''old'') [LLog 0 None demo_broken_site, LLog 0 None demo_log_site]
       = Some (unlock_mutex (lt_logger t)) \<and>
     lt_pc t 0 = Leaving \<and> lt_pc t 1 = Outside"
proof -
  have pi: "getProcessInfo (demo_logging None txt) = Ok empty_process_info"
    "getProcessInfo ((demo_logging None txt)\<lparr>ls_locked := b\<rparr>) = Ok empty_process_info" for "txt" b
    using getProcessInfo_serving [OF demo_serving] by (simp_all add: getProcessInfo_def the_inst_def)
  have un: "unlock_mutex (demo_logging None txt) = demo_logging None txt" for "txt"
    by (simp add: unlock_mutex_def demo_logging_def)
  obtain t where t: "exec (threads_step demo_log_env) (threads_start (demo_logging None ''old'')) demo_threads = Some t"
      "lt_pc t 0 = Leaving" "lt_pc t 1 = Outside"
    by (simp add: demo_threads_def threads_start_def threads_step_def pi demo_argument demo_log_locked lock_mutex_def un
        result_of_def after_log_def)
  moreover have "map snd (linear Map.empty demo_threads) = [LLog 0 None demo_broken_site, LLog 0 None demo_log_site]"
    by (simp add: demo_threads_def)
  ultimately show ?thesis
    using concurrent_logging [OF demo_library demo_serving t(1)] by auto
qed

end
