(* ===== verification/Log_App.thy ===== *)
theory Log_App
  imports Log_Logger
begin

text \<open>
  The example program \<^verbatim>\<open>examples/logapp\<close>: it initialises the logger, logs a message, throws an exception of a class of its own
  from the innermost of fifty calls, catches it and logs it. Between its statements the I/O thread of the client goes on.
\<close>

section \<open>The program\<close>

definition MyLocalExceptionType :: exc_class where
  "MyLocalExceptionType = UserException ''MyLocalExceptionType'' None RecoverableException"

definition logapp_site :: "cint \<Rightarrow> string \<Rightarrow> site" where
  "logapp_site line fn = \<lparr>st_file = ''src/main.cpp'', st_line = line, st_function = fn\<rparr>"

function foo :: "throw_env \<Rightarrow> int \<Rightarrow> unit res" where
  "foo B l =
     (if l - 1 \<le> 0
      then LESF_CORE_THROW B MyLocalExceptionType (logapp_site 45 ''operator()'')
             [Ok ''this is a bad exception '', Ok (int_dec 1234)] ''\"this is a bad exception \" << 1234''
      else foo B (l - 1))"
  by pat_completeness auto
termination by (relation "measure (\<lambda>(B, l). nat l)") auto

declare foo.simps [simp del]

definition logapp_trace :: log_site where
  "logapp_trace =
     \<lparr>lo_type = Trace, lo_site = logapp_site 37 ''main'', lo_pieces = [Ok ''simple log '', Ok (int_dec 123456)],
      lo_fmt = ''\"simple log \" << 123456'', lo_exc = None\<rparr>"

definition logapp_error :: "exc \<Rightarrow> log_site" where
  "logapp_error e =
     \<lparr>lo_type = Error, lo_site = logapp_site 55 ''main'', lo_pieces = [Ok ''log with exception''],
      lo_fmt = ''\"log with exception\"'', lo_exc = Some e\<rparr>"

text \<open>
  What \<^verbatim>\<open>main\<close> asks of the logger, with the clock and what \<^verbatim>\<open>send\<close> throws at each use of a macro. The \<^verbatim>\<open>catch\<close> clause
  takes any exception of the library; \<^verbatim>\<open>foo\<close> has no other outcome (\<open>foo_throws\<close>).
\<close>

definition logapp_main ::
  "'n log_env \<Rightarrow> bool \<Rightarrow> cint \<Rightarrow> cstr list option \<Rightarrow> int64 \<times> cpp_exc option \<Rightarrow> int64 \<times> cpp_exc option \<Rightarrow> log_event list" where
  "logapp_main E resolves argc argv u v =
     LInit resolves argc argv ServerPort (FallbackLogFilePrefix E) # LLog (fst u) (snd u) logapp_trace #
     (case foo (le_build E) 50 of
        Throw (CoreExc e) \<Rightarrow> if is_a (exc_cls e) Exception then [LLog (fst v) (snd v) (logapp_error e)] else []
      | _ \<Rightarrow> [])"

fun main_event :: "log_event \<Rightarrow> bool" where
  "main_event (LRemote ev) = False"
| "main_event e = True"

section \<open>What it throws and logs\<close>

definition bad_exception :: "throw_env \<Rightarrow> exc" where
  "bad_exception B = site_exception B MyLocalExceptionType (logapp_site 45 ''operator()'') ''this is a bad exception 1234''"

lemma foo_throws: "foo B l = Throw (CoreExc (bad_exception B))"
proof (induction "nat l" arbitrary: l rule: less_induct)
  case less
  have n: "int_dec 1234 = ''1234''" by code_simp
  show ?case
  proof (cases "l - 1 \<le> 0")
    case True
    have "info_string [] [Ok ''this is a bad exception '', Ok ''1234''] = Ok ''this is a bad exception 1234''" by simp
    then show ?thesis using True by (subst foo.simps) (simp add: n LESF_CORE_THROW_Ok bad_exception_def)
  next
    case False
    then show ?thesis using less [of "l - 1"] by (subst foo.simps) simp
  qed
qed

lemma logapp_main_events:
  "logapp_main E resolves argc argv u v =
     [LInit resolves argc argv ServerPort (FallbackLogFilePrefix E), LLog (fst u) (snd u) logapp_trace,
      LLog (fst v) (snd v) (logapp_error (bad_exception (le_build E)))]"
  by (simp add: logapp_main_def foo_throws)

definition trace_message :: "'n log_env \<Rightarrow> int64 \<Rightarrow> process_info \<Rightarrow> message" where
  "trace_message E now pi =
     Message now (type_code Trace) (log_build_info (le_build E) (logapp_site 37 ''main'')) pi ''simple log 123456''"

lemma build_trace: "build_message E now logapp_trace (Ok pi) = Ok (trace_message E now pi)"
proof -
  have "int_dec 123456 = ''123456''"
    by (simp add: int_dec_def nat_dec.simps digit_char_def char_of_def bit_0)
  then show ?thesis by (simp add: build_message_def logapp_trace_def trace_message_def Let_def)
qed

definition error_message :: "'n log_env \<Rightarrow> int64 \<Rightarrow> process_info \<Rightarrow> message" where
  "error_message E now pi =
     (Message now (type_code Error) (log_build_info (le_build E) (logapp_site 55 ''main'')) pi ''log with exception'')
       \<lparr>m_exception_info := Some
          \<lparr>ei_what = ''this is a bad exception 1234'', ei_rtti_type = le_rtti E (CoreExc (bad_exception (le_build E))),
           ei_build_info = log_build_info (le_build E) (logapp_site 45 ''operator()''),
           ei_trace = h_hex (le_hex E) (le_show_trace E (te_trace (le_build E)))\<rparr>\<rparr>"

lemma build_error:
  "build_message E now (logapp_error (bad_exception (le_build E))) (Ok pi) = Ok (error_message E now pi)"
proof -
  have "c_str ''this is a bad exception 1234'' = ''this is a bad exception 1234''" by code_simp
  then show ?thesis
    by (simp add: build_message_def logapp_error_def error_message_def Let_def Message_exception_def buildInfo_def
        debugInfo_def bad_exception_def site_build_info_def site_debug_info_def copy_build_info_def log_build_info_def)
qed

section \<open>Runs of the program\<close>

definition client_sends :: "client_event list \<Rightarrow> string list" where
  "client_sends cs = concat (map (\<lambda>c. case c of Send x \<Rightarrow> [x] | _ \<Rightarrow> []) cs)"

lemma client_sends_simps [simp]:
  "client_sends [] = []" "client_sends (c # cs) = (case c of Send x \<Rightarrow> [x] | _ \<Rightarrow> []) @ client_sends cs"
  "client_sends (cs @ ds) = client_sends cs @ client_sends ds" "client_sends (map Send xs) = xs"
  by (simp_all add: client_sends_def) (induction xs, simp_all)

text \<open>What is logged does not depend on the completions.\<close>

lemma logged_main:
  assumes "\<forall>ev. LRemote ev \<in> set es \<longrightarrow> io_event ev"
  shows "logged_text E g es = logged_text E g (filter main_event es)"
    and "client_sends (logged_events E g es) = client_sends (logged_events E g (filter main_event es))"
  using assms by (induction es) (auto simp: logged_def client_events_def split: log_event.splits client_event.splits)

lemma remote_events_io:
  assumes "exec (logger_step E) s es = Some t" and "LRemote ev \<in> set es"
  shows "io_event ev"
  using assms
  by (induction es arbitrary: s)
    (auto simp: logger_step_def remote_step_def split: option.splits if_splits)

text \<open>The first thing that happens is \<^verbatim>\<open>init\<close>: without an instance there is no client.\<close>

lemma logapp_starts:
  assumes "exec (logger_step E) (logger_start files) es = Some t"
    and "filter main_event es = LInit resolves argc argv port prefix # us"
  obtains es' s where "es = LInit resolves argc argv port prefix # es'" "filter main_event es' = us"
    "Logger_init E resolves argc argv port prefix (logger_start files) = Ok s" "exec (logger_step E) s es' = Some t"
proof (cases es)
  case (Cons e es')
  have "e \<noteq> LRemote ev" for ev
    using assms(1) Cons by (auto simp: logger_step_def remote_step_def logger_start_def)
  then have "main_event e" by (cases e) auto
  then have e: "e = LInit resolves argc argv port prefix" "filter main_event es' = us" using assms(2) Cons by simp_all
  then show ?thesis using assms(1) Cons that
    by (auto simp: logger_step_def result_of_def split: option.splits outcome.splits if_splits)
qed (use assms(2) in simp)

text \<open>A use of a macro that a serving instance can send.\<close>

lemma serving_log_step:
  assumes "json_library (le_json E)" and "serving g txt s" and "lg_remote g = Some c" and "cl_fault c = None"
    and "build_message E now l (process_info_of g) = Ok m"
  shows "logger_step E s (LLog now None l)
    = Some (s\<lparr>ls_inst := Some (g\<lparr>lg_remote := Some (send_step (serialized E m) c)\<rparr>)\<rparr>)"
  using assms(2-5) Logger_log_message [OF assms(1,2), of now m None]
  by (simp add: logger_step_def result_of_def log_use_def log_argument_def getProcessInfo_serving [OF assms(2)])
    (simp add: serving_def)

text \<open>
  C29. The example program logs what it says. Whatever the I/O thread of its client does in between, from \<^verbatim>\<open>init\<close> on the
  client is given two messages and nothing else, in this order: the trace, and the error with the description, the class and
  the place of the exception that was thrown below fifty calls; the fallback file stays empty.
\<close>

theorem logapp_logs:
  assumes "json_library (le_json E)" and "le_can_open E (fallback_name E (FallbackLogFilePrefix E))"
    and "files (fallback_name E (FallbackLogFilePrefix E)) = None" and "argc \<noteq> 0"
    and "filter main_event es = logapp_main E True argc (Some (Some prog # vs)) (now, None) (now', None)"
    and "exec (logger_step E) (logger_start files) es = Some t"
  shows "\<exists>g d cs. ls_inst t = Some g \<and> lg_remote g = Some d
    \<and> exec client_step (M_doConnect True client_blank) cs = Some d
    \<and> client_sends cs =
        [serialized E (trace_message E now \<lparr>pi_process = prog, pi_pid = le_pid E\<rparr>),
         serialized E (error_message E now' \<lparr>pi_process = prog, pi_pid = le_pid E\<rparr>)]
    \<and> ls_files t (fallback_name E (FallbackLogFilePrefix E)) = Some []"
proof -
  let ?pi = "\<lparr>pi_process = prog, pi_pid = le_pid E\<rparr>"
  let ?us = "[LLog now None logapp_trace, LLog now' None (logapp_error (bad_exception (le_build E)))]"
  obtain es' s where s: "filter main_event es' = ?us"
      "Logger_init E True argc (Some (Some prog # vs)) ServerPort (FallbackLogFilePrefix E) (logger_start files) = Ok s"
      "exec (logger_step E) s es' = Some t"
    using logapp_starts [OF assms(6) assms(5) [unfolded logapp_main_events fst_conv snd_conv]] by metis
  obtain g where g: "serving g [] s" "lg_fallback_fn g = fallback_name E (FallbackLogFilePrefix E)"
      "lg_remote g = Some (M_doConnect True client_blank)"
    using Logger_init_serving [OF s(2) assms(2)] assms(3) by (auto simp: init_text_def new_client_def)
  have pi: "process_info_of g = Ok ?pi"
    using s(2) g(1) assms(4)
    by (auto simp: Logger_init_def lock_mutex_def logger_start_def Logger_ctor_def set_inst_def new_client_def
        unlock_mutex_def serving_def process_info_of_def Let_def)
  have service: "\<forall>e \<in> set es'. in_service e"
  proof
    fix e assume "e \<in> set es'"
    show "in_service e"
    proof (cases "main_event e")
      case True
      with \<open>e \<in> set es'\<close> have "e \<in> set (filter main_event es')" by simp
      then show ?thesis unfolding s(1) by auto
    qed (cases e; simp)
  qed
  have io: "\<forall>ev. LRemote ev \<in> set es' \<longrightarrow> io_event ev" using remote_events_io [OF s(3)] by blast
  have us: "logged_text E g ?us = []"
      "client_sends (logged_events E g ?us) = [serialized E (trace_message E now ?pi), serialized E (error_message E now' ?pi)]"
    using g(3) by (simp_all add: logged_def client_events_def pi build_trace build_error)
  have alive: "\<not> cl_terminate (M_doConnect True client_blank)" by (simp add: M_doConnect_def client_blank_def)
  obtain r where r: "serving (g\<lparr>lg_remote := r\<rparr>) (logged_text E g es') t"
      "\<exists>d. r = Some d \<and> exec client_step (M_doConnect True client_blank) (logged_events E g es') = Some d"
    using logger_run_serving [OF assms(1) g(1) service s(3)] g(3) alive by auto
  then obtain d where d: "r = Some d" "exec client_step (M_doConnect True client_blank) (logged_events E g es') = Some d"
    by blast
  have "ls_inst t = Some (g\<lparr>lg_remote := Some d\<rparr>)" "ls_files t (fallback_name E (FallbackLogFilePrefix E)) = Some []"
    using r(1) d(1) g(2) logged_main(1) [OF io, of E g] us(1) s(1) by (simp_all add: serving_def)
  then show ?thesis using d(2) logged_main(2) [OF io, of E g] us(2) s(1)
    by (intro exI [of _ "g\<lparr>lg_remote := Some d\<rparr>"] exI [of _ d] exI [of _ "logged_events E g es'"]) simp
qed

theorem logapp_logs_witness:
  "\<exists>t g d cs x y. exec (logger_step demo_log_env) (logger_start (\<lambda>_. None))
       (logapp_main demo_log_env True 1 (Some [Some ''logapp'']) (5, None) (6, None)) = Some t
    \<and> ls_inst t = Some g \<and> lg_remote g = Some d \<and> exec client_step (M_doConnect True client_blank) cs = Some d
    \<and> client_sends cs = [x, y]"
proof -
  let ?es = "logapp_main demo_log_env True 1 (Some [Some ''logapp'']) (5, None) (6, None)"
  let ?prefix = "FallbackLogFilePrefix demo_log_env"
  let ?c = "M_doConnect True client_blank"
  have main: "filter main_event ?es = ?es" by (simp add: logapp_main_events)
  have opens: "le_can_open demo_log_env (fallback_name demo_log_env ?prefix)" by (simp add: demo_log_env_def)
  let ?m = "trace_message demo_log_env 5 \<lparr>pi_process = ''logapp'', pi_pid = 77\<rparr>"
  obtain s where s: "Logger_init demo_log_env True 1 (Some [Some ''logapp'']) ServerPort ?prefix (logger_start (\<lambda>_. None)) = Ok s"
    by (simp add: Logger_init_def lock_mutex_def logger_start_def Logger_ctor_def new_client_def Let_def)
  obtain g where g: "serving g [] s" "lg_remote g = Some ?c"
    using Logger_init_serving [OF s opens] by (auto simp: init_text_def new_client_def)
  have pi: "process_info_of g = Ok \<lparr>pi_process = ''logapp'', pi_pid = 77\<rparr>"
    using s g(1)
    by (auto simp: Logger_init_def lock_mutex_def logger_start_def Logger_ctor_def set_inst_def new_client_def
        unlock_mutex_def serving_def process_info_of_def demo_log_env_def Let_def)
  have len: "length (serialized demo_log_env ?m) < 10 ^ HeaderSize"
  proof -
    have "length (serialized demo_log_env ?m) < 1000" by code_simp
    then show ?thesis by (simp add: HeaderSize_def)
  qed
  have c: "cl_fault ?c = None" "cl_fault (send_step (serialized demo_log_env ?m) ?c) = None"
    by (simp_all add: M_doConnect_def client_blank_def send_step_Ok [OF len])
  let ?h = "g\<lparr>lg_remote := Some (send_step (serialized demo_log_env ?m) ?c)\<rparr>"
  have h: "serving ?h [] (s\<lparr>ls_inst := Some ?h\<rparr>)" "process_info_of ?h = process_info_of g"
    using g(1) by (simp_all add: serving_def process_info_of_def split: option.split list.split)
  have "\<not> remote_fault (logger_start (\<lambda>_. None))" by (simp add: logger_start_def)
  then obtain t where t: "exec (logger_step demo_log_env) (logger_start (\<lambda>_. None)) ?es = Some t"
    using s serving_log_step [OF demo_library g c(1), of 5 logapp_trace ?m]
      serving_log_step [OF demo_library h(1) _ c(2), of 6 "logapp_error (bad_exception (le_build demo_log_env))"]
    by (simp add: logapp_main_events logger_step_def result_of_def pi h(2) build_trace build_error)
  from logapp_logs [OF demo_library opens refl one_neq_zero main t] t show ?thesis
    by (elim exE conjE, intro exI conjI) assumption+
qed

end
