(* ===== verification/Daemon.thy ===== *)
theory Daemon
  imports Lesf_Prelude
begin

text \<open>
  \<^verbatim>\<open>lesf::daemon\<close> (\<^verbatim>\<open>src/daemon/daemonize.cpp\<close>, \<^verbatim>\<open>inc/lesf/daemon/\<close>): the body of \<^verbatim>\<open>daemonize\<close>, the signal handler
  and \<^verbatim>\<open>daemon_try_cleanup\<close> as sequences of instructions, one per statement, that processes execute on a
  kernel with file names, inodes, record locks and signals. Processes interleave at every instruction; a
  signal inserts the handler's instructions in front of those that are left.
\<close>

section \<open>The program\<close>

datatype signo = SIGINT | SIGTERM | SIGHUP | SIGSEGV | SIGABRT | SIGCHLD

datatype disposition = SIG_DFL | SIG_IGN | Handler

datatype instr =
    Save_Data
  | Fork
  | Setsid
  | Signal signo disposition
  | Umask
  | Chdir
  | Close nat
  | Open_Null
  | Open_Log
  | Dup_Log
  | Open_Lock
  | Lock_File
  | Write_Pid
  | Print_Header
  | Construct
  | Run
  | Delete_Service
  | Unlock
  | Close_Lock
  | Unlink_Lock
  | Stop
  | Restart
  | Raise_Abort
  | Sigreturn signo
  | Exit_Success

definition daemon_try_cleanup :: "instr list" where
  "daemon_try_cleanup = [Unlock, Close_Lock, Unlink_Lock]"

text \<open>The handler's body for a signal; \<open>Sigreturn\<close> is the return from it.\<close>

definition daemon_signal_handler :: "signo \<Rightarrow> instr list" where
  "daemon_signal_handler s =
     (if s = SIGINT \<or> s = SIGTERM then daemon_try_cleanup @ [Stop, Signal s SIG_DFL]
      else if s = SIGHUP then [Restart]
      else if s = SIGSEGV \<or> s = SIGABRT then Signal s SIG_DFL # daemon_try_cleanup @ [Raise_Abort]
      else []) @ [Sigreturn s]"

definition daemonize :: "instr list" where
  "daemonize =
     [Save_Data, Fork, Setsid, Signal SIGCHLD SIG_IGN, Fork, Umask, Chdir, Close 0, Close 1, Close 2,
      Open_Null, Open_Log, Dup_Log, Open_Lock, Lock_File, Write_Pid, Signal SIGINT Handler,
      Signal SIGTERM Handler, Signal SIGHUP Handler, Signal SIGSEGV Handler, Signal SIGABRT Handler,
      Print_Header, Construct, Run, Delete_Service] @ daemon_try_cleanup @ [Exit_Success]"

section \<open>Processes and the kernel\<close>

datatype service_ptr = SNull | SLive | SDeleted

datatype status = Exited int | Killed signo | Faulted ub

text \<open>
  \<open>p_fds\<close> gives the inode of each open descriptor, \<open>p_lockfile_fd\<close> and \<open>p_service\<close> are members of
  \<^verbatim>\<open>daemon_data\<close>, \<open>p_stopped\<close> says that \<^verbatim>\<open>stop()\<close> of the service was called, \<open>p_active\<close> lists the signals
  whose handler runs, which are blocked meanwhile. \<open>p_lock_pos\<close> is the position in the lock file, where \<^verbatim>\<open>lockf\<close>
  begins to lock and to unlock.
\<close>

record proc =
  p_code :: "instr list"
  p_fds :: "nat option list"
  p_leader :: bool
  p_umask :: nat
  p_cwd :: string
  p_handlers :: "signo \<Rightarrow> disposition"
  p_active :: "signo list"
  p_lockfile_fd :: nat
  p_lock_pos :: nat
  p_service :: service_ptr
  p_stopped :: bool

text \<open>
  \<open>k_locks\<close> maps an inode to the process that holds a record lock on some bytes of it. Every lock here is asked for
  from position 0 to the end, so that any byte held by another process refuses it. \<open>k_date\<close> is what \<^verbatim>\<open>strftime\<close> prints.
\<close>

record kernel =
  k_procs :: "nat \<Rightarrow> proc option"
  k_status :: "nat \<Rightarrow> status option"
  k_names :: "string \<Rightarrow> nat option"
  k_locks :: "nat \<Rightarrow> nat option"
  k_text :: "nat \<Rightarrow> string"
  k_next :: nat
  k_program :: string
  k_date :: string

definition LogFile :: "kernel \<Rightarrow> string" where
  "LogFile k = ''/var/log/'' @ k_program k @ ''.log''"

definition LockFile :: "kernel \<Rightarrow> string" where
  "LockFile k = ''/var/run/'' @ k_program k"

definition set_proc :: "nat \<Rightarrow> proc \<Rightarrow> kernel \<Rightarrow> kernel" where
  "set_proc pid p k = k\<lparr>k_procs := (k_procs k)(pid \<mapsto> p)\<rparr>"

text \<open>The end of a process, however it ends, releases its locks.\<close>

definition end_process :: "nat \<Rightarrow> status \<Rightarrow> kernel \<Rightarrow> kernel" where
  "end_process pid st k =
     k\<lparr>k_procs := (k_procs k)(pid := None), k_status := (k_status k)(pid \<mapsto> st),
       k_locks := (\<lambda>i. if k_locks k i = Some pid then None else k_locks k i)\<rparr>"

definition EXIT_SUCCESS :: int where "EXIT_SUCCESS = 0"
definition EXIT_FAILURE :: int where "EXIT_FAILURE = 1"

definition exit_failure :: "nat \<Rightarrow> kernel \<Rightarrow> kernel" where
  "exit_failure pid k = end_process pid (Exited EXIT_FAILURE) k"

section \<open>Files and descriptors\<close>

text \<open>A new descriptor is the lowest one that is free.\<close>

fun alloc_fd :: "nat option list \<Rightarrow> nat \<Rightarrow> nat \<times> nat option list" where
  "alloc_fd [] i = (0, [Some i])"
| "alloc_fd (None # fs) i = (0, Some i # fs)"
| "alloc_fd (Some j # fs) i = apfst Suc (apsnd (Cons (Some j)) (alloc_fd fs i))"

definition fd_inode :: "nat option list \<Rightarrow> nat \<Rightarrow> nat option" where
  "fd_inode fs n = (if n < length fs then fs ! n else None)"

text \<open>The inode a name stands for, created when it does not exist.\<close>

definition creat :: "string \<Rightarrow> kernel \<Rightarrow> nat \<times> kernel" where
  "creat name k =
     (case k_names k name of Some i \<Rightarrow> (i, k)
      | None \<Rightarrow> (k_next k, k\<lparr>k_names := (k_names k)(name \<mapsto> k_next k),
                           k_text := (k_text k)(k_next k := []), k_next := k_next k + 1\<rparr>))"

definition release :: "nat \<Rightarrow> nat option \<Rightarrow> kernel \<Rightarrow> kernel" where
  "release pid i k =
     k\<lparr>k_locks := (\<lambda>j. if Some j = i \<and> k_locks k j = Some pid then None else k_locks k j)\<rparr>"

text \<open>Closing any descriptor of a file releases the record locks the process holds on it.\<close>

definition close_fd :: "nat \<Rightarrow> nat \<Rightarrow> proc \<Rightarrow> kernel \<Rightarrow> kernel" where
  "close_fd pid n p k = set_proc pid (p\<lparr>p_fds := (p_fds p)[n := None]\<rparr>) (release pid (fd_inode (p_fds p) n) k)"

text \<open>
  \<^verbatim>\<open>open\<close> and \<^verbatim>\<open>dup\<close> in \<^verbatim>\<open>daemonize\<close> are followed by a test of the descriptor they give; \<open>want\<close> is the number
  tested for.
\<close>

definition redirect :: "nat \<Rightarrow> nat \<Rightarrow> nat \<Rightarrow> proc \<Rightarrow> kernel \<Rightarrow> kernel" where
  "redirect pid want i p k =
     (let (n, fs) = alloc_fd (p_fds p) i
      in if n \<noteq> want then exit_failure pid k else set_proc pid (p\<lparr>p_fds := fs\<rparr>) k)"

text \<open>\<^verbatim>\<open>write\<close> at the start of a file that was not truncated.\<close>

definition overwrite :: "string \<Rightarrow> string \<Rightarrow> string" where
  "overwrite new old = new @ drop (length new) old"

definition header_line :: string where
  "header_line = replicate 60 (CHR ''='')"

definition pad_left :: "nat \<Rightarrow> string \<Rightarrow> string" where
  "pad_left n s = replicate (n - length s) (CHR '' '') @ s"

definition log_header :: "string \<Rightarrow> nat \<Rightarrow> string" where
  "log_header date pid =
     [CHR 0x0A] @ header_line @ [CHR 0x0A] @ date @ '' | new daemon invocation (pid '' @
     pad_left 5 (nat_dec pid) @ '')'' @ [CHR 0x0A] @ header_line @ [CHR 0x0A, CHR 0x0A]"

section \<open>Execution\<close>

text \<open>
  One instruction of process \<open>pid\<close>, whose state \<open>p\<close> has the instruction already removed. \<open>fails\<close> says that the
  system call fails, or that the service's constructor or its \<^verbatim>\<open>run\<close> throws; \<open>child\<close> is the process number that \<^verbatim>\<open>fork\<close>
  gives.
  The parent of a successful \<^verbatim>\<open>fork\<close> exits. What they throw leaves \<^verbatim>\<open>daemonize\<close>; no caller catches it, as
  in the log server program, and the process aborts. After the process number was written \<^verbatim>\<open>Unlock\<close> begins behind
  it, and it is the closing of the file that lets the lock go. \<open>None\<close>: the instruction cannot be executed with these
  choices.
\<close>

fun execute :: "nat \<Rightarrow> bool \<Rightarrow> nat \<Rightarrow> instr \<Rightarrow> proc \<Rightarrow> kernel \<Rightarrow> kernel option" where
  "execute pid fails child Save_Data p k = Some (set_proc pid (p\<lparr>p_service := SNull\<rparr>) k)"
| "execute pid fails child Fork p k =
     (if fails then Some (exit_failure pid k)
      else if child = pid \<or> k_procs k child \<noteq> None \<or> k_status k child \<noteq> None then None
      else Some (end_process pid (Exited EXIT_SUCCESS) (set_proc child (p\<lparr>p_leader := False\<rparr>) k)))"
| "execute pid fails child Setsid p k =
     Some (if fails then exit_failure pid k else set_proc pid (p\<lparr>p_leader := True\<rparr>) k)"
| "execute pid fails child (Signal s d) p k =
     Some (set_proc pid (p\<lparr>p_handlers := (p_handlers p)(s := d)\<rparr>) k)"
| "execute pid fails child Umask p k = Some (set_proc pid (p\<lparr>p_umask := 0\<rparr>) k)"
| "execute pid fails child Chdir p k =
     Some (if fails then exit_failure pid k else set_proc pid (p\<lparr>p_cwd := ''/''\<rparr>) k)"
| "execute pid fails child (Close n) p k = Some (close_fd pid n p k)"
| "execute pid fails child Open_Null p k =
     (case k_names k ''/dev/null'' of None \<Rightarrow> Some (exit_failure pid k)
      | Some i \<Rightarrow> Some (if fails then exit_failure pid k else redirect pid 0 i p k))"
| "execute pid fails child Open_Log p k =
     Some (if fails then exit_failure pid k else let (i, k) = creat (LogFile k) k in redirect pid 1 i p k)"
| "execute pid fails child Dup_Log p k =
     (case fd_inode (p_fds p) 1 of None \<Rightarrow> Some (exit_failure pid k)
      | Some i \<Rightarrow> Some (if fails then exit_failure pid k else redirect pid 2 i p k))"
| "execute pid fails child Open_Lock p k =
     Some (if fails then exit_failure pid k
           else let (i, k) = creat (LockFile k) k; (n, fs) = alloc_fd (p_fds p) i
                in set_proc pid (p\<lparr>p_fds := fs, p_lockfile_fd := n, p_lock_pos := 0\<rparr>) k)"
| "execute pid fails child Lock_File p k =
     (case fd_inode (p_fds p) (p_lockfile_fd p) of None \<Rightarrow> Some (exit_failure pid k)
      | Some i \<Rightarrow> Some (if fails \<or> (k_locks k i \<noteq> None \<and> k_locks k i \<noteq> Some pid) then exit_failure pid k
                   else set_proc pid p (k\<lparr>k_locks := (k_locks k)(i \<mapsto> pid)\<rparr>)))"
| "execute pid fails child Write_Pid p k =
     (case fd_inode (p_fds p) (p_lockfile_fd p) of None \<Rightarrow> Some (set_proc pid p k)
      | Some i \<Rightarrow> Some (if fails then set_proc pid p k
          else set_proc pid (p\<lparr>p_lock_pos := p_lock_pos p + length (nat_dec pid)\<rparr>)
            (k\<lparr>k_text := (k_text k)(i := overwrite (nat_dec pid) (k_text k i))\<rparr>)))"
| "execute pid fails child Print_Header p k =
     (case fd_inode (p_fds p) 1 of None \<Rightarrow> Some (set_proc pid p k)
      | Some i \<Rightarrow> Some (set_proc pid p
          (if fails then k else k\<lparr>k_text := (k_text k)(i := k_text k i @ log_header (k_date k) pid)\<rparr>)))"
| "execute pid fails child Construct p k =
     Some (set_proc pid (if fails then p\<lparr>p_code := Raise_Abort # p_code p\<rparr> else p\<lparr>p_service := SLive\<rparr>) k)"
| "execute pid fails child Run p k = Some (set_proc pid (if fails then p\<lparr>p_code := Raise_Abort # p_code p\<rparr> else p) k)"
| "execute pid fails child Delete_Service p k = Some (set_proc pid (p\<lparr>p_service := SDeleted\<rparr>) k)"
| "execute pid fails child Unlock p k =
     Some (set_proc pid p (if p_lock_pos p = 0 then release pid (fd_inode (p_fds p) (p_lockfile_fd p)) k else k))"
| "execute pid fails child Close_Lock p k = Some (close_fd pid (p_lockfile_fd p) p k)"
| "execute pid fails child Unlink_Lock p k =
     Some (set_proc pid p (if fails then k else k\<lparr>k_names := (k_names k)(LockFile k := None)\<rparr>))"
| "execute pid fails child Stop p k =
     Some (case p_service p of SNull \<Rightarrow> end_process pid (Faulted Null_Deref) k
           | SDeleted \<Rightarrow> end_process pid (Faulted Use_After_Free) k
           | SLive \<Rightarrow> set_proc pid (p\<lparr>p_stopped := True\<rparr>) k)"
| "execute pid fails child Restart p k =
     Some (case p_service p of SNull \<Rightarrow> end_process pid (Faulted Null_Deref) k
           | SDeleted \<Rightarrow> end_process pid (Faulted Use_After_Free) k
           | SLive \<Rightarrow> set_proc pid p k)"
| "execute pid fails child Raise_Abort p k =
     Some (if p_handlers p SIGABRT = Handler
           then set_proc pid (p\<lparr>p_code := daemon_signal_handler SIGABRT @ p_code p,
                               p_active := SIGABRT # p_active p\<rparr>) k
           else end_process pid (Killed SIGABRT) k)"
| "execute pid fails child (Sigreturn s) p k = Some (set_proc pid (p\<lparr>p_active := remove1 s (p_active p)\<rparr>) k)"
| "execute pid fails child Exit_Success p k = Some (end_process pid (Exited EXIT_SUCCESS) k)"

text \<open>
  The scheduler lets a process execute its next instruction, or the kernel delivers a signal to it. A
  signal whose handler runs stays pending. The default action of \<^verbatim>\<open>SIGCHLD\<close> is to do nothing.
\<close>

datatype kernel_event = Step nat bool nat | Deliver nat signo

fun kernel_step :: "kernel \<Rightarrow> kernel_event \<Rightarrow> kernel option" where
  "kernel_step k (Step pid fails child) =
     (case k_procs k pid of None \<Rightarrow> None
      | Some p \<Rightarrow> (case p_code p of [] \<Rightarrow> None
        | i # code \<Rightarrow> execute pid fails child i (p\<lparr>p_code := code\<rparr>) k))"
| "kernel_step k (Deliver pid s) =
     (case k_procs k pid of None \<Rightarrow> None
      | Some p \<Rightarrow> if s \<in> set (p_active p) then None
        else (case p_handlers p s of
            SIG_IGN \<Rightarrow> Some k
          | SIG_DFL \<Rightarrow> Some (if s = SIGCHLD then k else end_process pid (Killed s) k)
          | Handler \<Rightarrow> Some (set_proc pid
              (p\<lparr>p_code := daemon_signal_handler s @ p_code p, p_active := s # p_active p\<rparr>) k)))"

declare execute.simps [simp del]

lemmas kernel_defs =
  set_proc_def end_process_def exit_failure_def close_fd_def release_def redirect_def creat_def LogFile_def
  LockFile_def

section \<open>Descriptors\<close>

lemma fd_inode_simps [simp]:
  "fd_inode [] n = None" "fd_inode (x # fs) 0 = x" "fd_inode (x # fs) (Suc n) = fd_inode fs n"
  by (simp_all add: fd_inode_def)

lemma alloc_fd_spec:
  "alloc_fd fs i = (n, gs) \<Longrightarrow>
     fd_inode gs m = (if m = n then Some i else fd_inode fs m) \<and> fd_inode fs n = None \<and>
     (m < n \<longrightarrow> fd_inode fs m \<noteq> None)"
proof (induction fs i arbitrary: n gs m rule: alloc_fd.induct)
  case (1 i)
  then show ?case by (cases m) auto
next
  case (2 fs i)
  then show ?case by (cases m) auto
next
  case (3 j fs i)
  obtain n' gs' where "alloc_fd fs i = (n', gs')" by fastforce
  then show ?case using "3.prems" "3.IH" [of n' gs' "m - 1"] by (cases m) auto
qed

section \<open>One instance\<close>

definition past_lock :: "proc \<Rightarrow> bool" where
  "past_lock p \<longleftrightarrow> Lock_File \<notin> set (p_code p)"

text \<open>
  A quiet step is one that does not end a daemon: no signal is delivered, the service does not return
  from \<^verbatim>\<open>run\<close> and its constructor does not throw. Daemons may start, compete and fail to start.
\<close>

definition quiet_step :: "kernel \<Rightarrow> kernel_event \<Rightarrow> kernel option" where
  "quiet_step k e =
     (case e of Deliver pid s \<Rightarrow> None
      | Step pid fails child \<Rightarrow>
          (case k_procs k pid of None \<Rightarrow> None
           | Some p \<Rightarrow> (case p_code p of [] \<Rightarrow> None
             | i # code \<Rightarrow> if i = Run \<or> i = Construct \<and> fails then None else kernel_step k e)))"

text \<open>A daemon before its \<open>n\<close>-th instruction: what it holds of the lock file, and what it has set up.\<close>

definition lock_at :: "kernel \<Rightarrow> nat \<Rightarrow> nat \<Rightarrow> proc \<Rightarrow> bool" where
  "lock_at k n pid p \<longleftrightarrow>
     (14 \<le> n \<longrightarrow> (\<exists>i. k_names k (LockFile k) = Some i \<and> fd_inode (p_fds p) (p_lockfile_fd p) = Some i \<and>
        (15 \<le> n \<longrightarrow> k_locks k i = Some pid)))"

definition ready_at :: "kernel \<Rightarrow> nat \<Rightarrow> proc \<Rightarrow> bool" where
  "ready_at k n p \<longleftrightarrow>
     (4 \<le> n \<longrightarrow> p_handlers p SIGCHLD = SIG_IGN) \<and> (5 \<le> n \<longrightarrow> \<not> p_leader p) \<and> (6 \<le> n \<longrightarrow> p_umask p = 0) \<and>
     (7 \<le> n \<longrightarrow> p_cwd p = ''/'') \<and>
     (11 \<le> n \<longrightarrow> k_names k ''/dev/null'' \<noteq> None \<and> fd_inode (p_fds p) 0 = k_names k ''/dev/null'') \<and>
     (12 \<le> n \<longrightarrow> k_names k (LogFile k) \<noteq> None \<and> fd_inode (p_fds p) 1 = k_names k (LogFile k)) \<and>
     (13 \<le> n \<longrightarrow> fd_inode (p_fds p) 2 = k_names k (LogFile k)) \<and>
     (17 \<le> n \<longrightarrow> p_handlers p SIGINT = Handler) \<and> (18 \<le> n \<longrightarrow> p_handlers p SIGTERM = Handler) \<and>
     (19 \<le> n \<longrightarrow> p_handlers p SIGHUP = Handler) \<and> (20 \<le> n \<longrightarrow> p_handlers p SIGSEGV = Handler) \<and>
     (21 \<le> n \<longrightarrow> p_handlers p SIGABRT = Handler) \<and> (23 \<le> n \<longrightarrow> p_service p = SLive)"

definition daemon_at :: "kernel \<Rightarrow> nat \<Rightarrow> nat \<Rightarrow> proc \<Rightarrow> bool" where
  "daemon_at k n pid p \<longleftrightarrow> p_code p = drop n daemonize \<and> n \<le> 23 \<and> lock_at k n pid p \<and> ready_at k n p"

definition daemon_inv :: "kernel \<Rightarrow> bool" where
  "daemon_inv k \<longleftrightarrow> (\<forall>pid p. k_procs k pid = Some p \<longrightarrow> (\<exists>n. daemon_at k n pid p))"

text \<open>What the instructions up to \<^verbatim>\<open>run\<close> leave alone.\<close>

definition starting :: "instr \<Rightarrow> bool" where
  "starting i \<longleftrightarrow> i \<in> set (take 23 daemonize)"

lemma starting_cases:
  assumes "starting i"
  obtains "i = Save_Data" | "i = Fork" | "i = Setsid" | s d where "i = Signal s d" | "i = Umask" | "i = Chdir"
  | m where "i = Close m" | "i = Open_Null" | "i = Open_Log" | "i = Dup_Log" | "i = Open_Lock" | "i = Lock_File"
  | "i = Write_Pid" | "i = Print_Header" | "i = Construct"
  using assms by (auto simp: starting_def daemonize_def)

lemma starting_names:
  assumes "starting i" and "execute pid fails child i p k = Some t"
  shows "LockFile t = LockFile k" and "k_names k nm = Some j \<Longrightarrow> k_names t nm = Some j"
  using assms(2)
  by (cases rule: starting_cases [OF assms(1)];
      auto simp: execute.simps kernel_defs Let_def split: if_splits option.splits prod.splits)+

text \<open>What any instruction of a process leaves to the others.\<close>

lemma execute_names:
  assumes "execute pid fails child i p k = Some t"
  shows "k_program t = k_program k" and "k_names k nm = Some j \<Longrightarrow> nm \<noteq> LockFile k \<Longrightarrow> k_names t nm = Some j"
  using assms
  by (cases i; auto simp: execute.simps kernel_defs Let_def split: if_splits option.splits prod.splits service_ptr.splits)+

lemma execute_locks:
  assumes "execute pid fails child i p k = Some t" and "k_locks k j = Some q" and "q \<noteq> pid"
  shows "k_locks t j = Some q"
  using assms
  by (cases i)
    (auto simp: execute.simps kernel_defs Let_def split: if_splits option.splits prod.splits service_ptr.splits)

lemma execute_others:
  assumes "execute pid fails child i p k = Some t" and "q \<noteq> pid"
  shows "k_procs t q = (if i = Fork \<and> \<not> fails \<and> q = child then Some (p\<lparr>p_leader := False\<rparr>) else k_procs k q)"
  using assms
  by (cases i)
    (auto simp: execute.simps kernel_defs Let_def split: if_splits option.splits prod.splits service_ptr.splits)

lemma starting_code:
  assumes "starting i" and "execute pid fails child i p k = Some t" and "k_procs t pid = Some q"
    and "\<not> (i = Construct \<and> fails)"
  shows "p_code q = p_code p"
  using assms(2-)
  by (cases rule: starting_cases [OF assms(1)];
      auto simp: execute.simps kernel_defs Let_def split: if_splits option.splits prod.splits)

lemma drop_daemonize:
  assumes "drop n daemonize = i # code" and "n \<le> 23" and "i \<noteq> Run"
  shows "n < 23" and "starting i" and "code = drop (Suc n) daemonize" and "i = daemonize ! n"
proof -
  have len: "n < length daemonize" using assms(2) by (simp add: daemonize_def daemon_try_cleanup_def)
  then have "drop n daemonize = daemonize ! n # drop (Suc n) daemonize" by (simp add: Cons_nth_drop_Suc)
  then show i: "code = drop (Suc n) daemonize" "i = daemonize ! n" using assms(1) by simp_all
  have "daemonize ! 23 = Run" by (simp add: daemonize_def)
  then show n: "n < 23" using assms(2,3) i by (cases "n = 23") auto
  have "daemonize ! n = take 23 daemonize ! n" using n by simp
  also have "\<dots> \<in> set (take 23 daemonize)" using n len by (intro nth_mem) simp
  finally show "starting i" using i by (simp add: starting_def)
qed

lemma open_lock_at:
  assumes "execute pid fails child Open_Lock p k = Some t" and "k_procs t pid = Some q"
  shows "lock_at t 14 pid q"
proof -
  obtain i k' where c: "creat (LockFile k) k = (i, k')" by fastforce
  obtain n fs where a: "alloc_fd (p_fds p) i = (n, fs)" by fastforce
  have i: "k_names k' (LockFile k) = Some i" "LockFile k' = LockFile k"
    using c by (auto simp: creat_def LockFile_def split: option.splits)
  from assms have "q = p\<lparr>p_fds := fs, p_lockfile_fd := n, p_lock_pos := 0\<rparr>" "t = set_proc pid q k'"
    using c a by (auto simp: execute.simps kernel_defs split: if_splits)
  then show ?thesis
    using i alloc_fd_spec [OF a, of n] by (simp add: lock_at_def set_proc_def LockFile_def)
qed

lemma lock_file_at:
  assumes "execute pid fails child Lock_File p k = Some t" and "k_procs t pid = Some q"
    and "k_names k (LockFile k) = Some i" and "fd_inode (p_fds p) (p_lockfile_fd p) = Some i"
  shows "lock_at t 15 pid q"
  using assms
  by (auto simp: execute.simps lock_at_def set_proc_def exit_failure_def end_process_def LockFile_def split: if_splits)

lemma settled_fds:
  assumes "execute pid fails child i p k = Some t" and "k_procs t pid = Some q"
    and "i = Write_Pid \<or> (\<exists>s d. i = Signal s d) \<or> i = Print_Header \<or> i = Construct"
  shows "p_fds q = p_fds p \<and> p_lockfile_fd q = p_lockfile_fd p \<and> k_locks t = k_locks k"
  using assms by (auto simp: execute.simps kernel_defs split: if_splits option.splits)

lemma settled_instr:
  assumes "15 \<le> n" and "n < 23"
  shows "daemonize ! n = Write_Pid \<or> (\<exists>s d. daemonize ! n = Signal s d) \<or> daemonize ! n = Print_Header \<or>
         daemonize ! n = Construct"
proof -
  have "n = 15 \<or> n = 16 \<or> n = 17 \<or> n = 18 \<or> n = 19 \<or> n = 20 \<or> n = 21 \<or> n = 22" using assms by arith
  then show ?thesis by (elim disjE) (simp_all add: daemonize_def)
qed

lemma lock_own:
  assumes at: "daemon_at k n pid p" and n: "n < 23" "starting i" "i = daemonize ! n"
    and ex: "execute pid fails child i (p\<lparr>p_code := code\<rparr>) k = Some t" and q: "k_procs t pid = Some q"
  shows "lock_at t (Suc n) pid q"
proof -
  consider "Suc n \<le> 13" | "n = 13" | "n = 14" | "15 \<le> n" by linarith
  then show ?thesis
  proof cases
    case 1
    then show ?thesis by (simp add: lock_at_def)
  next
    case 2
    then have "i = Open_Lock" using n(3) by (simp add: daemonize_def)
    then show ?thesis using open_lock_at [OF _ q] ex 2 by auto
  next
    case 3
    then have "i = Lock_File" using n(3) by (simp add: daemonize_def)
    moreover obtain j where "k_names k (LockFile k) = Some j" "fd_inode (p_fds p) (p_lockfile_fd p) = Some j"
      using at 3 by (auto simp: daemon_at_def lock_at_def)
    ultimately show ?thesis using lock_file_at [OF _ q] ex 3 by auto
  next
    case 4
    obtain j where j: "k_names k (LockFile k) = Some j" "fd_inode (p_fds p) (p_lockfile_fd p) = Some j"
        "k_locks k j = Some pid"
      using at 4 by (auto simp: daemon_at_def lock_at_def)
    have "p_fds q = p_fds p \<and> p_lockfile_fd q = p_lockfile_fd p \<and> k_locks t = k_locks k"
      using settled_fds [OF ex q] settled_instr [OF 4 n(1)] n(3) by simp
    then show ?thesis using j starting_names [OF n(2) ex] by (auto simp: lock_at_def)
  qed
qed

lemma alloc_fd_others:
  "alloc_fd fs i = (n, gs) \<Longrightarrow> fd_inode fs m = Some j \<Longrightarrow> fd_inode gs m = Some j"
  using alloc_fd_spec [of fs i n gs m] alloc_fd_spec [of fs i n gs n] by auto

lemma alloc_fd_new: "alloc_fd fs i = (n, gs) \<Longrightarrow> fd_inode gs n = Some i"
  using alloc_fd_spec [of fs i n gs n] by auto

text \<open>The process after one of the simple instructions.\<close>

definition plain_effect :: "instr \<Rightarrow> proc \<Rightarrow> proc" where
  "plain_effect i p =
     (case i of Save_Data \<Rightarrow> p\<lparr>p_service := SNull\<rparr> | Setsid \<Rightarrow> p\<lparr>p_leader := True\<rparr>
      | Signal s d \<Rightarrow> p\<lparr>p_handlers := (p_handlers p)(s := d)\<rparr> | Umask \<Rightarrow> p\<lparr>p_umask := 0\<rparr>
      | Chdir \<Rightarrow> p\<lparr>p_cwd := ''/''\<rparr> | Close m \<Rightarrow> p\<lparr>p_fds := (p_fds p)[m := None]\<rparr>
      | Construct \<Rightarrow> p\<lparr>p_service := SLive\<rparr> | _ \<Rightarrow> p)"

lemma plain_step:
  assumes "starting i" and "execute pid fails child i p k = Some t" and "k_procs t pid = Some q"
    and "i \<notin> {Fork, Open_Null, Open_Log, Dup_Log, Open_Lock}" and "\<not> (i = Construct \<and> fails)"
  shows "\<exists>x. q = (plain_effect i p)\<lparr>p_lock_pos := x\<rparr>"
proof -
  have q: "q = plain_effect i p \<or> (\<exists>x. q = (plain_effect i p)\<lparr>p_lock_pos := x\<rparr>)"
    using assms(2-)
    by (cases rule: starting_cases [OF assms(1)];
        auto simp: execute.simps kernel_defs plain_effect_def split: if_splits option.splits)
  moreover have "plain_effect i p = (plain_effect i p)\<lparr>p_lock_pos := p_lock_pos (plain_effect i p)\<rparr>" by simp
  ultimately show ?thesis by blast
qed

lemma fork_step:
  assumes "execute pid fails child Fork p k = Some t"
  shows "k_procs t pid = None"
  using assms by (auto simp: execute.simps kernel_defs split: if_splits)

lemma open_null_step:
  assumes "execute pid fails child Open_Null p k = Some t" and "k_procs t pid = Some q"
  shows "\<exists>z fs. alloc_fd (p_fds p) z = (0, fs) \<and> q = p\<lparr>p_fds := fs\<rparr> \<and> k_names t ''/dev/null'' = Some z"
  using assms by (auto simp: execute.simps kernel_defs Let_def split: if_splits option.splits prod.splits)

lemma open_log_step:
  assumes "execute pid fails child Open_Log p k = Some t" and "k_procs t pid = Some q"
  shows "\<exists>l fs. alloc_fd (p_fds p) l = (1, fs) \<and> q = p\<lparr>p_fds := fs\<rparr> \<and> k_names t (LogFile t) = Some l"
  using assms by (auto simp: execute.simps kernel_defs Let_def split: if_splits option.splits prod.splits)

lemma dup_log_step:
  assumes "execute pid fails child Dup_Log p k = Some t" and "k_procs t pid = Some q"
  shows "\<exists>l fs. alloc_fd (p_fds p) l = (2, fs) \<and> q = p\<lparr>p_fds := fs\<rparr> \<and> fd_inode (p_fds p) 1 = Some l"
  using assms by (auto simp: execute.simps kernel_defs Let_def split: if_splits option.splits prod.splits)

lemma open_lock_step:
  assumes "execute pid fails child Open_Lock p k = Some t" and "k_procs t pid = Some q"
  shows "\<exists>i n fs. alloc_fd (p_fds p) i = (n, fs) \<and> q = p\<lparr>p_fds := fs, p_lockfile_fd := n, p_lock_pos := 0\<rparr>"
proof -
  obtain i k' where c: "creat (LockFile k) k = (i, k')" by fastforce
  obtain n fs where a: "alloc_fd (p_fds p) i = (n, fs)" by fastforce
  from assms have "q = p\<lparr>p_fds := fs, p_lockfile_fd := n, p_lock_pos := 0\<rparr>"
    using c a by (auto simp: execute.simps kernel_defs split: if_splits)
  then show ?thesis using a by blast
qed

lemma ready_mono:
  assumes "ready_at k n p" and "starting i" and "execute pid fails child i r k = Some t"
  shows "ready_at t n p"
proof -
  have log: "LogFile t = LogFile k"
    using starting_names(1) [OF assms(2,3)] by (simp add: LogFile_def LockFile_def)
  have same: "k_names t x = k_names k x" if "k_names k x \<noteq> None" for x
    using starting_names(2) [OF assms(2,3), of x] that by auto
  show ?thesis using assms(1) by (simp add: ready_at_def log same)
qed

lemma ready_code [simp]:
  "ready_at k n (p\<lparr>p_code := c\<rparr>) = ready_at k n p" "ready_at k n (p\<lparr>p_lock_pos := x\<rparr>) = ready_at k n p"
  by (simp_all add: ready_at_def)

lemma ready_plain:
  assumes "ready_at t n p" and "n < 23" and "daemonize ! n \<notin> {Fork, Open_Null, Open_Log, Dup_Log, Open_Lock}"
  shows "ready_at t (Suc n) (plain_effect (daemonize ! n) p)"
proof -
  have "n = 0 \<or> n = 2 \<or> n = 3 \<or> n = 5 \<or> n = 6 \<or> n = 7 \<or> n = 8 \<or> n = 9 \<or> n = 14 \<or> n = 15 \<or> n = 16 \<or> n = 17 \<or>
      n = 18 \<or> n = 19 \<or> n = 20 \<or> n = 21 \<or> n = 22 \<or> n = 1 \<or> n = 4 \<or> n = 10 \<or> n = 11 \<or> n = 12 \<or> n = 13"
    using assms(2) by arith
  then show ?thesis
    using assms(1,3) by (elim disjE) (simp_all add: ready_at_def daemonize_def plain_effect_def)
qed

lemma ready_alloc:
  assumes "ready_at t n p" and "alloc_fd (p_fds p) i = (m, fs)" and "11 \<le> n"
  shows "ready_at t n (p\<lparr>p_fds := fs\<rparr>)"
proof -
  have same: "fd_inode fs m = fd_inode (p_fds p) m" if "fd_inode (p_fds p) m \<noteq> None" for m
    using alloc_fd_others [OF assms(2), of m] that by auto
  show ?thesis using assms(1,3) by (simp add: ready_at_def same)
qed

lemma daemon_opens:
  assumes "n < 23"
  shows "(daemonize ! n = Open_Null \<longleftrightarrow> n = 10) \<and> (daemonize ! n = Open_Log \<longleftrightarrow> n = 11) \<and>
         (daemonize ! n = Dup_Log \<longleftrightarrow> n = 12) \<and> (daemonize ! n = Open_Lock \<longleftrightarrow> n = 13) \<and>
         (daemonize ! n = Fork \<longleftrightarrow> n = 1 \<or> n = 4)"
proof -
  have "\<forall>n < 23. (daemonize ! n = Open_Null \<longleftrightarrow> n = 10) \<and> (daemonize ! n = Open_Log \<longleftrightarrow> n = 11) \<and>
         (daemonize ! n = Dup_Log \<longleftrightarrow> n = 12) \<and> (daemonize ! n = Open_Lock \<longleftrightarrow> n = 13) \<and>
         (daemonize ! n = Fork \<longleftrightarrow> n = 1 \<or> n = 4)"
    by code_simp
  then show ?thesis using assms by blast
qed

lemma ready_own:
  assumes at: "ready_at k n p" and n: "n < 23" "starting i" "i = daemonize ! n"
    and quiet: "\<not> (i = Construct \<and> fails)"
    and ex: "execute pid fails child i (p\<lparr>p_code := code\<rparr>) k = Some t" and q: "k_procs t pid = Some q"
  shows "ready_at t (Suc n) q"
proof -
  let ?p = "p\<lparr>p_code := code\<rparr>"
  have t: "ready_at t n ?p" using ready_mono [OF _ n(2) ex, of n ?p] at by simp
  consider "i \<notin> {Fork, Open_Null, Open_Log, Dup_Log, Open_Lock}" | "i = Fork" | "i = Open_Null" "n = 10"
    | "i = Open_Log" "n = 11" | "i = Dup_Log" "n = 12" | "i = Open_Lock" "n = 13"
    using daemon_opens [OF n(1)] n(3) by auto
  then show ?thesis
  proof cases
    case 1
    then show ?thesis using plain_step [OF n(2) ex q 1 quiet] ready_plain [OF t n(1)] n(3) by auto
  next
    case 2
    then show ?thesis using fork_step ex q by fastforce
  next
    case 3
    then obtain z fs where z: "alloc_fd (p_fds ?p) z = (0, fs)" "q = ?p\<lparr>p_fds := fs\<rparr>" "k_names t ''/dev/null'' = Some z"
      using open_null_step [of pid fails child ?p] ex q by blast
    then show ?thesis using t alloc_fd_new [OF z(1)] 3(2) by (simp add: ready_at_def)
  next
    case 4
    then obtain l fs where l: "alloc_fd (p_fds ?p) l = (1, fs)" "q = ?p\<lparr>p_fds := fs\<rparr>" "k_names t (LogFile t) = Some l"
      using open_log_step [of pid fails child ?p] ex q by blast
    have "ready_at t n q" using ready_alloc [OF t l(1)] l(2) 4 by simp
    then show ?thesis using alloc_fd_new [OF l(1)] 4(2) l(2,3) by (simp add: ready_at_def)
  next
    case 5
    then obtain l fs where l: "alloc_fd (p_fds ?p) l = (2, fs)" "q = ?p\<lparr>p_fds := fs\<rparr>" "fd_inode (p_fds ?p) 1 = Some l"
      using dup_log_step [of pid fails child ?p] ex q by blast
    have "k_names t (LogFile t) = Some l" using t l(3) 5(2) by (simp add: ready_at_def)
    moreover have "ready_at t n q" using ready_alloc [OF t l(1)] l(2) 5 by simp
    ultimately show ?thesis using alloc_fd_new [OF l(1)] 5(2) l(2) by (simp add: ready_at_def)
  next
    case 6
    then obtain j m fs where j: "alloc_fd (p_fds ?p) j = (m, fs)" "q = ?p\<lparr>p_fds := fs, p_lockfile_fd := m, p_lock_pos := 0\<rparr>"
      using open_lock_step [of pid fails child ?p] ex q by blast
    have "ready_at t n (?p\<lparr>p_fds := fs\<rparr>)" using ready_alloc [OF t j(1)] 6 by simp
    then show ?thesis using 6(2) j(2) by (simp add: ready_at_def)
  qed
qed

lemma daemon_own:
  assumes at: "daemon_at k n pid p" and code: "p_code p = i # code"
    and quiet: "i \<noteq> Run" "\<not> (i = Construct \<and> fails)"
    and ex: "execute pid fails child i (p\<lparr>p_code := code\<rparr>) k = Some t" and q: "k_procs t pid = Some q"
  shows "daemon_at t (Suc n) pid q"
proof -
  have n: "n < 23" "starting i" "code = drop (Suc n) daemonize" "i = daemonize ! n"
    using drop_daemonize [of n i code] at code quiet(1) by (auto simp: daemon_at_def)
  have "p_code q = drop (Suc n) daemonize"
    using starting_code [OF n(2) ex q quiet(2)] n(3) by simp
  moreover have "lock_at t (Suc n) pid q" by (rule lock_own [OF at n(1,2,4) ex q])
  moreover have "ready_at t (Suc n) q"
    by (rule ready_own [OF _ n(1,2,4) quiet(2) ex q]) (use at in \<open>simp add: daemon_at_def\<close>)
  ultimately show ?thesis using n(1) by (simp add: daemon_at_def)
qed

lemma daemon_other:
  assumes "daemon_at k n q r" and "starting i" and "execute pid fails child i p k = Some t" and "q \<noteq> pid"
  shows "daemon_at t n q r"
proof -
  have "lock_at t n q r"
    unfolding lock_at_def
  proof
    assume "14 \<le> n"
    then obtain j where j: "k_names k (LockFile k) = Some j" "fd_inode (p_fds r) (p_lockfile_fd r) = Some j"
        "15 \<le> n \<longrightarrow> k_locks k j = Some q"
      using assms(1) by (auto simp: daemon_at_def lock_at_def)
    then show "\<exists>i. k_names t (LockFile t) = Some i \<and> fd_inode (p_fds r) (p_lockfile_fd r) = Some i \<and>
        (15 \<le> n \<longrightarrow> k_locks t i = Some q)"
      using starting_names [OF assms(2,3)] execute_locks [OF assms(3) _ assms(4)] by auto
  qed
  then show ?thesis using assms(1) ready_mono [OF _ assms(2,3)] by (auto simp: daemon_at_def)
qed

lemma daemon_inv_step:
  assumes inv: "daemon_inv k" and step: "quiet_step k e = Some t"
  shows "daemon_inv t"
  unfolding daemon_inv_def
proof (intro allI impI)
  fix q r
  assume r: "k_procs t q = Some r"
  obtain pid fails child p i code where e: "e = Step pid fails child" "k_procs k pid = Some p" "p_code p = i # code"
      "i \<noteq> Run" "\<not> (i = Construct \<and> fails)" "execute pid fails child i (p\<lparr>p_code := code\<rparr>) k = Some t"
    using step by (auto simp: quiet_step_def split: kernel_event.splits option.splits list.splits if_splits)
  obtain n where n: "daemon_at k n pid p" using inv e(2) by (auto simp: daemon_inv_def)
  have d: "n < 23" "starting i" "code = drop (Suc n) daemonize" "i = daemonize ! n"
    using drop_daemonize [of n i code] n e(3,4) by (auto simp: daemon_at_def)
  show "\<exists>m. daemon_at t m q r"
  proof (cases "q = pid")
    case True
    then show ?thesis using daemon_own [OF n e(3-6)] r by blast
  next
    case other: False
    show ?thesis
    proof (cases "i = Fork \<and> \<not> fails \<and> q = child")
      case True
      have n14: "n = 1 \<or> n = 4" using daemon_opens [OF d(1)] True d(4) by simp
      have "r = p\<lparr>p_code := drop (Suc n) daemonize, p_leader := False\<rparr>"
        using execute_others [OF e(6) other] True r d(3) by auto
      moreover have "ready_at t n p" using n ready_mono [OF _ d(2) e(6)] by (simp add: daemon_at_def)
      ultimately have "daemon_at t (Suc n) q r"
        using n14 by (elim disjE) (simp_all add: daemon_at_def lock_at_def ready_at_def)
      then show ?thesis ..
    next
      case False
      then have "k_procs k q = Some r" using execute_others [OF e(6) other] r by auto
      then obtain m where "daemon_at k m q r" using inv by (auto simp: daemon_inv_def)
      then show ?thesis using daemon_other [OF _ d(2) e(6) other] by blast
    qed
  qed
qed

interpretation quiet: event_machine quiet_step daemon_inv
  by unfold_locales (rule daemon_inv_step)

section \<open>No return\<close>

definition calls_exit :: "kernel \<Rightarrow> bool" where
  "calls_exit k \<longleftrightarrow> (\<forall>pid p. k_procs k pid = Some p \<longrightarrow> p_code p \<noteq> [] \<and> last (p_code p) = Exit_Success)"

lemma execute_procs:
  assumes "execute pid fails child i p k = Some t" and "k_procs t q = Some r"
  shows "q = pid \<and> i \<noteq> Exit_Success \<and> (\<exists>xs. p_code r = xs @ p_code p) \<or>
         q \<noteq> pid \<and> i = Fork \<and> p_code r = p_code p \<or> q \<noteq> pid \<and> k_procs k q = Some r"
  using assms
  by (cases i)
    (auto simp: execute.simps kernel_defs Let_def split: if_splits option.splits prod.splits service_ptr.splits)

lemma calls_exit_step:
  assumes inv: "calls_exit k" and step: "kernel_step k e = Some t"
  shows "calls_exit t"
proof (cases e)
  case (Step pid fails child)
  then obtain p i code where p: "k_procs k pid = Some p" "p_code p = i # code"
      "execute pid fails child i (p\<lparr>p_code := code\<rparr>) k = Some t"
    using step by (auto split: option.splits list.splits)
  have last: "code = [] \<longrightarrow> i = Exit_Success" "code \<noteq> [] \<longrightarrow> last code = Exit_Success"
    using inv p(1,2) by (fastforce simp: calls_exit_def)+
  show ?thesis
    unfolding calls_exit_def
  proof (intro allI impI)
    fix q r
    assume "k_procs t q = Some r"
    from execute_procs [OF p(3) this] show "p_code r \<noteq> [] \<and> last (p_code r) = Exit_Success"
      using last inv by (auto simp: calls_exit_def)
  qed
next
  case (Deliver pid s)
  then show ?thesis using step inv
    by (auto simp: calls_exit_def kernel_defs split: option.splits if_splits disposition.splits)
qed

interpretation exiting: event_machine kernel_step calls_exit
  by unfold_locales (rule calls_exit_step)

section \<open>A daemon among others that are signalled\<close>

text \<open>
  \<open>S\<close> are the processes that get signals. Any other process is on its way through \<^verbatim>\<open>daemonize\<close> with what it has set
  up so far, or aborts because the constructor of its service threw. Before \<open>n = 16\<close> a signal is ignored or kills, so
  that a process with a handler to run does not fork any more.
\<close>

definition held_at :: "kernel \<Rightarrow> nat \<Rightarrow> nat \<Rightarrow> proc \<Rightarrow> bool" where
  "held_at k n pid p \<longleftrightarrow>
     (14 \<le> n \<longrightarrow> (\<exists>i. fd_inode (p_fds p) (p_lockfile_fd p) = Some i \<and> (15 \<le> n \<longrightarrow> k_locks k i = Some pid)))"

definition own_at :: "kernel \<Rightarrow> nat \<Rightarrow> nat \<Rightarrow> proc \<Rightarrow> bool" where
  "own_at k n pid p \<longleftrightarrow>
     p_code p = drop n daemonize \<and> n < length daemonize \<and> (n < 16 \<longrightarrow> (\<forall>s. p_handlers p s \<noteq> Handler)) \<and>
     (n \<le> 23 \<longrightarrow> held_at k n pid p \<and> ready_at k n p)"

definition aborting :: "proc \<Rightarrow> bool" where
  "aborting p \<longleftrightarrow>
     Raise_Abort \<in> set (p_code p) \<and> Run \<notin> set (takeWhile (\<lambda>i. i \<noteq> Raise_Abort) (p_code p)) \<and> Fork \<notin> set (p_code p)"

definition undisturbed :: "nat set \<Rightarrow> kernel \<Rightarrow> bool" where
  "undisturbed S k \<longleftrightarrow> (\<forall>pid p. k_procs k pid = Some p \<longrightarrow>
     (\<exists>n. own_at k n pid p) \<or> aborting p \<or> pid \<in> S \<and> Fork \<notin> set (p_code p))"

lemma log_not_lock: "LogFile k \<noteq> LockFile k" "''/dev/null'' \<noteq> LockFile k"
  by (simp_all add: LogFile_def LockFile_def)

lemma ready_keeps:
  assumes "ready_at k n p" and "k_program t = k_program k"
    and "\<And>nm j. k_names k nm = Some j \<Longrightarrow> nm \<noteq> LockFile k \<Longrightarrow> k_names t nm = Some j"
  shows "ready_at t n p"
proof -
  have log: "LogFile t = LogFile k" using assms(2) by (simp add: LogFile_def)
  have same: "k_names t x = k_names k x" if "k_names k x \<noteq> None" "x \<noteq> LockFile k" for x
    using assms(3) [of x] that by auto
  show ?thesis using assms(1) by (auto simp: ready_at_def log same log_not_lock)
qed

lemma own_keeps:
  assumes "own_at k n pid p" and "k_program t = k_program k"
    and "\<And>nm j. k_names k nm = Some j \<Longrightarrow> nm \<noteq> LockFile k \<Longrightarrow> k_names t nm = Some j"
    and "\<And>j. k_locks k j = Some pid \<Longrightarrow> k_locks t j = Some pid"
  shows "own_at t n pid p"
  using assms(1) ready_keeps [OF _ assms(2,3)] assms(4) by (fastforce simp: own_at_def held_at_def)

lemma own_code:
  assumes "own_at k n pid p" and "p_code p = i # code"
  shows "n < length daemonize" and "i = daemonize ! n" and "code = drop (Suc n) daemonize"
proof -
  show n: "n < length daemonize" using assms(1) by (simp add: own_at_def)
  have "i # code = daemonize ! n # drop (Suc n) daemonize"
    using assms Cons_nth_drop_Suc [OF n] by (simp add: own_at_def)
  then show "i = daemonize ! n" "code = drop (Suc n) daemonize" by simp_all
qed

lemma own_no_fork: "own_at k n pid p \<Longrightarrow> 16 \<le> n \<Longrightarrow> Fork \<notin> set (p_code p)"
proof -
  assume "own_at k n pid p" "16 \<le> n"
  then have "set (p_code p) \<subseteq> set (drop 16 daemonize)" by (simp add: own_at_def set_drop_subset_set_drop)
  moreover have "Fork \<notin> set (drop 16 daemonize)" by (simp add: daemonize_def daemon_try_cleanup_def)
  ultimately show ?thesis by blast
qed

lemma handler_no_fork: "Fork \<notin> set (daemon_signal_handler s)" "Run \<notin> set (daemon_signal_handler s)"
  by (auto simp: daemon_signal_handler_def daemon_try_cleanup_def)

text \<open>What an instruction puts in front of the rest of its own process.\<close>

lemma execute_code:
  assumes "execute pid fails child i p k = Some t" and "k_procs t pid = Some r"
  shows "\<exists>xs. p_code r = xs @ p_code p \<and> i \<notin> {Fork, Exit_Success} \<and>
           (xs = [] \<and> i \<noteq> Raise_Abort \<and> \<not> (i \<in> {Construct, Run} \<and> fails) \<or>
            xs = [Raise_Abort] \<and> i \<in> {Construct, Run} \<and> fails \<or>
            xs = daemon_signal_handler SIGABRT \<and> i = Raise_Abort)"
  using assms
  by (cases i)
    (auto simp: execute.simps kernel_defs Let_def split: if_splits option.splits prod.splits service_ptr.splits)

lemma aborting_step:
  assumes "aborting p" and "p_code p = i # code"
    and "execute pid fails child i (p\<lparr>p_code := code\<rparr>) k = Some t" and "k_procs t pid = Some r"
  shows "aborting r"
proof -
  obtain xs where xs: "p_code r = xs @ code" "xs = [] \<and> i \<noteq> Raise_Abort \<or> xs = [Raise_Abort] \<and> i \<in> {Construct, Run} \<or>
      xs = daemon_signal_handler SIGABRT \<and> i = Raise_Abort"
    using execute_code [OF assms(3,4)] by auto
  from xs(2) show ?thesis
  proof (elim disjE conjE)
    assume "xs = daemon_signal_handler SIGABRT" "i = Raise_Abort"
    then show ?thesis using assms(1,2) xs(1)
      by (auto simp: aborting_def daemon_signal_handler_def daemon_try_cleanup_def)
  qed (use assms(1,2) xs(1) in \<open>auto simp: aborting_def\<close>)
qed

lemma own_lock_step:
  assumes at: "held_at k n pid p" and n: "n < 23" "starting i" "i = daemonize ! n"
    and ex: "execute pid fails child i (p\<lparr>p_code := code\<rparr>) k = Some t" and q: "k_procs t pid = Some q"
  shows "held_at t (Suc n) pid q"
proof -
  consider "Suc n \<le> 13" | "n = 13" | "n = 14" | "15 \<le> n" by linarith
  then show ?thesis
  proof cases
    case 1
    then show ?thesis by (simp add: held_at_def)
  next
    case 2
    then have "i = Open_Lock" using n(3) by (simp add: daemonize_def)
    then show ?thesis using open_lock_at [OF _ q] ex 2 by (fastforce simp: lock_at_def held_at_def)
  next
    case 3
    then have "i = Lock_File" using n(3) by (simp add: daemonize_def)
    then show ?thesis using ex q at 3
      by (auto simp: held_at_def execute.simps set_proc_def exit_failure_def end_process_def split: if_splits)
  next
    case 4
    have "p_fds q = p_fds p \<and> p_lockfile_fd q = p_lockfile_fd p \<and> k_locks t = k_locks k"
      using settled_fds [OF ex q] settled_instr [OF 4 n(1)] n(3) by simp
    then show ?thesis using at 4 by (auto simp: held_at_def)
  qed
qed

lemma starting_handlers:
  assumes "starting i" and "i = daemonize ! n" and "n < 15"
    and "execute pid fails child i p k = Some t" and "k_procs t pid = Some q" and "p_handlers p s \<noteq> Handler"
  shows "p_handlers q s \<noteq> Handler"
proof -
  have "\<forall>m < 15. daemonize ! m \<notin> {Signal SIGINT Handler, Signal SIGTERM Handler, Signal SIGHUP Handler,
      Signal SIGSEGV Handler, Signal SIGABRT Handler, Signal SIGCHLD Handler}"
    by code_simp
  then have "i \<noteq> Signal s Handler" using assms(2,3) by (cases s) auto
  then show ?thesis using assms(4-6)
    by (cases rule: starting_cases [OF assms(1)];
        auto simp: execute.simps kernel_defs Let_def split: if_splits option.splits prod.splits)
qed

lemma own_step:
  assumes at: "own_at k n pid p" and code: "p_code p = i # code"
    and ex: "execute pid fails child i (p\<lparr>p_code := code\<rparr>) k = Some t" and r: "k_procs t pid = Some r"
  shows "own_at t (Suc n) pid r \<or> aborting r"
proof -
  have n: "n < length daemonize" "i = daemonize ! n" "code = drop (Suc n) daemonize"
    using own_code [OF at code] by simp_all
  obtain xs where xs: "p_code r = xs @ code" "i \<notin> {Fork, Exit_Success}"
      "xs = [] \<and> i \<noteq> Raise_Abort \<and> \<not> (i \<in> {Construct, Run} \<and> fails) \<or> xs = [Raise_Abort] \<and> i \<in> {Construct, Run} \<and> fails \<or>
       xs = daemon_signal_handler SIGABRT \<and> i = Raise_Abort"
    using execute_code [OF ex r] by auto
  have len: "length daemonize = 29" by (simp add: daemonize_def daemon_try_cleanup_def)
  have kinds: "\<forall>m < 29. daemonize ! m \<noteq> Raise_Abort \<and> (daemonize ! m = Exit_Success \<longleftrightarrow> m = 28) \<and>
      (daemonize ! m \<in> {Construct, Run} \<longrightarrow> m = 22 \<or> m = 23)"
    by code_simp
  then have i: "i \<noteq> Raise_Abort" "n < 28" "i \<in> {Construct, Run} \<longrightarrow> n = 22 \<or> n = 23"
    using n len xs(2) by (auto simp: less_Suc_eq)
  show ?thesis
  proof (cases "i \<in> {Construct, Run} \<and> fails")
    case True
    then have "p_code r = Raise_Abort # drop 23 daemonize \<or> p_code r = Raise_Abort # drop 24 daemonize"
      using xs i(3) n(3) by auto
    then have "aborting r" by (auto simp: aborting_def daemonize_def daemon_try_cleanup_def)
    then show ?thesis ..
  next
    case plain: False
    then have c: "p_code r = drop (Suc n) daemonize" using xs(1,3) n(3) i(1) by auto
    show ?thesis
    proof (cases "n < 23")
      case True
      have "starting i" using n(2) True len nth_mem [of n "take 23 daemonize"] by (simp add: starting_def)
      moreover have "held_at t (Suc n) pid r"
        by (rule own_lock_step [OF _ True \<open>starting i\<close> n(2) ex r]) (use at True in \<open>simp add: own_at_def\<close>)
      moreover have "ready_at t (Suc n) r"
        by (rule ready_own [OF _ True \<open>starting i\<close> n(2) _ ex r]) (use at True plain in \<open>auto simp: own_at_def\<close>)
      moreover have "p_handlers r s \<noteq> Handler" if "n < 15" for s
        by (rule starting_handlers [OF \<open>starting i\<close> n(2) that ex r]) (use at that in \<open>simp add: own_at_def\<close>)
      ultimately show ?thesis using c True len by (simp add: own_at_def)
    next
      case False
      then show ?thesis using c i(2) len by (simp add: own_at_def)
    qed
  qed
qed

lemma forked_own:
  assumes at: "own_at k n pid p" and code: "p_code p = Fork # code"
    and t: "k_program t = k_program k" "\<And>nm j. k_names k nm = Some j \<Longrightarrow> nm \<noteq> LockFile k \<Longrightarrow> k_names t nm = Some j"
  shows "own_at t (Suc n) child (p\<lparr>p_code := code, p_leader := False\<rparr>)"
proof -
  have n: "n < length daemonize" "Fork = daemonize ! n" "code = drop (Suc n) daemonize"
    using own_code [OF at code] by simp_all
  have len: "length daemonize = 29" by (simp add: daemonize_def daemon_try_cleanup_def)
  have "\<forall>m < 29. daemonize ! m = Fork \<longrightarrow> m = 1 \<or> m = 4" by code_simp
  then have n14: "n = 1 \<or> n = 4" using n(1,2) len by (metis (no_types))
  then have "ready_at t n p" using at ready_keeps [OF _ t, of n p] by (auto simp: own_at_def)
  then show ?thesis using n14 at n(3) len
    by (elim disjE) (simp_all add: own_at_def held_at_def ready_at_def)
qed

lemma undisturbed_deliver:
  assumes inv: "undisturbed S k" and step: "kernel_step k (Deliver pid s) = Some t" and S: "pid \<in> S"
  shows "undisturbed S t"
  unfolding undisturbed_def
proof (intro allI impI)
  fix q r
  assume r: "k_procs t q = Some r"
  obtain p where p: "k_procs k pid = Some p" "s \<notin> set (p_active p)"
    using step by (auto split: option.splits if_splits)
  let ?goal = "(\<exists>n. own_at t n q r) \<or> aborting r \<or> q \<in> S \<and> Fork \<notin> set (p_code r)"
  have keep: "k_program t = k_program k" "k_names t = k_names k" "\<And>j. q \<noteq> pid \<Longrightarrow> k_locks k j = Some q \<Longrightarrow> k_locks t j = Some q"
      "q \<noteq> pid \<Longrightarrow> k_procs k q = Some r"
    using step p r by (auto simp: kernel_defs split: if_splits disposition.splits)
  show ?goal
  proof (cases "q = pid")
    case False
    then have "(\<exists>n. own_at k n q r) \<or> aborting r \<or> q \<in> S \<and> Fork \<notin> set (p_code r)"
      using inv keep(4) by (auto simp: undisturbed_def)
    then show ?thesis using own_keeps [of k _ q r t] keep False by auto
  next
    case True
    show ?thesis
    proof (cases "p_handlers p s")
      case Handler
      then have "r = p\<lparr>p_code := daemon_signal_handler s @ p_code p, p_active := s # p_active p\<rparr>"
        using step p r True by (auto simp: set_proc_def)
      moreover have "Fork \<notin> set (p_code p)"
        using inv p(1) Handler own_no_fork [of k _ pid p]
        by (fastforce simp: undisturbed_def own_at_def aborting_def not_less)
      ultimately show ?thesis using handler_no_fork(1) S True by auto
    qed (use step p r True inv in \<open>auto simp: undisturbed_def end_process_def split: if_splits\<close>)
  qed
qed

lemma undisturbed_execute:
  assumes inv: "undisturbed S k" and step: "kernel_step k (Step pid fails child) = Some t"
  shows "undisturbed S t"
  unfolding undisturbed_def
proof (intro allI impI)
  fix q r
  assume r: "k_procs t q = Some r"
  obtain p i code where p: "k_procs k pid = Some p" "p_code p = i # code"
      "execute pid fails child i (p\<lparr>p_code := code\<rparr>) k = Some t"
    using step by (auto split: option.splits list.splits)
  have at: "(\<exists>n. own_at k n pid p) \<or> aborting p \<or> pid \<in> S \<and> Fork \<notin> set (p_code p)"
    using inv p(1) by (auto simp: undisturbed_def)
  note names = execute_names [OF p(3)]
  show "(\<exists>n. own_at t n q r) \<or> aborting r \<or> q \<in> S \<and> Fork \<notin> set (p_code r)"
  proof (cases "q = pid")
    case True
    note r' = r [unfolded True]
    obtain xs where xs: "p_code r = xs @ code" "xs = [] \<or> xs = [Raise_Abort] \<or> xs = daemon_signal_handler SIGABRT"
      using execute_code [OF p(3) r'] by auto
    have "Fork \<notin> set (p_code r)" if "Fork \<notin> set (p_code p)" using that xs p(2) handler_no_fork(1) by auto
    then show ?thesis using at own_step [OF _ p(2,3) r'] aborting_step [OF _ p(2,3) r'] True by blast
  next
    case other: False
    show ?thesis
    proof (cases "i = Fork \<and> \<not> fails \<and> q = child")
      case True
      then obtain n where n: "own_at k n pid p" using at p(2) by (auto simp: aborting_def)
      have "r = p\<lparr>p_code := code, p_leader := False\<rparr>" using execute_others [OF p(3) other] True r by simp
      then show ?thesis using forked_own [OF n _ names, of code q] p(2) True by auto
    next
      case False
      then have "k_procs k q = Some r" using execute_others [OF p(3) other] r by auto
      then have "(\<exists>n. own_at k n q r) \<or> aborting r \<or> q \<in> S \<and> Fork \<notin> set (p_code r)"
        using inv by (auto simp: undisturbed_def)
      then show ?thesis using own_keeps [OF _ names, of _ q r] execute_locks [OF p(3) _ other] by blast
    qed
  qed
qed

lemma undisturbed_run:
  "exec kernel_step k es = Some t \<Longrightarrow> undisturbed S k \<Longrightarrow> \<forall>e \<in> set es. \<forall>q s. e = Deliver q s \<longrightarrow> q \<in> S \<Longrightarrow> undisturbed S t"
proof (induction es arbitrary: k)
  case (Cons e es)
  obtain u where u: "kernel_step k e = Some u" "exec kernel_step u es = Some t"
    using Cons.prems(1) by (auto split: option.splits)
  have "undisturbed S u"
  proof (cases e)
    case (Step pid fails child)
    then show ?thesis using undisturbed_execute [OF Cons.prems(2)] u(1) by blast
  next
    case (Deliver pid x)
    then have "pid \<in> S" using Cons.prems(3) by simp
    then show ?thesis using undisturbed_deliver [OF Cons.prems(2)] u(1) Deliver by blast
  qed
  then show ?case using Cons.IH [OF u(2)] Cons.prems(3) by simp
qed simp

section \<open>Sample systems\<close>

definition demo_proc :: proc where
  "demo_proc =
     \<lparr>p_code = daemonize, p_fds = [Some 1, Some 1, None], p_leader = False, p_umask = 18, p_cwd = ''/home'',
      p_handlers = (\<lambda>_. SIG_DFL), p_active = [], p_lockfile_fd = 0, p_lock_pos = 0, p_service = SNull, p_stopped = False\<rparr>"

text \<open>Three programs, each about to call \<^verbatim>\<open>daemonize\<close>.\<close>

definition demo_kernel :: kernel where
  "demo_kernel =
     \<lparr>k_procs = [10 \<mapsto> demo_proc, 20 \<mapsto> demo_proc, 30 \<mapsto> demo_proc], k_status = (\<lambda>_. None),
      k_names = [''/dev/null'' \<mapsto> 0], k_locks = (\<lambda>_. None), k_text = (\<lambda>_. []), k_next = 2,
      k_program = ''d'', k_date = ''now''\<rparr>"

definition callers :: "kernel \<Rightarrow> bool" where
  "callers k \<longleftrightarrow> (\<forall>pid p. k_procs k pid = Some p \<longrightarrow> p_code p = daemonize)"

lemma callers_inv: "callers k \<Longrightarrow> daemon_inv k"
  unfolding callers_def daemon_inv_def daemon_at_def lock_at_def ready_at_def
  by (intro allI impI exI [of _ 0]) simp

lemma callers_exit: "callers k \<Longrightarrow> calls_exit k"
  by (simp add: callers_def calls_exit_def daemonize_def daemon_try_cleanup_def)

lemma demo_callers: "callers demo_kernel"
  by (auto simp: callers_def demo_kernel_def demo_proc_def)

section \<open>Coming up\<close>

text \<open>The start of a daemon up to \<^verbatim>\<open>run\<close>, with no system call failing: the two parents, then the daemon.\<close>

definition start_up :: "nat \<Rightarrow> nat \<Rightarrow> nat \<Rightarrow> kernel_event list" where
  "start_up pid c1 c2 =
     [Step pid False 0, Step pid False c1] @ replicate 2 (Step c1 False 0) @ [Step c1 False c2] @
     replicate 18 (Step c2 False 0)"

fun silent :: "instr \<Rightarrow> bool" where
  "silent (Close m) = True"
| "silent (Signal s d) = True"
| "silent i = (i \<in> {Save_Data, Setsid, Umask, Chdir, Construct})"

lemma set_proc_simps [simp]:
  "set_proc pid q (set_proc pid p k) = set_proc pid q k" "k_procs (set_proc pid p k) pid = Some p"
  "a \<noteq> pid \<Longrightarrow> k_procs (set_proc pid p k) a = k_procs k a"
  "k_locks (set_proc pid p k) = k_locks k" "k_names (set_proc pid p k) = k_names k"
  "k_status (set_proc pid p k) = k_status k" "k_next (set_proc pid p k) = k_next k"
  "k_text (set_proc pid p k) = k_text k" "LogFile (set_proc pid p k) = LogFile k"
  "LockFile (set_proc pid p k) = LockFile k" "k_program (set_proc pid p k) = k_program k"
  by (simp_all add: set_proc_def LogFile_def LockFile_def)

lemma end_process_simps [simp]:
  "a \<noteq> b \<Longrightarrow> end_process b st (set_proc a p k) = set_proc a p (end_process b st k)"
  "end_process b st (set_proc b p k) = end_process b st k"
  "k_procs (end_process b st k) = (k_procs k)(b := None)"
  "k_status (end_process b st k) = (k_status k)(b \<mapsto> st)" "k_names (end_process b st k) = k_names k"
  "k_locks (end_process b st k) = (\<lambda>i. if k_locks k i = Some b then None else k_locks k i)"
  "k_next (end_process b st k) = k_next k" "k_text (end_process b st k) = k_text k" "k_program (end_process b st k) = k_program k"
  by (cases k; auto simp: set_proc_def end_process_def fun_upd_twist cong: if_cong)+

lemma set_proc_same: "k_procs k pid = Some p \<Longrightarrow> set_proc pid p k = k"
  by (simp add: set_proc_def fun_upd_idem)

lemma release_none: "\<forall>j. k_locks k j \<noteq> Some pid \<Longrightarrow> release pid i k = k"
  by (simp add: release_def)

lemma plain_effect_code: "plain_effect i (p\<lparr>p_code := c\<rparr>) = (plain_effect i p)\<lparr>p_code := c\<rparr>"
  by (cases i) (simp_all add: plain_effect_def)

lemma fold_plain_code:
  "fold plain_effect xs (p\<lparr>p_code := c\<rparr>) = (fold plain_effect xs p)\<lparr>p_code := c\<rparr>"
  by (induction xs arbitrary: p) (simp_all add: plain_effect_code)

lemma execute_silent:
  assumes "silent i" and "\<exists>m. i = Close m \<Longrightarrow> \<forall>j. k_locks k j \<noteq> Some pid"
  shows "execute pid False child i p k = Some (set_proc pid (plain_effect i p) k)"
  using assms by (cases i) (auto simp: execute.simps plain_effect_def close_fd_def release_none)

lemma run_silent:
  assumes "k_procs k pid = Some p" and "p_code p = xs @ rest" and "list_all silent xs"
    and "(\<exists>m. Close m \<in> set xs) \<longrightarrow> (\<forall>j. k_locks k j \<noteq> Some pid)"
  shows "exec kernel_step k (replicate (length xs) (Step pid False 0)) =
         Some (set_proc pid ((fold plain_effect xs p)\<lparr>p_code := rest\<rparr>) k)"
  using assms
proof (induction xs arbitrary: p k)
  case Nil
  then have "p\<lparr>p_code := rest\<rparr> = p" by simp
  then show ?case using Nil by (simp add: set_proc_same)
next
  case (Cons x xs)
  let ?q = "(plain_effect x p)\<lparr>p_code := xs @ rest\<rparr>"
  have "execute pid False 0 x (p\<lparr>p_code := xs @ rest\<rparr>) k = Some (set_proc pid ?q k)"
    using Cons.prems(3,4) execute_silent [of x k pid 0 "p\<lparr>p_code := xs @ rest\<rparr>"]
    by (auto simp: plain_effect_code)
  then show ?case
    using Cons.prems Cons.IH [of "set_proc pid ?q k" ?q] by (auto simp: fold_plain_code)
qed

lemma replicate_5: "replicate 5 x = [x, x, x, x, x]"
  by (simp add: numeral_eq_Suc)

lemma three_fds:
  "\<exists>f1 f2 f3. alloc_fd (fs[0 := None, 1 := None, 2 := None]) z = (0, f1) \<and> alloc_fd f1 l = (1, f2) \<and>
     fd_inode f2 1 = Some l \<and> alloc_fd f2 l = (2, f3)"
proof -
  consider "fs = []" | a where "fs = [a]" | a b where "fs = [a, b]" | a b c r where "fs = a # b # c # r"
    by (metis list.exhaust)
  then show ?thesis by cases (simp_all add: numeral_2_eq_2)
qed

text \<open>What opening files leaves alone.\<close>

definition numbered :: "kernel \<Rightarrow> bool" where
  "numbered k \<longleftrightarrow> (\<forall>nm j. k_names k nm = Some j \<longrightarrow> j < k_next k)"

definition files_grow :: "kernel \<Rightarrow> kernel \<Rightarrow> bool" where
  "files_grow k k' \<longleftrightarrow>
     k_procs k' = k_procs k \<and> k_status k' = k_status k \<and> k_locks k' = k_locks k \<and> k_program k' = k_program k \<and>
     k_next k \<le> k_next k' \<and> (\<forall>nm j. k_names k nm = Some j \<longrightarrow> k_names k' nm = Some j) \<and>
     (\<forall>j < k_next k. k_text k' j = k_text k j) \<and> (numbered k \<longrightarrow> numbered k')"

lemma files_grow_trans: "files_grow a b \<Longrightarrow> files_grow b c \<Longrightarrow> files_grow a c"
  by (auto simp: files_grow_def)

lemma creat_grows:
  assumes "creat nm k = (i, k')"
  shows "files_grow k k'" and "k_names k' nm = Some i" and "k_names k nm = Some i \<or> i = k_next k"
    and "\<And>x j. k_names k' x = Some j \<Longrightarrow> k_names k x = Some j \<or> j = k_next k"
  using assms by (auto simp: creat_def files_grow_def numbered_def less_Suc_eq split: option.splits if_splits)

text \<open>The lock file is free when no process holds the lock of the inode it names, or would get.\<close>

definition lock_free :: "kernel \<Rightarrow> bool" where
  "lock_free k \<longleftrightarrow>
     (\<forall>i. k_names k (LockFile k) = Some i \<longrightarrow> k_locks k i = None) \<and> (\<forall>i \<ge> k_next k. k_locks k i = None)"

text \<open>The files are opened; what is left then is to lock the last one.\<close>

lemma open_phase:
  assumes p: "k_procs k c = Some p" "p_code p = drop 10 daemonize" "p_fds p = fs[0 := None, 1 := None, 2 := None]"
    and null: "k_names k ''/dev/null'' = Some z"
  shows "\<exists>k' i f n. files_grow k k' \<and> k_names k' (LockFile k) = Some i \<and> fd_inode f n = Some i \<and>
           (k_names k (LockFile k) = Some i \<or> k_next k \<le> i) \<and>
           exec kernel_step k (replicate 4 (Step c False 0)) =
             Some (set_proc c (p\<lparr>p_code := drop 14 daemonize, p_fds := f, p_lockfile_fd := n, p_lock_pos := 0\<rparr>) k')"
proof -
  have code: "p_code p = [Open_Null, Open_Log, Dup_Log, Open_Lock, Lock_File] @ drop 15 daemonize"
    using p(2) by (simp add: daemonize_def)
  obtain l k1 where k1: "creat (LogFile k) k = (l, k1)" by fastforce
  note g1 = creat_grows [OF k1]
  obtain f1 f2 f3 where f: "alloc_fd (p_fds p) z = (0, f1)" "alloc_fd f1 l = (1, f2)" "fd_inode f2 1 = Some l"
      "alloc_fd f2 l = (2, f3)"
    using three_fds [of fs z l] p(3) by auto
  obtain i k2 where k2: "creat (LockFile k) k1 = (i, k2)" by fastforce
  note g2 = creat_grows [OF k2]
  obtain n f4 where f4: "alloc_fd f3 i = (n, f4)" by fastforce
  have lock: "LockFile k1 = LockFile k" using g1(1) by (simp add: files_grow_def LockFile_def)
  have old: "k_names k (LockFile k) = Some i \<or> k_next k \<le> i"
    using g1(1) g1(4) [of "LockFile k" i] g2(3) unfolding files_grow_def by auto
  have c1: "creat (LogFile k) (set_proc c r k) = (l, set_proc c r k1)" for r
    using k1 by (auto simp: creat_def set_proc_def split: option.splits)
  have c2: "creat (LockFile k) (set_proc c r k1) = (i, set_proc c r k2)" for r
    using k2 by (auto simp: creat_def set_proc_def split: option.splits)
  let ?at = "\<lambda>m f. p\<lparr>p_code := drop m daemonize, p_fds := f\<rparr>"
  have s1: "kernel_step k (Step c False 0) = Some (set_proc c (?at 11 f1) k)"
    using p(1) code null f(1) by (simp add: daemonize_def execute.simps redirect_def)
  have s2: "kernel_step (set_proc c (?at 11 f1) k) (Step c False 0) = Some (set_proc c (?at 12 f2) k1)"
    using f(2) c1 by (simp add: daemonize_def execute.simps redirect_def)
  have s3: "kernel_step (set_proc c (?at 12 f2) k1) (Step c False 0) = Some (set_proc c (?at 13 f3) k1)"
    using f(3,4) by (simp add: daemonize_def execute.simps redirect_def)
  have s4: "kernel_step (set_proc c (?at 13 f3) k1) (Step c False 0) =
      Some (set_proc c (?at 14 f4\<lparr>p_lockfile_fd := n, p_lock_pos := 0\<rparr>) k2)"
    using f4 c2 lock by (simp add: daemonize_def execute.simps)
  have four: "replicate 4 x = [x, x, x, x]" for x :: kernel_event by (simp add: numeral_eq_Suc)
  have "exec kernel_step k (replicate 4 (Step c False 0)) =
      Some (set_proc c (?at 14 f4\<lparr>p_lockfile_fd := n, p_lock_pos := 0\<rparr>) k2)"
    unfolding four by (simp only: exec.simps s1 s2 s3 s4 option.case)
  then show ?thesis
    using alloc_fd_new [OF f4] files_grow_trans [OF g1(1) g2(1)] g2(2) old by blast
qed

lemma lock_phase:
  assumes "k_procs k c = Some p" and "p_code p = drop 14 daemonize" and "fd_inode (p_fds p) (p_lockfile_fd p) = Some i"
  shows "kernel_step k (Step c False 0) =
    Some (if k_locks k i = None \<or> k_locks k i = Some c
          then set_proc c (p\<lparr>p_code := drop 15 daemonize\<rparr>) (k\<lparr>k_locks := (k_locks k)(i \<mapsto> c)\<rparr>)
          else end_process c (Exited EXIT_FAILURE) k)"
  using assms by (auto simp: daemonize_def execute.simps exit_failure_def)

definition parents_gone :: "nat \<Rightarrow> nat \<Rightarrow> kernel \<Rightarrow> kernel" where
  "parents_gone pid c1 k = end_process c1 (Exited EXIT_SUCCESS) (end_process pid (Exited EXIT_SUCCESS) k)"

lemma fork_phase:
  assumes p: "k_procs k pid = Some p" "p_code p = daemonize" and new: "pid \<noteq> c1" "pid \<noteq> c2" "c1 \<noteq> c2"
    "k_procs k c1 = None" "k_procs k c2 = None" "k_status k c1 = None" "k_status k c2 = None"
  shows "exec kernel_step k ([Step pid False 0, Step pid False c1] @ replicate 2 (Step c1 False 0) @ [Step c1 False c2]) =
    Some (set_proc c2 (p\<lparr>p_code := drop 5 daemonize, p_service := SNull, p_leader := False,
      p_handlers := (p_handlers p)(SIGCHLD := SIG_IGN)\<rparr>) (parents_gone pid c1 k))"
proof -
  have two: "replicate 2 x = [x, x]" for x :: kernel_event by (simp add: numeral_eq_Suc)
  let ?q = "\<lambda>n b h. p\<lparr>p_code := drop n daemonize, p_service := SNull, p_leader := b, p_handlers := h\<rparr>"
  let ?h = "(p_handlers p)(SIGCHLD := SIG_IGN)"
  have s1: "kernel_step k (Step pid False 0) = Some (set_proc pid (p\<lparr>p_code := drop 1 daemonize, p_service := SNull\<rparr>) k)"
    using p by (simp add: daemonize_def execute.simps)
  have s2: "kernel_step (set_proc pid (p\<lparr>p_code := drop 1 daemonize, p_service := SNull\<rparr>) k) (Step pid False c1) =
      Some (set_proc c1 (?q 2 False (p_handlers p)) (end_process pid (Exited EXIT_SUCCESS) k))"
    using new by (cases p) (simp add: daemonize_def execute.simps)
  have s3: "kernel_step (set_proc c1 (?q 2 False (p_handlers p)) (end_process pid (Exited EXIT_SUCCESS) k)) (Step c1 False 0) =
      Some (set_proc c1 (?q 3 True (p_handlers p)) (end_process pid (Exited EXIT_SUCCESS) k))"
    by (cases p) (simp add: daemonize_def execute.simps)
  have s4: "kernel_step (set_proc c1 (?q 3 True (p_handlers p)) (end_process pid (Exited EXIT_SUCCESS) k)) (Step c1 False 0) =
      Some (set_proc c1 (?q 4 True ?h) (end_process pid (Exited EXIT_SUCCESS) k))"
    by (cases p) (simp add: daemonize_def execute.simps)
  have s5: "kernel_step (set_proc c1 (?q 4 True ?h) (end_process pid (Exited EXIT_SUCCESS) k)) (Step c1 False c2) =
      Some (set_proc c2 (?q 5 False ?h) (parents_gone pid c1 k))"
    using new
    by (cases p) (simp add: daemonize_def execute.simps parents_gone_def)
  show ?thesis unfolding two append.simps exec.simps s1 s2 s3 s4 s5 option.case by (rule refl)
qed

lemma write_pid_step:
  assumes "k_procs k c = Some p" and "p_code p = Write_Pid # code" and "fd_inode (p_fds p) (p_lockfile_fd p) = Some i"
  shows "kernel_step k (Step c False 0) = Some (set_proc c
    (p\<lparr>p_code := code, p_lock_pos := p_lock_pos p + length (nat_dec c)\<rparr>)
    (k\<lparr>k_text := (k_text k)(i := overwrite (nat_dec c) (k_text k i))\<rparr>))"
  using assms by (simp add: execute.simps)

lemma print_header_step:
  assumes "k_procs k c = Some p" and "p_code p = Print_Header # code"
  shows "\<exists>f. kernel_step k (Step c False 0) = Some (set_proc c (p\<lparr>p_code := code\<rparr>) (k\<lparr>k_text := f\<rparr>))"
proof (cases "fd_inode (p_fds p) 1")
  case None
  then show ?thesis using assms by (intro exI [of _ "k_text k"]) (simp add: execute.simps)
next
  case (Some i)
  then show ?thesis using assms by (auto simp: execute.simps)
qed

lemma finish_phase:
  assumes p: "k_procs k c = Some p" "p_code p = drop 15 daemonize" "fd_inode (p_fds p) (p_lockfile_fd p) = Some i"
  shows "\<exists>txt q. exec kernel_step k (replicate 8 (Step c False 0)) = Some (set_proc c q (k\<lparr>k_text := txt\<rparr>)) \<and>
           p_code q = drop 23 daemonize \<and> p_service q = SLive \<and> p_stopped q = p_stopped p \<and> p_active q = p_active p \<and>
           (\<forall>s \<in> {SIGINT, SIGTERM, SIGHUP, SIGSEGV, SIGABRT}. p_handlers q s = Handler)"
proof -
  let ?sig = "[Signal SIGINT Handler, Signal SIGTERM Handler, Signal SIGHUP Handler, Signal SIGSEGV Handler,
      Signal SIGABRT Handler]"
  let ?p = "p\<lparr>p_code := ?sig @ drop 21 daemonize, p_lock_pos := p_lock_pos p + length (nat_dec c)\<rparr>"
  let ?k = "k\<lparr>k_text := (k_text k)(i := overwrite (nat_dec c) (k_text k i))\<rparr>"
  let ?q = "(fold plain_effect ?sig ?p)\<lparr>p_code := drop 21 daemonize\<rparr>"
  have eight: "replicate 8 x = [x] @ replicate (length ?sig) x @ [x, x]" for x :: kernel_event
    by (simp add: numeral_eq_Suc)
  have s1: "kernel_step k (Step c False 0) = Some (set_proc c ?p ?k)"
    by (rule write_pid_step [OF p(1) _ p(3)]) (simp add: p(2) daemonize_def)
  have s2: "exec kernel_step (set_proc c ?p ?k) (replicate (length ?sig) (Step c False 0)) = Some (set_proc c ?q ?k)"
    by (subst run_silent [of _ _ ?p ?sig "drop 21 daemonize"]) simp_all
  obtain f where s3: "kernel_step (set_proc c ?q ?k) (Step c False 0) =
      Some (set_proc c (?q\<lparr>p_code := drop 22 daemonize\<rparr>) (set_proc c ?q ?k\<lparr>k_text := f\<rparr>))"
    using print_header_step [of "set_proc c ?q ?k" c ?q "drop 22 daemonize"] by (auto simp: daemonize_def)
  have s4: "kernel_step (set_proc c (?q\<lparr>p_code := drop 22 daemonize\<rparr>) (set_proc c ?q ?k\<lparr>k_text := f\<rparr>)) (Step c False 0) =
      Some (set_proc c (?q\<lparr>p_code := drop 23 daemonize, p_service := SLive\<rparr>) (k\<lparr>k_text := f\<rparr>))"
    by (simp add: daemonize_def execute.simps) (simp add: set_proc_def)
  have "exec kernel_step k (replicate 8 (Step c False 0)) =
      Some (set_proc c (?q\<lparr>p_code := drop 23 daemonize, p_service := SLive\<rparr>) (k\<lparr>k_text := f\<rparr>))"
    unfolding eight exec_append exec.simps s1 option.case bind.bind_lunit s2 s3 s4 by (rule refl)
  then show ?thesis
    by (intro exI [of _ f] exI [of _ "?q\<lparr>p_code := drop 23 daemonize, p_service := SLive\<rparr>"])
      (simp add: plain_effect_def)
qed

lemma close_phase:
  assumes p: "k_procs k c = Some p" "p_code p = drop 5 daemonize" and free: "\<forall>i. k_locks k i \<noteq> Some c"
  shows "\<exists>q. exec kernel_step k (replicate 5 (Step c False 0)) = Some (set_proc c q k) \<and>
           p_code q = drop 10 daemonize \<and> p_fds q = (p_fds p)[0 := None, 1 := None, 2 := None] \<and>
           p_stopped q = p_stopped p \<and> p_active q = p_active p"
proof -
  let ?is = "[Umask, Chdir, Close 0, Close 1, Close 2]"
  have five: "replicate 5 x = replicate (length ?is) x" for x :: kernel_event by (simp add: numeral_eq_Suc)
  have "exec kernel_step k (replicate 5 (Step c False 0)) =
      Some (set_proc c ((fold plain_effect ?is p)\<lparr>p_code := drop 10 daemonize\<rparr>) k)"
    unfolding five by (rule run_silent [OF p(1)]) (use p free in \<open>simp_all add: daemonize_def\<close>)
  then show ?thesis
    by (intro exI [of _ "(fold plain_effect ?is p)\<lparr>p_code := drop 10 daemonize\<rparr>"]) (simp add: plain_effect_def)
qed

lemma come_to_lock:
  assumes p: "k_procs k pid = Some p" "p_code p = daemonize" and new: "pid \<noteq> c1" "pid \<noteq> c2" "c1 \<noteq> c2"
    "k_procs k c1 = None" "k_procs k c2 = None" "k_status k c1 = None" "k_status k c2 = None"
    and unlocked: "\<forall>i. k_locks k i \<noteq> Some c2" and null: "k_names k ''/dev/null'' = Some z"
  shows "\<exists>k' q i. exec kernel_step k (([Step pid False 0, Step pid False c1] @ replicate 2 (Step c1 False 0) @
             [Step c1 False c2]) @ replicate 9 (Step c2 False 0)) = Some (set_proc c2 q k') \<and>
           files_grow (parents_gone pid c1 k) k' \<and> k_names k' (LockFile k) = Some i \<and>
           (k_names k (LockFile k) = Some i \<or> k_next k \<le> i) \<and> p_code q = drop 14 daemonize \<and>
           fd_inode (p_fds q) (p_lockfile_fd q) = Some i \<and> p_stopped q = p_stopped p \<and> p_active q = p_active p"
proof -
  let ?k1 = "parents_gone pid c1 k"
  obtain p1 where p1: "exec kernel_step k ([Step pid False 0, Step pid False c1] @ replicate 2 (Step c1 False 0) @
        [Step c1 False c2]) = Some (set_proc c2 p1 ?k1)" "p_code p1 = drop 5 daemonize" "p_fds p1 = p_fds p"
      "p_stopped p1 = p_stopped p" "p_active p1 = p_active p"
    using fork_phase [OF p new] by simp
  have k1: "\<forall>i. k_locks ?k1 i \<noteq> Some c2" "k_names ?k1 = k_names k" "LockFile ?k1 = LockFile k" "k_next ?k1 = k_next k"
    using unlocked by (auto simp: parents_gone_def LockFile_def)
  obtain p2 where p2: "exec kernel_step (set_proc c2 p1 ?k1) (replicate 5 (Step c2 False 0)) = Some (set_proc c2 p2 ?k1)"
      "p_code p2 = drop 10 daemonize" "p_fds p2 = (p_fds p)[0 := None, 1 := None, 2 := None]"
      "p_stopped p2 = p_stopped p" "p_active p2 = p_active p"
    using close_phase [of "set_proc c2 p1 ?k1" c2 p1] k1(1) p1(2-5) by auto
  obtain k3 i f n where k3: "files_grow (set_proc c2 p2 ?k1) k3" "k_names k3 (LockFile k) = Some i"
      "fd_inode f n = Some i" "k_names k (LockFile k) = Some i \<or> k_next k \<le> i"
      "exec kernel_step (set_proc c2 p2 ?k1) (replicate 4 (Step c2 False 0)) =
        Some (set_proc c2 (p2\<lparr>p_code := drop 14 daemonize, p_fds := f, p_lockfile_fd := n, p_lock_pos := 0\<rparr>) k3)"
    using open_phase [OF _ p2(2,3), of "set_proc c2 p2 ?k1" c2 z] null k1(2-4) by auto
  let ?q = "p2\<lparr>p_code := drop 14 daemonize, p_fds := f, p_lockfile_fd := n, p_lock_pos := 0\<rparr>"
  let ?k' = "k3\<lparr>k_procs := k_procs ?k1\<rparr>"
  have form: "set_proc c2 ?q k3 = set_proc c2 ?q ?k'" using k3(1) by (simp add: set_proc_def files_grow_def)
  have nine: "replicate 9 x = replicate 5 x @ replicate 4 x" for x :: kernel_event by (simp flip: replicate_add)
  have run: "exec kernel_step k (([Step pid False 0, Step pid False c1] @ replicate 2 (Step c1 False 0) @
      [Step c1 False c2]) @ replicate 9 (Step c2 False 0)) = Some (set_proc c2 ?q ?k')"
    unfolding nine exec_then [OF p1(1)] exec_then [OF p2(1)] k3(5) form by (rule refl)
  have grow: "files_grow ?k1 ?k'" using k3(1) by (simp add: files_grow_def set_proc_def numbered_def)
  show ?thesis
    by (intro exI [of _ ?k'] exI [of _ ?q] exI [of _ i] conjI run grow)
      (use k3(2-4) p2(4,5) in simp_all)
qed

lemma come_up:
  assumes p: "k_procs k pid = Some p" "p_code p = daemonize" and new: "pid \<noteq> c1" "pid \<noteq> c2" "c1 \<noteq> c2"
    "k_procs k c1 = None" "k_procs k c2 = None" "k_status k c1 = None" "k_status k c2 = None"
    and unlocked: "\<forall>i. k_locks k i \<noteq> Some c2" and null: "k_names k ''/dev/null'' = Some z" and free: "lock_free k"
  shows "\<exists>t k' q i content. exec kernel_step k (start_up pid c1 c2) = Some t \<and> files_grow (parents_gone pid c1 k) k' \<and>
           t = set_proc c2 q (k'\<lparr>k_locks := (k_locks k')(i \<mapsto> c2), k_text := content\<rparr>) \<and>
           k_names t (LockFile t) = Some i \<and> p_code q = drop 23 daemonize \<and> p_service q = SLive \<and>
           p_stopped q = p_stopped p \<and> p_active q = p_active p \<and>
           (\<forall>s \<in> {SIGINT, SIGTERM, SIGHUP, SIGSEGV, SIGABRT}. p_handlers q s = Handler)"
proof -
  obtain k' r i where r: "exec kernel_step k (([Step pid False 0, Step pid False c1] @ replicate 2 (Step c1 False 0) @
        [Step c1 False c2]) @ replicate 9 (Step c2 False 0)) = Some (set_proc c2 r k')"
      "files_grow (parents_gone pid c1 k) k'" "k_names k' (LockFile k) = Some i"
      "k_names k (LockFile k) = Some i \<or> k_next k \<le> i" "p_code r = drop 14 daemonize"
      "fd_inode (p_fds r) (p_lockfile_fd r) = Some i" "p_stopped r = p_stopped p" "p_active r = p_active p"
    using come_to_lock [OF p new unlocked null] by blast
  have "k_locks (set_proc c2 r k') i = None"
    using r(2,4) free by (auto simp: files_grow_def parents_gone_def lock_free_def)
  then have lock: "exec kernel_step (set_proc c2 r k') (replicate 1 (Step c2 False 0)) =
      Some (set_proc c2 (r\<lparr>p_code := drop 15 daemonize\<rparr>) (k'\<lparr>k_locks := (k_locks k')(i \<mapsto> c2)\<rparr>))"
    using lock_phase [OF _ r(5,6), of "set_proc c2 r k'" c2] by (simp add: set_proc_def)
  let ?r = "r\<lparr>p_code := drop 15 daemonize\<rparr>"
  let ?k3 = "set_proc c2 ?r (k'\<lparr>k_locks := (k_locks k')(i \<mapsto> c2)\<rparr>)"
  obtain content q where q: "exec kernel_step ?k3 (replicate 8 (Step c2 False 0)) = Some (set_proc c2 q (?k3\<lparr>k_text := content\<rparr>))"
      "p_code q = drop 23 daemonize" "p_service q = SLive" "p_stopped q = p_stopped p" "p_active q = p_active p"
      "\<forall>s \<in> {SIGINT, SIGTERM, SIGHUP, SIGSEGV, SIGABRT}. p_handlers q s = Handler"
    using finish_phase [of ?k3 c2 ?r i] r(6-8) by auto
  have parts: "start_up pid c1 c2 = (([Step pid False 0, Step pid False c1] @ replicate 2 (Step c1 False 0) @
      [Step c1 False c2]) @ replicate 9 (Step c2 False 0)) @ replicate 1 (Step c2 False 0) @ replicate 8 (Step c2 False 0)"
    by (simp add: start_up_def numeral_eq_Suc)
  let ?t = "set_proc c2 q (k'\<lparr>k_locks := (k_locks k')(i \<mapsto> c2), k_text := content\<rparr>)"
  have "exec kernel_step k (start_up pid c1 c2) = Some (set_proc c2 q (?k3\<lparr>k_text := content\<rparr>))"
    unfolding parts exec_then [OF r(1)] exec_then [OF lock] by (rule q(1))
  also have "set_proc c2 q (?k3\<lparr>k_text := content\<rparr>) = ?t" by (simp add: set_proc_def)
  finally have run: "exec kernel_step k (start_up pid c1 c2) = Some ?t" .
  have name: "k_names ?t (LockFile ?t) = Some i"
    using r(2,3) by (simp add: LockFile_def set_proc_def files_grow_def parents_gone_def)
  show ?thesis using run r(2) name q(2-6) by blast
qed

text \<open>The lock file of a daemon that has it: another one that starts is refused.\<close>

lemma come_refused:
  assumes p: "k_procs k pid = Some p" "p_code p = daemonize" and new: "pid \<noteq> c1" "pid \<noteq> c2" "c1 \<noteq> c2"
    "k_procs k c1 = None" "k_procs k c2 = None" "k_status k c1 = None" "k_status k c2 = None"
    and unlocked: "\<forall>i. k_locks k i \<noteq> Some c2" and null: "k_names k ''/dev/null'' = Some z"
    and old: "k_names k (LockFile k) = Some i" and held: "k_locks k i = Some b" "b \<noteq> pid" "b \<noteq> c1"
  shows "\<exists>k'. files_grow (parents_gone pid c1 k) k' \<and>
           exec kernel_step k (([Step pid False 0, Step pid False c1] @ replicate 2 (Step c1 False 0) @
             [Step c1 False c2]) @ replicate 10 (Step c2 False 0)) = Some (end_process c2 (Exited EXIT_FAILURE) k')"
proof -
  obtain k' r j where r: "exec kernel_step k (([Step pid False 0, Step pid False c1] @ replicate 2 (Step c1 False 0) @
        [Step c1 False c2]) @ replicate 9 (Step c2 False 0)) = Some (set_proc c2 r k')"
      "files_grow (parents_gone pid c1 k) k'" "k_names k' (LockFile k) = Some j" "p_code r = drop 14 daemonize"
      "fd_inode (p_fds r) (p_lockfile_fd r) = Some j"
    using come_to_lock [OF p new unlocked null] by blast
  have "k_names k' (LockFile k) = Some i" "k_locks k' i = Some b"
    using r(2) old held by (simp_all add: files_grow_def parents_gone_def)
  then have j: "j = i" "k_locks (set_proc c2 r k') j = Some b" "b \<noteq> c2" using r(3) held(1) unlocked by auto
  have lock: "exec kernel_step (set_proc c2 r k') (replicate 1 (Step c2 False 0)) = Some (end_process c2 (Exited EXIT_FAILURE) k')"
    using lock_phase [OF _ r(4,5), of "set_proc c2 r k'" c2] j by simp
  have parts: "xs @ replicate 10 x = (xs @ replicate 9 x) @ replicate 1 x" for xs and x :: kernel_event
    by (simp add: numeral_eq_Suc)
  show ?thesis using r(2) unfolding parts exec_then [OF r(1)] lock by blast
qed

section \<open>Going down\<close>

lemma cleanup_phase:
  assumes "k_procs k c = Some p" and "p_code p = daemon_try_cleanup @ rest"
  shows "\<exists>t q. exec kernel_step k (replicate 3 (Step c False 0)) = Some t \<and> k_procs t = (k_procs k)(c \<mapsto> q) \<and>
           q = p\<lparr>p_code := rest, p_fds := p_fds q\<rparr> \<and> k_status t = k_status k \<and> k_next t = k_next k \<and>
           k_program t = k_program k \<and> k_names t = (k_names k)(LockFile k := None) \<and>
           (\<forall>i. k_locks t i = k_locks k i \<or> k_locks k i = Some c \<and> k_locks t i = None)"
proof -
  let ?i = "fd_inode (p_fds p) (p_lockfile_fd p)"
  let ?q = "p\<lparr>p_code := rest, p_fds := (p_fds p)[p_lockfile_fd p := None]\<rparr>"
  let ?u = "if p_lock_pos p = 0 then release c ?i k else k"
  let ?k = "release c ?i k"
  have twice: "release c i (set_proc c r (release c i k)) = set_proc c r (release c i k)"
      "release c i (set_proc c r k) = set_proc c r (release c i k)" for i r
    by (cases k; auto simp: release_def set_proc_def fun_eq_iff)+
  have s1: "kernel_step k (Step c False 0) = Some (set_proc c (p\<lparr>p_code := [Close_Lock, Unlink_Lock] @ rest\<rparr>) ?u)"
    using assms by (simp add: daemon_try_cleanup_def execute.simps)
  have s2: "kernel_step (set_proc c (p\<lparr>p_code := [Close_Lock, Unlink_Lock] @ rest\<rparr>) ?u) (Step c False 0) =
      Some (set_proc c (?q\<lparr>p_code := Unlink_Lock # rest\<rparr>) ?k)"
    by (cases p; cases "p_lock_pos p") (simp_all add: execute.simps close_fd_def twice)
  have s3: "kernel_step (set_proc c (?q\<lparr>p_code := Unlink_Lock # rest\<rparr>) ?k) (Step c False 0) =
      Some (set_proc c ?q ((set_proc c (?q\<lparr>p_code := Unlink_Lock # rest\<rparr>) ?k)\<lparr>k_names := (k_names ?k)(LockFile ?k := None)\<rparr>))"
    by (cases p) (simp add: execute.simps)
  have three: "replicate 3 x = [x, x, x]" for x :: kernel_event by (simp add: numeral_eq_Suc)
  show ?thesis
    unfolding three exec.simps s1 s2 s3 option.case
    by (intro exI conjI) (rule refl, auto simp: release_def set_proc_def LockFile_def)
qed

text \<open>
  \<^verbatim>\<open>SIGINT\<close> or \<^verbatim>\<open>SIGTERM\<close> up to the end of the cleanup in the handler, from there to the return of the handler, then
  the end of \<^verbatim>\<open>run\<close>, whatever brought it about.
\<close>

lemma term_first:
  assumes "k_procs k c = Some p" and "p_code p = drop 23 daemonize" and "p_service p = SLive"
    and "s \<in> {SIGINT, SIGTERM}" and "p_handlers p s = Handler" and "s \<notin> set (p_active p)"
  shows "\<exists>t q. exec kernel_step k (Deliver c s # replicate 3 (Step c False 0)) = Some t \<and>
           k_procs t = (k_procs k)(c \<mapsto> q) \<and> p_service q = SLive \<and>
           p_code q = [Stop, Signal s SIG_DFL, Sigreturn s] @ drop 23 daemonize \<and>
           p_handlers q = p_handlers p \<and> p_active q = s # p_active p \<and>
           k_status t = k_status k \<and> k_next t = k_next k \<and> k_program t = k_program k \<and>
           k_names t = (k_names k)(LockFile k := None) \<and>
           (\<forall>i. k_locks t i = k_locks k i \<or> k_locks k i = Some c \<and> k_locks t i = None)"
proof -
  let ?rest = "[Stop, Signal s SIG_DFL, Sigreturn s] @ drop 23 daemonize"
  let ?p = "p\<lparr>p_code := daemon_try_cleanup @ ?rest, p_active := s # p_active p\<rparr>"
  have d: "kernel_step k (Deliver c s) = Some (set_proc c ?p k)"
    using assms by (auto simp: daemon_signal_handler_def)
  obtain t q where t: "exec kernel_step (set_proc c ?p k) (replicate 3 (Step c False 0)) = Some t"
      "k_procs t = (k_procs (set_proc c ?p k))(c \<mapsto> q)" "q = ?p\<lparr>p_code := ?rest, p_fds := p_fds q\<rparr>"
      "k_status t = k_status k" "k_next t = k_next k" "k_program t = k_program k"
      "k_names t = (k_names k)(LockFile k := None)"
      "\<forall>i. k_locks t i = k_locks k i \<or> k_locks k i = Some c \<and> k_locks t i = None"
    using cleanup_phase [of "set_proc c ?p k" c ?p ?rest] by auto
  have "p_service q = SLive" "p_code q = ?rest" "p_handlers q = p_handlers p" "p_active q = s # p_active p"
    by (subst t(3), simp add: assms(3))+
  moreover have "k_procs t = (k_procs k)(c \<mapsto> q)" using t(2) by (simp add: set_proc_def)
  moreover have "exec kernel_step k (Deliver c s # replicate 3 (Step c False 0)) = Some t"
    unfolding exec.simps d option.case by (rule t(1))
  ultimately show ?thesis using t(4-8) by blast
qed

lemma term_return:
  assumes "k_procs k c = Some p" and "p_service p = SLive"
    and "p_code p = [Stop, Signal s SIG_DFL, Sigreturn s] @ rest"
  shows "exec kernel_step k (replicate 3 (Step c False 0)) =
    Some (set_proc c (p\<lparr>p_code := rest, p_stopped := True, p_handlers := (p_handlers p)(s := SIG_DFL),
      p_active := remove1 s (p_active p)\<rparr>) k)"
proof -
  have three: "replicate 3 x = [x, x, x]" for x :: kernel_event by (simp add: numeral_eq_Suc)
  show ?thesis unfolding three using assms by (cases p) (simp add: execute.simps)
qed

lemma run_deletes:
  assumes "k_procs k c = Some p" and "p_code p = drop 23 daemonize"
  shows "exec kernel_step k (replicate 2 (Step c False 0)) =
    Some (set_proc c (p\<lparr>p_code := daemon_try_cleanup @ [Exit_Success], p_service := SDeleted\<rparr>) k)"
proof -
  have two: "replicate 2 x = [x, x]" for x :: kernel_event by (simp add: numeral_eq_Suc)
  show ?thesis unfolding two using assms by (cases p) (simp add: daemonize_def execute.simps)
qed

lemma run_exits:
  assumes "k_procs k c = Some p" and "p_code p = daemon_try_cleanup @ [Exit_Success]"
  shows "\<exists>t. exec kernel_step k (replicate 4 (Step c False 0)) = Some t \<and> k_procs t = (k_procs k)(c := None) \<and>
           k_status t = (k_status k)(c \<mapsto> Exited EXIT_SUCCESS) \<and> k_next t = k_next k \<and> k_program t = k_program k \<and>
           k_names t = (k_names k)(LockFile k := None) \<and>
           (\<forall>i. k_locks t i = (if k_locks k i = Some c then None else k_locks k i))"
proof -
  obtain u r where u: "exec kernel_step k (replicate 3 (Step c False 0)) = Some u"
      "k_procs u = (k_procs k)(c \<mapsto> r)" "r = p\<lparr>p_code := [Exit_Success], p_fds := p_fds r\<rparr>"
      "k_status u = k_status k" "k_next u = k_next k" "k_program u = k_program k"
      "k_names u = (k_names k)(LockFile k := None)"
      "\<forall>i. k_locks u i = k_locks k i \<or> k_locks k i = Some c \<and> k_locks u i = None"
    using cleanup_phase [OF assms] by blast
  have r: "p_code r = [Exit_Success]" by (subst u(3)) simp
  let ?t = "end_process c (Exited EXIT_SUCCESS) u"
  have last: "exec kernel_step u (replicate 1 (Step c False 0)) = Some ?t"
    using u(2) r by (simp add: execute.simps)
  have parts: "replicate 4 x = replicate 3 x @ replicate 1 x" for x :: kernel_event
    by (simp add: numeral_eq_Suc)
  have "exec kernel_step k (replicate 4 (Step c False 0)) = Some ?t"
    unfolding parts exec_then [OF u(1)] by (rule last)
  moreover have "k_procs ?t = (k_procs k)(c := None)" using u(2) by simp
  moreover have "k_locks ?t i = (if k_locks k i = Some c then None else k_locks k i)" for i
    using u(8) [rule_format, of i] by auto
  ultimately show ?thesis using u(4-7) by (intro exI [of _ ?t]) simp
qed

lemma term_rest:
  assumes "k_procs k c = Some p" and "p_service p = SLive"
    and "p_code p = [Stop, Signal s SIG_DFL, Sigreturn s] @ drop 23 daemonize"
  shows "\<exists>t. exec kernel_step k (replicate 9 (Step c False 0)) = Some t \<and> k_procs t = (k_procs k)(c := None) \<and>
           k_status t = (k_status k)(c \<mapsto> Exited EXIT_SUCCESS) \<and> k_next t = k_next k \<and> k_program t = k_program k \<and>
           k_names t = (k_names k)(LockFile k := None) \<and>
           (\<forall>i. k_locks t i = (if k_locks k i = Some c then None else k_locks k i))"
proof -
  let ?q = "p\<lparr>p_code := drop 23 daemonize, p_stopped := True, p_handlers := (p_handlers p)(s := SIG_DFL),
      p_active := remove1 s (p_active p)\<rparr>"
  let ?r = "?q\<lparr>p_code := daemon_try_cleanup @ [Exit_Success], p_service := SDeleted\<rparr>"
  have two: "exec kernel_step (set_proc c ?q k) (replicate 2 (Step c False 0)) = Some (set_proc c ?r k)"
    using run_deletes [of "set_proc c ?q k" c ?q] by simp
  have parts: "replicate 9 x = replicate 3 x @ replicate 2 x @ replicate 4 x" for x :: kernel_event
    by (simp flip: replicate_add)
  have procs: "(k_procs (set_proc c x k))(c := None) = (k_procs k)(c := None)" for x by (simp add: set_proc_def)
  show ?thesis
    unfolding parts exec_then [OF term_return [OF assms]] exec_then [OF two]
    using run_exits [of "set_proc c ?r k" c ?r] by (simp add: procs cong: if_cong)
qed

section \<open>A succession of daemons\<close>

text \<open>Inodes are numbered in order, only existing ones are locked, and there is a null device.\<close>

definition sound :: "kernel \<Rightarrow> bool" where
  "sound k \<longleftrightarrow> numbered k \<and> (\<forall>i \<ge> k_next k. k_locks k i = None) \<and> k_names k ''/dev/null'' \<noteq> None"

lemma null_not_lock: "''/dev/null'' \<noteq> LockFile k"
  by (simp add: LockFile_def)

definition lockers :: "kernel \<Rightarrow> nat set" where
  "lockers k = {a. \<exists>j. k_locks k j = Some a}"

lemma start_next:
  assumes "k_procs k pid = Some p" and "p_code p = daemonize" and "pid \<noteq> c1" "pid \<noteq> c2" "c1 \<noteq> c2"
    and "k_procs k c1 = None" "k_procs k c2 = None" "k_status k c1 = None" "k_status k c2 = None"
    and "sound k" and "c2 \<notin> lockers k" and "\<forall>i. k_names k (LockFile k) = Some i \<longrightarrow> k_locks k i = None"
  shows "\<exists>t q. exec kernel_step k (start_up pid c1 c2) = Some t \<and> sound t \<and> lockers t \<subseteq> insert c2 (lockers k) \<and>
           k_procs t = (k_procs k)(pid := None, c1 := None, c2 \<mapsto> q) \<and>
           k_status t = (k_status k)(pid \<mapsto> Exited EXIT_SUCCESS, c1 \<mapsto> Exited EXIT_SUCCESS) \<and>
           p_code q = drop 23 daemonize \<and> p_service q = SLive \<and> p_stopped q = p_stopped p \<and>
           p_active q = p_active p \<and> p_handlers q SIGTERM = Handler"
proof -
  obtain z where z: "k_names k ''/dev/null'' = Some z" using assms(10) by (auto simp: sound_def)
  have free: "\<forall>i. k_locks k i \<noteq> Some c2" "lock_free k"
    using assms(10-12) by (auto simp: lockers_def lock_free_def sound_def)
  obtain t k' q i content where t: "exec kernel_step k (start_up pid c1 c2) = Some t"
      "files_grow (parents_gone pid c1 k) k'"
      "t = set_proc c2 q (k'\<lparr>k_locks := (k_locks k')(i \<mapsto> c2), k_text := content\<rparr>)"
      "k_names t (LockFile t) = Some i" "p_code q = drop 23 daemonize" "p_service q = SLive"
      "p_stopped q = p_stopped p" "p_active q = p_active p" "p_handlers q SIGTERM = Handler"
    using come_up [OF assms(1-9) free(1) z free(2)] by blast
  have tk: "k_procs t = (k_procs k')(c2 \<mapsto> q)" "k_status t = k_status k'" "k_locks t = (k_locks k')(i \<mapsto> c2)"
      "k_names t = k_names k'" "k_next t = k_next k'"
    by (simp_all add: t(3) set_proc_def)
  have grow: "k_procs k' = (k_procs k)(pid := None, c1 := None)"
      "k_status k' = (k_status k)(pid \<mapsto> Exited EXIT_SUCCESS, c1 \<mapsto> Exited EXIT_SUCCESS)"
      "k_next k \<le> k_next k'" "k_names k' ''/dev/null'' = Some z" "numbered k'"
      "\<And>j a. k_locks k' j = Some a \<Longrightarrow> k_locks k j = Some a"
    using t(2) z assms(10)
    by (auto simp: files_grow_def parents_gone_def numbered_def sound_def split: if_splits)
  have "i < k_next k'" using grow(5) t(4) tk(4) by (auto simp: numbered_def)
  then have "sound t"
    using grow(3-6) assms(10) unfolding sound_def tk numbered_def by (metis fun_upd_apply leD le_trans not_None_eq)
  moreover have "lockers t \<subseteq> insert c2 (lockers k)" using grow(6) by (auto simp: lockers_def tk(3))
  moreover note tk(1,2) [unfolded grow(1,2)]
  ultimately show ?thesis using t(1,5-9) by (intro exI [of _ t] exI [of _ q]) simp
qed

lemma unlink_sound:
  assumes "sound k" and "k_next t = k_next k" and "k_program t = k_program k"
    and names: "k_names t = (k_names k)(LockFile k := None)" and locks: "\<forall>i. k_locks t i = k_locks k i \<or> k_locks t i = None"
  shows "sound t" and "lockers t \<subseteq> lockers k" and "k_names t (LockFile t) = None"
proof -
  have "numbered t" using assms(1,2) by (auto simp: numbered_def sound_def names split: if_splits)
  moreover have "k_names t ''/dev/null'' \<noteq> None" using assms(1) null_not_lock [of k] by (simp add: names sound_def)
  moreover have "k_locks t i = None" if "k_next t \<le> i" for i
    using assms(1,2) locks [rule_format, of i] that by (auto simp: sound_def)
  ultimately show "sound t" by (simp add: sound_def)
  have "k_locks k i = Some a" if "k_locks t i = Some a" for i a
    using locks [rule_format, of i] that by auto
  then show "lockers t \<subseteq> lockers k" by (auto simp: lockers_def)
  show "k_names t (LockFile t) = None" using assms(3) by (simp add: names LockFile_def)
qed

section \<open>Properties\<close>

text \<open>
  C25. Whatever daemons start at the same time, in whatever interleaving, and whichever of their system
  calls fail, at most one holds the lock file: as long as none is signalled and no service ends,
  two daemons that got past \<^verbatim>\<open>lockf\<close> are the same process.
\<close>

theorem single_instance:
  assumes "callers k" and "exec quiet_step k es = Some t"
    and "k_procs t a = Some p" and "past_lock p" and "k_procs t b = Some q" and "past_lock q"
  shows "a = b"
proof -
  have past: "15 \<le> n" if at: "daemon_at t n c r" and pr: "past_lock r" for n c r
  proof (rule ccontr)
    assume "\<not> 15 \<le> n"
    moreover have "\<forall>m < 15. Lock_File \<in> set (drop m daemonize)" by code_simp
    ultimately show False using at pr by (auto simp: daemon_at_def past_lock_def)
  qed
  have "daemon_inv t" using callers_inv [OF assms(1)] assms(2) by (rule quiet.exec_keeps)
  then obtain m n where mn: "daemon_at t m a p" "daemon_at t n b q"
    using assms(3,5) unfolding daemon_inv_def by blast
  obtain i where "k_names t (LockFile t) = Some i" "k_locks t i = Some a"
    using mn(1) past [OF mn(1) assms(4)] by (auto simp: daemon_at_def lock_at_def)
  moreover obtain j where "k_names t (LockFile t) = Some j" "k_locks t j = Some b"
    using mn(2) past [OF mn(2) assms(6)] by (auto simp: daemon_at_def lock_at_def)
  ultimately show ?thesis by simp
qed

theorem single_instance_witness:
  "\<exists>t p. exec quiet_step demo_kernel (start_up 10 11 12) = Some t \<and> k_procs t 12 = Some p \<and> past_lock p \<and>
     (\<forall>b q. k_procs t b = Some q \<longrightarrow> past_lock q \<longrightarrow> 12 = b)"
proof -
  have "case exec quiet_step demo_kernel (start_up 10 11 12) of None \<Rightarrow> False
    | Some t \<Rightarrow> (case k_procs t 12 of None \<Rightarrow> False | Some p \<Rightarrow> past_lock p)"
    by code_simp
  then obtain t p where "exec quiet_step demo_kernel (start_up 10 11 12) = Some t" "k_procs t 12 = Some p" "past_lock p"
    by (auto split: option.splits)
  then show ?thesis using single_instance [OF demo_callers] by blast
qed

text \<open>
  C28. A daemon that reaches \<^verbatim>\<open>run\<close> and was not signalled itself is set up and holds the lock, whatever happens to the
  other processes: in every run of the system, with signals to any other process, failing calls and services that end or throw
  included, its standard input is \<^verbatim>\<open>/dev/null\<close>, output and error are the log file whatever descriptors the caller had
  open, it leads no session, its mask is 0, it is in the root directory, its five handlers are installed, its
  service exists and it holds the lock of the file it opened as the lock file. That this file still has the name of the lock
  file is shown for runs without signals and without daemons that end, since a daemon that ends removes the name. When
  the programs start the handler is not installed; it is a static function of the file.
\<close>

theorem daemon_ready:
  assumes "callers k" and "\<forall>q r s. k_procs k q = Some r \<longrightarrow> p_handlers r s \<noteq> Handler"
    and "exec kernel_step k es = Some t" and "\<forall>s. Deliver pid s \<notin> set es"
    and "k_procs t pid = Some p" and "hd (p_code p) = Run"
  shows "\<exists>z l i. k_names t ''/dev/null'' = Some z \<and> fd_inode (p_fds p) 0 = Some z \<and>
           k_names t (LogFile t) = Some l \<and> fd_inode (p_fds p) 1 = Some l \<and> fd_inode (p_fds p) 2 = Some l \<and>
           \<not> p_leader p \<and> p_umask p = 0 \<and> p_cwd p = ''/'' \<and> p_service p = SLive \<and>
           (\<forall>s. p_handlers p s = (if s = SIGCHLD then SIG_IGN else Handler)) \<and>
           fd_inode (p_fds p) (p_lockfile_fd p) = Some i \<and> k_locks t i = Some pid \<and>
           (exec quiet_step k es = Some t \<longrightarrow> k_names t (LockFile t) = Some i)"
proof -
  have "undisturbed (- {pid}) k"
    using assms(1,2) by (auto simp: undisturbed_def callers_def own_at_def held_at_def ready_at_def daemonize_def
        intro!: exI [of _ 0])
  moreover have "\<forall>e \<in> set es. \<forall>q s. e = Deliver q s \<longrightarrow> q \<in> - {pid}" using assms(4) by auto
  ultimately have "undisturbed (- {pid}) t" by (rule undisturbed_run [OF assms(3)])
  then consider n where "own_at t n pid p" | "aborting p" using assms(5) by (auto simp: undisturbed_def)
  then obtain n where n: "own_at t n pid p"
  proof cases
    case 2
    then show ?thesis using assms(6) by (cases "p_code p") (auto simp: aborting_def)
  qed
  have runs: "\<forall>m < 29. hd (drop m daemonize) = Run \<longrightarrow> m = 23" by code_simp
  have "n = 23" using runs n assms(6) by (auto simp: own_at_def daemonize_def daemon_try_cleanup_def)
  then have r: "ready_at t 23 p" and h: "held_at t 23 pid p" using n by (simp_all add: own_at_def)
  obtain i where i: "fd_inode (p_fds p) (p_lockfile_fd p) = Some i" "k_locks t i = Some pid"
    using h by (auto simp: held_at_def)
  have "k_names t (LockFile t) = Some i" if "exec quiet_step k es = Some t"
  proof -
    have "daemon_inv t" using callers_inv [OF assms(1)] that by (rule quiet.exec_keeps)
    then obtain m where m: "daemon_at t m pid p" using assms(5) unfolding daemon_inv_def by blast
    then have "m = 23" using runs assms(6) by (auto simp: daemon_at_def)
    then show ?thesis using m i by (auto simp: daemon_at_def lock_at_def)
  qed
  moreover have "p_handlers p s = (if s = SIGCHLD then SIG_IGN else Handler)" for s
    using r by (cases s) (simp_all add: ready_at_def)
  ultimately show ?thesis using r i by (auto simp: ready_at_def)
qed

text \<open>Another program is ended by a signal before the daemon starts.\<close>

theorem daemon_ready_witness:
  "\<exists>t p l i. exec kernel_step demo_kernel (Deliver 20 SIGTERM # start_up 10 11 12) = Some t \<and> k_procs t 12 = Some p \<and>
     fd_inode (p_fds p) 0 = Some 0 \<and> k_names t ''/var/log/d.log'' = Some l \<and> fd_inode (p_fds p) 2 = Some l \<and>
     k_locks t i = Some 12"
proof -
  have "case exec kernel_step demo_kernel (Deliver 20 SIGTERM # start_up 10 11 12) of None \<Rightarrow> False
    | Some t \<Rightarrow> k_names t ''/dev/null'' = Some 0 \<and> k_program t = ''d'' \<and>
        (case k_procs t 12 of None \<Rightarrow> False | Some p \<Rightarrow> hd (p_code p) = Run)"
    by code_simp
  then obtain t p where t: "exec kernel_step demo_kernel (Deliver 20 SIGTERM # start_up 10 11 12) = Some t"
      "k_procs t 12 = Some p" "hd (p_code p) = Run" "k_names t ''/dev/null'' = Some 0" "LogFile t = ''/var/log/d.log''"
    by (auto simp: LogFile_def split: option.splits)
  have h: "\<forall>q r s. k_procs demo_kernel q = Some r \<longrightarrow> p_handlers r s \<noteq> Handler"
    by (auto simp: demo_kernel_def demo_proc_def)
  have e: "\<forall>s. Deliver 12 s \<notin> set (Deliver 20 SIGTERM # start_up 10 11 12)" by (auto simp: start_up_def)
  show ?thesis using daemon_ready [OF demo_callers h t(1) e t(2,3)] t(1,2,4,5) by fastforce
qed

text \<open>
  C31. A program that calls \<^verbatim>\<open>daemonize\<close> while the lock is free does get its service running, in a grandchild,
  when no system call fails: after 23 instructions the two parents have exited with success, the daemon is before \<^verbatim>\<open>run\<close>
  with the lock, and the other processes and the locks they hold are as before.
\<close>

theorem daemon_comes_up:
  assumes "k_procs k pid = Some p" and "p_code p = daemonize" and "distinct [pid, c1, c2]"
    and "\<forall>c \<in> {c1, c2}. k_procs k c = None \<and> k_status k c = None" and "\<forall>i. k_locks k i \<noteq> Some c2"
    and "k_names k ''/dev/null'' \<noteq> None" and "lock_free k"
  shows "\<exists>t q i. exec kernel_step k (start_up pid c1 c2) = Some t \<and> k_procs t c2 = Some q \<and>
           p_code q = drop 23 daemonize \<and> p_service q = SLive \<and>
           k_names t (LockFile t) = Some i \<and> k_locks t i = Some c2 \<and>
           k_status t pid = Some (Exited EXIT_SUCCESS) \<and> k_status t c1 = Some (Exited EXIT_SUCCESS) \<and>
           (\<forall>a. a \<notin> {pid, c1, c2} \<longrightarrow> k_procs t a = k_procs k a \<and>
              (\<forall>j. k_locks k j = Some a \<longrightarrow> k_locks t j = Some a \<or> j = i))"
proof -
  obtain z where z: "k_names k ''/dev/null'' = Some z" using assms(6) by blast
  have new: "pid \<noteq> c1" "pid \<noteq> c2" "c1 \<noteq> c2" "k_procs k c1 = None" "k_procs k c2 = None"
      "k_status k c1 = None" "k_status k c2 = None"
    using assms(3,4) by auto
  obtain t k' q i content where t: "exec kernel_step k (start_up pid c1 c2) = Some t"
      "files_grow (parents_gone pid c1 k) k'"
      "t = set_proc c2 q (k'\<lparr>k_locks := (k_locks k')(i \<mapsto> c2), k_text := content\<rparr>)"
      "k_names t (LockFile t) = Some i" "p_code q = drop 23 daemonize" "p_service q = SLive"
    using come_up [OF assms(1,2) new assms(5) z assms(7)] by blast
  have "k_procs t = (k_procs k)(pid := None, c1 := None, c2 \<mapsto> q)"
      "k_status t = (k_status k)(pid \<mapsto> Exited EXIT_SUCCESS, c1 \<mapsto> Exited EXIT_SUCCESS)"
      "k_locks t = (k_locks (parents_gone pid c1 k))(i \<mapsto> c2)"
    using t(2) unfolding t(3) by (simp_all add: files_grow_def set_proc_def parents_gone_def)
  then show ?thesis using t(1,4-6) new by (intro exI [of _ t] exI [of _ q] exI [of _ i]) (auto simp: parents_gone_def)
qed

theorem daemon_comes_up_witness:
  "\<exists>t q. exec kernel_step demo_kernel (start_up 20 21 22) = Some t \<and> k_procs t 22 = Some q \<and>
     p_service q = SLive \<and> k_status t 21 = Some (Exited EXIT_SUCCESS) \<and> k_procs t 10 = Some demo_proc"
proof -
  have "\<exists>t q i. exec kernel_step demo_kernel (start_up 20 21 22) = Some t \<and> k_procs t 22 = Some q \<and>
           p_code q = drop 23 daemonize \<and> p_service q = SLive \<and>
           k_names t (LockFile t) = Some i \<and> k_locks t i = Some 22 \<and>
           k_status t 20 = Some (Exited EXIT_SUCCESS) \<and> k_status t 21 = Some (Exited EXIT_SUCCESS) \<and>
           (\<forall>a. a \<notin> {20, 21, 22} \<longrightarrow> k_procs t a = k_procs demo_kernel a \<and>
              (\<forall>j. k_locks demo_kernel j = Some a \<longrightarrow> k_locks t j = Some a \<or> j = i))"
    by (rule daemon_comes_up [where p = demo_proc])
      (simp_all add: demo_kernel_def demo_proc_def lock_free_def)
  moreover have "k_procs demo_kernel 10 = Some demo_proc" by (simp add: demo_kernel_def)
  ultimately show ?thesis by fastforce
qed

text \<open>
  C32. \<^verbatim>\<open>SIGINT\<close> or \<^verbatim>\<open>SIGTERM\<close> ends a running daemon left to itself. Six instructions later the handler has
  returned: \<^verbatim>\<open>stop\<close> was called on the service, which still exists, the signal has its default action again, the lock
  file has no name, and the daemon is where it was, in \<^verbatim>\<open>run\<close>. Once \<^verbatim>\<open>run\<close> returns the service is deleted, and after
  four more instructions the process has exited with success, its locks are gone and no other process changed. The name of
  the lock file is removed twice, the second time although the process no longer owns the file.
\<close>

theorem stop_signal_ends:
  assumes "k_procs k pid = Some p" and "p_code p = drop 23 daemonize" and "p_service p = SLive"
    and "s \<in> {SIGINT, SIGTERM}" and "p_handlers p s = Handler" and "s \<notin> set (p_active p)"
  shows "\<exists>u q v r t. exec kernel_step k (Deliver pid s # replicate 6 (Step pid False 0)) = Some u \<and>
           k_procs u = (k_procs k)(pid \<mapsto> q) \<and> p_stopped q \<and> p_service q = SLive \<and> p_code q = drop 23 daemonize \<and>
           p_handlers q = (p_handlers p)(s := SIG_DFL) \<and> p_active q = p_active p \<and>
           k_names u = (k_names k)(LockFile k := None) \<and>
           exec kernel_step u (replicate 2 (Step pid False 0)) = Some v \<and>
           k_procs v = (k_procs k)(pid \<mapsto> r) \<and> p_stopped r \<and> p_service r = SDeleted \<and>
           exec kernel_step v (replicate 4 (Step pid False 0)) = Some t \<and>
           k_status t = (k_status k)(pid \<mapsto> Exited EXIT_SUCCESS) \<and> k_procs t = (k_procs k)(pid := None) \<and>
           pid \<notin> lockers t \<and> k_names t = (k_names k)(LockFile k := None)"
proof -
  obtain w x where w: "exec kernel_step k (Deliver pid s # replicate 3 (Step pid False 0)) = Some w"
      "k_procs w = (k_procs k)(pid \<mapsto> x)" "p_service x = SLive"
      "p_code x = [Stop, Signal s SIG_DFL, Sigreturn s] @ drop 23 daemonize" "p_handlers x = p_handlers p"
      "p_active x = s # p_active p" "k_status w = k_status k" "k_program w = k_program k"
      "k_names w = (k_names k)(LockFile k := None)"
    using term_first [OF assms] by blast
  let ?q = "x\<lparr>p_code := drop 23 daemonize, p_stopped := True, p_handlers := (p_handlers x)(s := SIG_DFL),
      p_active := remove1 s (p_active x)\<rparr>"
  let ?r = "?q\<lparr>p_code := daemon_try_cleanup @ [Exit_Success], p_service := SDeleted\<rparr>"
  have "k_procs w pid = Some x" using w(2) by simp
  note ret = term_return [OF this w(3,4)]
  have six: "Deliver pid s # replicate 6 y = (Deliver pid s # replicate 3 y) @ replicate 3 y" for y
    by (simp add: numeral_eq_Suc)
  have u: "exec kernel_step k (Deliver pid s # replicate 6 (Step pid False 0)) = Some (set_proc pid ?q w)"
    unfolding six exec_then [OF w(1)] by (rule ret)
  have v: "exec kernel_step (set_proc pid ?q w) (replicate 2 (Step pid False 0)) = Some (set_proc pid ?r w)"
    using run_deletes [of "set_proc pid ?q w" pid ?q] by simp
  obtain t where t: "exec kernel_step (set_proc pid ?r w) (replicate 4 (Step pid False 0)) = Some t"
      "k_procs t = (k_procs (set_proc pid ?r w))(pid := None)" "k_status t = (k_status w)(pid \<mapsto> Exited EXIT_SUCCESS)"
      "k_names t = (k_names w)(LockFile w := None)"
      "\<forall>i. k_locks t i = (if k_locks w i = Some pid then None else k_locks w i)"
    using run_exits [of "set_proc pid ?r w" pid ?r] by auto
  have procs: "k_procs (set_proc pid y w) = (k_procs k)(pid \<mapsto> y)" for y using w(2) by (simp add: set_proc_def)
  have "LockFile w = LockFile k" using w(8) by (simp add: LockFile_def)
  moreover have "pid \<notin> lockers t" using t(5) by (auto simp: lockers_def)
  ultimately show ?thesis
    by (intro exI [of _ "set_proc pid ?q w"] exI [of _ ?q] exI [of _ "set_proc pid ?r w"] exI [of _ ?r] exI [of _ t]
        conjI u v t(1) procs)
      (use t(2-4) w in \<open>simp_all add: procs\<close>)
qed

definition demo_running :: kernel where
  "demo_running = demo_kernel\<lparr>k_procs := [12 \<mapsto> demo_proc\<lparr>p_code := drop 23 daemonize, p_service := SLive,
     p_handlers := (\<lambda>_. Handler)\<rparr>]\<rparr>"

theorem stop_signal_ends_witness:
  "\<exists>u q t. exec kernel_step demo_running (Deliver 12 SIGTERM # replicate 6 (Step 12 False 0)) = Some u \<and>
     k_procs u 12 = Some q \<and> p_stopped q \<and> exec kernel_step u (replicate 6 (Step 12 False 0)) = Some t \<and>
     k_status t 12 = Some (Exited EXIT_SUCCESS)"
proof -
  let ?p = "demo_proc\<lparr>p_code := drop 23 daemonize, p_service := SLive, p_handlers := (\<lambda>_. Handler)\<rparr>"
  have "k_procs demo_running 12 = Some ?p" by (simp add: demo_running_def)
  moreover have "SIGTERM \<notin> set (p_active ?p)" by (simp add: demo_proc_def)
  ultimately have "\<exists>u q v r t. exec kernel_step demo_running (Deliver 12 SIGTERM # replicate 6 (Step 12 False 0)) = Some u \<and>
      k_procs u = (k_procs demo_running)(12 \<mapsto> q) \<and> p_stopped q \<and> p_service q = SLive \<and> p_code q = drop 23 daemonize \<and>
      p_handlers q = (p_handlers ?p)(SIGTERM := SIG_DFL) \<and> p_active q = p_active ?p \<and>
      k_names u = (k_names demo_running)(LockFile demo_running := None) \<and>
      exec kernel_step u (replicate 2 (Step 12 False 0)) = Some v \<and>
      k_procs v = (k_procs demo_running)(12 \<mapsto> r) \<and> p_stopped r \<and> p_service r = SDeleted \<and>
      exec kernel_step v (replicate 4 (Step 12 False 0)) = Some t \<and>
      k_status t = (k_status demo_running)(12 \<mapsto> Exited EXIT_SUCCESS) \<and> k_procs t = (k_procs demo_running)(12 := None) \<and>
      12 \<notin> lockers t \<and> k_names t = (k_names demo_running)(LockFile demo_running := None)"
    by (intro stop_signal_ends) simp_all
  then obtain u q v t where t: "exec kernel_step demo_running (Deliver 12 SIGTERM # replicate 6 (Step 12 False 0)) = Some u"
      "k_procs u = (k_procs demo_running)(12 \<mapsto> q)" "p_stopped q"
      "exec kernel_step u (replicate 2 (Step 12 False 0)) = Some v" "exec kernel_step v (replicate 4 (Step 12 False 0)) = Some t"
      "k_status t = (k_status demo_running)(12 \<mapsto> Exited EXIT_SUCCESS)"
    by blast
  have parts: "replicate 6 x = replicate 2 x @ replicate 4 x" for x :: kernel_event by (simp flip: replicate_add)
  have "exec kernel_step u (replicate 6 (Step 12 False 0)) = Some t" unfolding parts exec_then [OF t(4)] by (rule t(5))
  then show ?thesis using t(1-3,6) by (intro exI [of _ u] exI [of _ q] exI [of _ t]) simp
qed

text \<open>
  C36. The lock file does not keep two daemons apart once one is terminated. Of three programs, the first
  daemon is sent \<^verbatim>\<open>SIGTERM\<close> and cleans up in the handler, the second starts, the first ends, whose second cleanup removes
  the name of the lock file of the second, and the third starts: two daemons run that were never signalled.
\<close>

theorem two_daemons:
  "\<exists>es t p q. exec kernel_step demo_kernel es = Some t \<and> k_procs t 22 = Some p \<and> k_procs t 32 = Some q \<and>
     p_code p = drop 23 daemonize \<and> p_service p = SLive \<and> p_code q = drop 23 daemonize \<and> p_service q = SLive \<and>
     {e. e \<in> set es \<and> (\<exists>pid s. e = Deliver pid s)} = {Deliver 12 SIGTERM} \<and> k_status t 12 = Some (Exited EXIT_SUCCESS)"
proof -
  have s0: "sound demo_kernel" "lockers demo_kernel = {}"
    by (auto simp: sound_def demo_kernel_def numbered_def lockers_def)
  have d: "p_code demo_proc = daemonize" "p_active demo_proc = []" by (simp_all add: demo_proc_def)
  have k0: "k_procs demo_kernel = [10 \<mapsto> demo_proc, 20 \<mapsto> demo_proc, 30 \<mapsto> demo_proc]"
      "k_status demo_kernel = (\<lambda>_. None)"
    by (simp_all add: demo_kernel_def)
  obtain t1 q1 where t1: "exec kernel_step demo_kernel (start_up 10 11 12) = Some t1" "sound t1"
      "lockers t1 \<subseteq> {12}" "k_procs t1 = (k_procs demo_kernel)(10 := None, 11 := None, 12 \<mapsto> q1)"
      "k_status t1 = (k_status demo_kernel)(10 \<mapsto> Exited EXIT_SUCCESS, 11 \<mapsto> Exited EXIT_SUCCESS)"
      "p_code q1 = drop 23 daemonize" "p_service q1 = SLive" "p_active q1 = []" "p_handlers q1 SIGTERM = Handler"
    using start_next [of demo_kernel 10 demo_proc 11 12] s0 d k0 by (auto simp: demo_kernel_def)
  obtain t2 q2 where t2: "exec kernel_step t1 (Deliver 12 SIGTERM # replicate 3 (Step 12 False 0)) = Some t2"
      "k_procs t2 = (k_procs t1)(12 \<mapsto> q2)" "p_service q2 = SLive"
      "p_code q2 = [Stop, Signal SIGTERM SIG_DFL, Sigreturn SIGTERM] @ drop 23 daemonize"
      "k_status t2 = k_status t1" "k_next t2 = k_next t1" "k_program t2 = k_program t1"
      "k_names t2 = (k_names t1)(LockFile t1 := None)"
      "\<forall>i. k_locks t2 i = k_locks t1 i \<or> k_locks t1 i = Some 12 \<and> k_locks t2 i = None"
    using term_first [of t1 12 q1 SIGTERM] t1 by auto
  have l2: "\<forall>i. k_locks t2 i = k_locks t1 i \<or> k_locks t2 i = None"
    using t2(9) by auto
  have s2: "sound t2" "lockers t2 \<subseteq> {12}" "k_names t2 (LockFile t2) = None"
    using unlink_sound [OF t1(2) t2(6-8) l2] t1(3) by auto
  have n2: "22 \<notin> lockers t2" using s2(2) by auto
  obtain t3 q3 where t3: "exec kernel_step t2 (start_up 20 21 22) = Some t3" "sound t3" "lockers t3 \<subseteq> insert 22 (lockers t2)"
      "k_procs t3 = (k_procs t2)(20 := None, 21 := None, 22 \<mapsto> q3)"
      "k_status t3 = (k_status t2)(20 \<mapsto> Exited EXIT_SUCCESS, 21 \<mapsto> Exited EXIT_SUCCESS)"
      "p_code q3 = drop 23 daemonize" "p_service q3 = SLive"
    using start_next [of t2 20 demo_proc 21 22] s2 n2 d k0 t1(4,5) t2(2,5) by auto
  obtain t4 where t4: "exec kernel_step t3 (replicate 9 (Step 12 False 0)) = Some t4" "k_procs t4 = (k_procs t3)(12 := None)"
      "k_status t4 = (k_status t3)(12 \<mapsto> Exited EXIT_SUCCESS)" "k_next t4 = k_next t3" "k_program t4 = k_program t3"
      "k_names t4 = (k_names t3)(LockFile t3 := None)"
      "\<forall>i. k_locks t4 i = (if k_locks t3 i = Some 12 then None else k_locks t3 i)"
    using term_rest [of t3 12 q2] t3(4) t2(2-4) by auto
  have l4: "\<forall>i. k_locks t4 i = k_locks t3 i \<or> k_locks t4 i = None"
    using t4(7) by auto
  have s4: "sound t4" "lockers t4 \<subseteq> {22, 12}" "k_names t4 (LockFile t4) = None"
    using unlink_sound [OF t3(2) t4(4-6) l4] t3(3) s2(2) by auto
  have n4: "32 \<notin> lockers t4" using s4(2) by auto
  obtain t5 q5 where t5: "exec kernel_step t4 (start_up 30 31 32) = Some t5"
      "k_procs t5 = (k_procs t4)(30 := None, 31 := None, 32 \<mapsto> q5)"
      "k_status t5 = (k_status t4)(30 \<mapsto> Exited EXIT_SUCCESS, 31 \<mapsto> Exited EXIT_SUCCESS)"
      "p_code q5 = drop 23 daemonize" "p_service q5 = SLive"
    using start_next [of t4 30 demo_proc 31 32] s4 n4 d k0 t1(4,5) t2(2,5) t3(4,5) t4(2,3) by auto
  let ?es = "start_up 10 11 12 @ (Deliver 12 SIGTERM # replicate 3 (Step 12 False 0)) @ start_up 20 21 22 @
      replicate 9 (Step 12 False 0) @ start_up 30 31 32"
  have "exec kernel_step demo_kernel ?es = Some t5"
    unfolding exec_then [OF t1(1)] exec_then [OF t2(1)] exec_then [OF t3(1)] exec_then [OF t4(1)] by (rule t5(1))
  moreover have "{e. e \<in> set ?es \<and> (\<exists>pid s. e = Deliver pid s)} = {Deliver 12 SIGTERM}" by (auto simp: start_up_def)
  moreover have "k_procs t5 22 = Some q3" "k_procs t5 32 = Some q5" "k_status t5 12 = Some (Exited EXIT_SUCCESS)"
    using t5(2,3) t4(2,3) t3(4) by simp_all
  ultimately show ?thesis using t3(6,7) t5(4,5) by blast
qed

text \<open>
  C33. \<^verbatim>\<open>daemonize\<close> keeps its promise not to return: in every run of the system, signals and failures
  included, a process that called it always has instructions left, and the last one is \<^verbatim>\<open>exit\<close>.
\<close>

theorem daemonize_noreturn:
  assumes "callers k" and "exec kernel_step k es = Some t" and "k_procs t pid = Some p"
  shows "p_code p \<noteq> [] \<and> last (p_code p) = Exit_Success"
proof -
  have "calls_exit t" using callers_exit [OF assms(1)] assms(2) by (rule exiting.exec_keeps)
  then show ?thesis using assms(3) by (simp add: calls_exit_def)
qed

theorem daemonize_noreturn_witness:
  "\<exists>t p. exec kernel_step demo_kernel [Step 10 False 0] = Some t \<and> k_procs t 10 = Some p \<and> p_code p \<noteq> []"
proof -
  obtain t p where t: "exec kernel_step demo_kernel [Step 10 False 0] = Some t" "k_procs t 10 = Some p"
    by (simp add: demo_kernel_def demo_proc_def daemonize_def execute.simps)
  then show ?thesis using daemonize_noreturn [OF demo_callers t] by blast
qed

text \<open>
  A signal that arrives after its handler was installed and before the service was constructed
  runs the handler on a null pointer: the cleanup is done and then the process faults.
\<close>

theorem early_signal_crashes:
  assumes "k_procs k pid = Some p" and "p_service p = SNull" and "p_handlers p s = Handler"
    and "s \<notin> set (p_active p)" and "s \<in> {SIGINT, SIGTERM, SIGHUP}"
  shows "\<exists>t. exec kernel_step k (Deliver pid s # replicate (if s = SIGHUP then 1 else 4) (Step pid False 0)) = Some t \<and>
           k_status t pid = Some (Faulted Null_Deref) \<and> k_procs t pid = None"
proof (cases "s = SIGHUP")
  case True
  then show ?thesis using assms by (simp add: daemon_signal_handler_def execute.simps)
next
  case False
  let ?rest = "[Stop, Signal s SIG_DFL, Sigreturn s] @ p_code p"
  let ?p = "p\<lparr>p_code := daemon_try_cleanup @ ?rest, p_active := s # p_active p\<rparr>"
  have d: "kernel_step k (Deliver pid s) = Some (set_proc pid ?p k)"
    using assms False by (auto simp: daemon_signal_handler_def)
  obtain u q where u: "exec kernel_step (set_proc pid ?p k) (replicate 3 (Step pid False 0)) = Some u"
      "k_procs u = (k_procs (set_proc pid ?p k))(pid \<mapsto> q)" "q = ?p\<lparr>p_code := ?rest, p_fds := p_fds q\<rparr>"
    using cleanup_phase [of "set_proc pid ?p k" pid ?p ?rest] by auto
  have q: "p_service q = SNull" "p_code q = ?rest" by (subst u(3), simp add: assms(2))+
  have last: "exec kernel_step u (replicate 1 (Step pid False 0)) = Some (end_process pid (Faulted Null_Deref) u)"
    using u(2) q by (simp add: execute.simps)
  have parts: "replicate 4 x = replicate 3 x @ replicate 1 x" for x :: kernel_event by (simp add: numeral_eq_Suc)
  have "exec kernel_step k (Deliver pid s # replicate 4 (Step pid False 0)) = Some (end_process pid (Faulted Null_Deref) u)"
    unfolding exec.simps d option.case parts exec_then [OF u(1)] by (rule last)
  then show ?thesis using False by simp
qed

theorem early_signal_crashes_witness:
  "\<exists>t. exec kernel_step
     (demo_kernel\<lparr>k_procs := [12 \<mapsto> demo_proc\<lparr>p_code := drop 20 daemonize, p_handlers := (\<lambda>_. Handler)\<rparr>]\<rparr>)
     (Deliver 12 SIGINT # replicate 4 (Step 12 False 0)) = Some t \<and> k_status t 12 = Some (Faulted Null_Deref)"
  using early_signal_crashes [of "demo_kernel\<lparr>k_procs := [12 \<mapsto> demo_proc\<lparr>p_code := drop 20 daemonize,
      p_handlers := (\<lambda>_. Handler)\<rparr>]\<rparr>" 12 "demo_proc\<lparr>p_code := drop 20 daemonize, p_handlers := (\<lambda>_. Handler)\<rparr>" SIGINT]
  by (auto simp: demo_proc_def)

text \<open>
  The lock file says who the daemon is only when nothing longer was in it before: it is not truncated, so
  that after the write it reads as the process number exactly when the old text was no longer.
\<close>

theorem pid_file_exact:
  assumes "k_procs k pid = Some p" and "p_code p = Write_Pid # code"
    and "fd_inode (p_fds p) (p_lockfile_fd p) = Some i" and "kernel_step k (Step pid False c) = Some t"
  shows "k_text t i = nat_dec pid \<longleftrightarrow> length (k_text k i) \<le> length (nat_dec pid)"
  using assms by (auto simp: execute.simps overwrite_def set_proc_def)

theorem pid_file_exact_witness:
  "\<exists>t. kernel_step (demo_kernel\<lparr>k_procs := [12 \<mapsto> demo_proc\<lparr>p_code := [Write_Pid]\<rparr>], k_text := (\<lambda>_. ''4711'')\<rparr>)
       (Step 12 False 0) = Some t \<and> k_text t 1 \<noteq> nat_dec 12"
proof -
  let ?k = "demo_kernel\<lparr>k_procs := [12 \<mapsto> demo_proc\<lparr>p_code := [Write_Pid]\<rparr>], k_text := (\<lambda>_. ''4711'')\<rparr>"
  have p: "k_procs ?k 12 = Some (demo_proc\<lparr>p_code := [Write_Pid]\<rparr>)" by simp
  have c: "p_code (demo_proc\<lparr>p_code := [Write_Pid]\<rparr>) = [Write_Pid]" by simp
  have f: "fd_inode (p_fds (demo_proc\<lparr>p_code := [Write_Pid]\<rparr>)) (p_lockfile_fd (demo_proc\<lparr>p_code := [Write_Pid]\<rparr>)) = Some 1"
    by (simp add: demo_proc_def)
  obtain t where t: "kernel_step ?k (Step 12 False 0) = Some t" using f by (simp add: execute.simps)
  have "length (nat_dec 12) = 2" by code_simp
  then show ?thesis using pid_file_exact [OF p c f t] t by auto
qed

text \<open>
  C35. A program that calls \<^verbatim>\<open>daemonize\<close> while a daemon of its name holds the lock is refused and disturbs nobody:
  with no other failing call, its grandchild exits with \<^verbatim>\<open>EXIT_FAILURE\<close> at the instruction after it opened the lock file, its two parents
  have exited with success, every other process is as before, the lock file keeps its name, its lock and the process
  number in it, and no lock of another process is lost.
\<close>

theorem second_start_refused:
  assumes "k_procs k pid = Some p" and "p_code p = daemonize" and "distinct [pid, c1, c2]"
    and "\<forall>c \<in> {c1, c2}. k_procs k c = None \<and> k_status k c = None" and "\<forall>j. k_locks k j \<notin> {Some c1, Some c2}"
    and "k_names k ''/dev/null'' \<noteq> None"
    and "k_names k (LockFile k) = Some i" and "i < k_next k" and "k_locks k i = Some b" and "b \<noteq> pid"
  shows "\<exists>t. exec kernel_step k (take 15 (start_up pid c1 c2)) = Some t \<and> k_procs t = (k_procs k)(pid := None) \<and>
           k_status t = (k_status k)(pid \<mapsto> Exited EXIT_SUCCESS, c1 \<mapsto> Exited EXIT_SUCCESS, c2 \<mapsto> Exited EXIT_FAILURE) \<and>
           k_names t (LockFile k) = Some i \<and> k_text t i = k_text k i \<and>
           k_locks t = (\<lambda>j. if k_locks k j = Some pid then None else k_locks k j)"
proof -
  obtain z where z: "k_names k ''/dev/null'' = Some z" using assms(6) by blast
  have new: "pid \<noteq> c1" "pid \<noteq> c2" "c1 \<noteq> c2" "k_procs k c1 = None" "k_procs k c2 = None"
      "k_status k c1 = None" "k_status k c2 = None" "\<forall>j. k_locks k j \<noteq> Some c2" "b \<noteq> c1"
    using assms(3-5,9) by auto
  obtain k' where k': "files_grow (parents_gone pid c1 k) k'"
      "exec kernel_step k (([Step pid False 0, Step pid False c1] @ replicate 2 (Step c1 False 0) @
        [Step c1 False c2]) @ replicate 10 (Step c2 False 0)) = Some (end_process c2 (Exited EXIT_FAILURE) k')"
    using come_refused [OF assms(1,2) new(1-8) z assms(7,9,10) new(9)] by blast
  have events: "take 15 (start_up pid c1 c2) = ([Step pid False 0, Step pid False c1] @ replicate 2 (Step c1 False 0) @
        [Step c1 False c2]) @ replicate 10 (Step c2 False 0)"
    by (simp add: start_up_def numeral_eq_Suc)
  have none: "(k_procs k)(pid := None, c1 := None, c2 := None) = (k_procs k)(pid := None)"
    using new(1-5) by (auto simp: fun_eq_iff)
  have locks: "k_locks k' = (\<lambda>j. if k_locks k j = Some pid then None else k_locks k j)"
    using k'(1) assms(5) by (auto simp: files_grow_def parents_gone_def fun_eq_iff)
  have rest: "k_procs k' = (k_procs k)(pid := None, c1 := None)"
      "k_status k' = (k_status k)(pid \<mapsto> Exited EXIT_SUCCESS, c1 \<mapsto> Exited EXIT_SUCCESS)"
      "k_names k' (LockFile k) = Some i" "k_text k' i = k_text k i"
    using k'(1) assms(7,8) by (simp_all add: files_grow_def parents_gone_def)
  have last: "(\<lambda>j. if k_locks k' j = Some c2 then None else k_locks k' j) = k_locks k'"
    using new(8) by (auto simp: locks fun_eq_iff)
  show ?thesis
    unfolding events
    by (intro exI [of _ "end_process c2 (Exited EXIT_FAILURE) k'"] conjI k'(2))
      (simp_all only: end_process_simps last [unfolded locks] rest locks none)
qed

theorem second_start_refused_witness:
  "\<exists>t. exec kernel_step (demo_kernel\<lparr>k_names := [''/dev/null'' \<mapsto> 0, ''/var/run/d'' \<mapsto> 1], k_locks := [1 \<mapsto> 20],
         k_text := (\<lambda>_. ''20'')\<rparr>) (take 15 (start_up 10 11 12)) = Some t \<and>
     k_status t 12 = Some (Exited EXIT_FAILURE) \<and> k_procs t 20 = Some demo_proc \<and> k_locks t 1 = Some 20 \<and> k_text t 1 = ''20''"
proof -
  let ?k = "demo_kernel\<lparr>k_names := [''/dev/null'' \<mapsto> 0, ''/var/run/d'' \<mapsto> 1], k_locks := [1 \<mapsto> 20], k_text := (\<lambda>_. ''20'')\<rparr>"
  have k: "k_procs ?k = [10 \<mapsto> demo_proc, 20 \<mapsto> demo_proc, 30 \<mapsto> demo_proc]" "k_status ?k = (\<lambda>_. None)" "k_next ?k = 2"
      "LockFile ?k = ''/var/run/d''" "k_locks ?k = [1 \<mapsto> 20]" "k_text ?k = (\<lambda>_. ''20'')"
    by (simp_all add: LockFile_def demo_kernel_def)
  have "\<exists>t. exec kernel_step ?k (take 15 (start_up 10 11 12)) = Some t \<and> k_procs t = (k_procs ?k)(10 := None) \<and>
      k_status t = (k_status ?k)(10 \<mapsto> Exited EXIT_SUCCESS, 11 \<mapsto> Exited EXIT_SUCCESS, 12 \<mapsto> Exited EXIT_FAILURE) \<and>
      k_names t (LockFile ?k) = Some 1 \<and> k_text t 1 = k_text ?k 1 \<and>
      k_locks t = (\<lambda>j. if k_locks ?k j = Some 10 then None else k_locks ?k j)"
    by (rule second_start_refused [where p = demo_proc and b = 20]) (simp_all only: k, simp_all add: demo_proc_def)
  then obtain t where "exec kernel_step ?k (take 15 (start_up 10 11 12)) = Some t" "k_procs t = (k_procs ?k)(10 := None)"
      "k_status t = (k_status ?k)(10 \<mapsto> Exited EXIT_SUCCESS, 11 \<mapsto> Exited EXIT_SUCCESS, 12 \<mapsto> Exited EXIT_FAILURE)"
      "k_text t 1 = k_text ?k 1" "k_locks t = (\<lambda>j. if k_locks ?k j = Some 10 then None else k_locks ?k j)"
    by blast
  then show ?thesis unfolding k by (intro exI [of _ t]) simp
qed

end
