(* ===== verification/Ipc_Factory.thy ===== *)
theory Ipc_Factory
  imports Json_Reference
begin

text \<open>
  IPC messages and their registry: \<^verbatim>\<open>inc/lesf/ipc/message.h\<close>, \<^verbatim>\<open>inc/lesf/ipc/message_factory.h\<close> and
  \<^verbatim>\<open>src/ipc/message_factory.cpp\<close>. A concrete message class is known by its RTTI name and the members its
  \<^verbatim>\<open>M_jsonTemplate\<close> binds; a message is an object of such a class. The two static maps of the factory are
  its state. \<open>sy\<close> and \<open>ex\<close> are the conversions of time members, which plain message classes do not have.
\<close>

section \<open>Messages\<close>

record ipc_class =
  ic_rtti :: string
  ic_members :: tpl

record ipc_message =
  im_rtti :: string
  im_members :: tpl

text \<open>\<^verbatim>\<open>LESF_IPC_MEMBERS\<close>: the members are bound one by one to an empty template.\<close>

definition ipc_jsonTemplate :: "tpl \<Rightarrow> tpl" where
  "ipc_jsonTemplate members = foldl (\<lambda>t (k, e). bind t k e) [] members"

definition M_pull :: "'n json_lib \<Rightarrow> ('n \<Rightarrow> int64 res) \<Rightarrow> ipc_message \<Rightarrow> 'n \<Rightarrow> ipc_message res" where
  "M_pull J ex m data =
     (let t = ipc_jsonTemplate (im_members m) in
      if j_bound J t then obind (j_extract J ex t (Some data)) (\<lambda>t'. Ok (m\<lparr>im_members := t'\<rparr>))
      else Ok m)"

definition M_push :: "'n json_lib \<Rightarrow> (int64 \<Rightarrow> 'n) \<Rightarrow> ipc_message \<Rightarrow> 'n option" where
  "M_push J sy m =
     (let t = ipc_jsonTemplate (im_members m) in if j_bound J t then Some (j_synth J sy t) else None)"

text \<open>\<^verbatim>\<open>LESF_IPC_MESSAGE\<close>: the constructor from JSON data; members start as the class leaves them.\<close>

definition ipc_new :: "'n json_lib \<Rightarrow> ('n \<Rightarrow> int64 res) \<Rightarrow> ipc_class \<Rightarrow> 'n \<Rightarrow> ipc_message res" where
  "ipc_new J ex c data = M_pull J ex \<lparr>im_rtti = ic_rtti c, im_members = ic_members c\<rparr> data"

lemma ipc_jsonTemplate_id [simp]: "ipc_jsonTemplate ms = ms"
proof -
  have "foldl (\<lambda>t (k, e). bind t k e) ts ms = ts @ ms" for ts
    by (induction ms arbitrary: ts) (auto simp: bind_def)
  then show ?thesis by (simp add: ipc_jsonTemplate_def)
qed

section \<open>The factory\<close>

record factory =
  m_rtti_map :: "string \<rightharpoonup> string"
  m_ctors :: "string \<rightharpoonup> ipc_class"

definition new_factory :: factory where
  "new_factory = \<lparr>m_rtti_map = Map.empty, m_ctors = Map.empty\<rparr>"

text \<open>
  The throw sites. Their descriptions are built from strings only, whose formatting does not throw, so
  the source text of the fallback description is left empty.
\<close>

definition ipc_throw :: "throw_env \<Rightarrow> exc_class \<Rightarrow> string \<Rightarrow> cint \<Rightarrow> string \<Rightarrow> string list \<Rightarrow> 'a res" where
  "ipc_throw E cls f l fn ws =
     LESF_CORE_THROW E cls \<lparr>st_file = f, st_line = l, st_function = fn\<rparr> (map Ok ws) []"

abbreviation factory_h :: string where
  "factory_h \<equiv> ''inc/lesf/ipc/message_factory.h''"

abbreviation factory_cpp :: string where
  "factory_cpp \<equiv> ''src/ipc/message_factory.cpp''"

definition registerMessageType :: "throw_env \<Rightarrow> ipc_class \<Rightarrow> string \<Rightarrow> factory \<Rightarrow> factory res" where
  "registerMessageType E c ident F =
     (if m_ctors F ident \<noteq> None then
        ipc_throw E TypeException factory_h 53 ''registerMessageType'' [''identifier `'', ident, ''` is already used'']
      else Ok (F\<lparr>m_rtti_map := (m_rtti_map F)(ic_rtti c \<mapsto> ident), m_ctors := (m_ctors F)(ident \<mapsto> c)\<rparr>))"

definition typeIdentifier :: "throw_env \<Rightarrow> string \<Rightarrow> factory \<Rightarrow> string res" where
  "typeIdentifier E rtti F =
     (case m_rtti_map F rtti of
        None \<Rightarrow> ipc_throw E TypeException factory_h 70 ''typeIdentifier''
                  [''type is not registered (RTTI name `'', rtti, ''`)'']
      | Some ident \<Rightarrow> Ok ident)"

text \<open>
  \<^verbatim>\<open>construct\<close>: the result carries the identifier the caller may ask for with \<^verbatim>\<open>id\<close>.
\<close>

definition construct ::
  "'n json_lib \<Rightarrow> ('n \<Rightarrow> int64 res) \<Rightarrow> throw_env \<Rightarrow> factory \<Rightarrow> string \<Rightarrow> (string \<times> ipc_message) res" where
  "construct J ex E F json =
     obind (try_catch (j_parse J json) catches_json
             (\<lambda>e. ipc_throw E DataFormatException factory_cpp 39 ''construct''
                    [''invalid IPC JSON data ('', what e, '')''])) (\<lambda>data.
     case (if j_is_object J data then
             Option.bind (j_get J data ''id'') (\<lambda>idNode.
             Option.bind (j_as_string J idNode) (\<lambda>ident.
             map_option (Pair ident) (j_get J data ''payload'')))
           else None) of
       None \<Rightarrow> ipc_throw E DataFormatException factory_cpp 52 ''construct'' [''invalid IPC JSON data'']
     | Some (ident, payload) \<Rightarrow>
         (case m_ctors F ident of
            None \<Rightarrow> ipc_throw E DataFormatException factory_cpp 58 ''construct''
                      [''unknown identifier `'', ident, ''` in IPC JSON data'']
          | Some c \<Rightarrow>
              obind (try_catch (ipc_new J ex c payload) catches_json
                      (\<lambda>e. ipc_throw E DataFormatException factory_cpp 69 ''construct''
                         [''IPC JSON data is not consistent with data member bindings for type `'', ident, ''` : '', what e]))
                (\<lambda>msg. Ok (ident, msg))))"

definition ipc_serialize ::
  "'n json_lib \<Rightarrow> (int64 \<Rightarrow> 'n) \<Rightarrow> throw_env \<Rightarrow> factory \<Rightarrow> ipc_message \<Rightarrow> string res" where
  "ipc_serialize J sy E F msg =
     (case m_rtti_map F (im_rtti msg) of
        None \<Rightarrow> ipc_throw E TypeException factory_cpp 81 ''serialize''
                  [''type is not registered (RTTI name `'', im_rtti msg, ''`)'']
      | Some ident \<Rightarrow>
          let n = j_synth J sy (bind [] ''id'' (EStr ident)) in
          obind (deref (if j_is_object J n then Some n else None)) (\<lambda>data.
          let payload = (case M_push J sy msg of None \<Rightarrow> j_empty_object J | Some p \<Rightarrow> p) in
          j_serialize J (j_put J data ''payload'' payload) False))"

lemma ipc_throw_eq [outcome_simps]:
  "ipc_throw E cls f l fn ws =
     Throw (CoreExc (site_exception E cls \<lparr>st_file = f, st_line = l, st_function = fn\<rparr> (concat ws)))"
  by (simp add: ipc_throw_def outcome_simps)

section \<open>The registry over time\<close>

text \<open>A registration whose exception is caught by the program leaves the maps as they were.\<close>

definition register_event :: "throw_env \<Rightarrow> factory \<Rightarrow> ipc_class \<times> string \<Rightarrow> factory option" where
  "register_event E F r =
     (case registerMessageType E (fst r) (snd r) F of Ok F' \<Rightarrow> Some F' | _ \<Rightarrow> Some F)"

definition factory_inv :: "factory \<Rightarrow> bool" where
  "factory_inv F \<longleftrightarrow>
     (\<forall>r i. m_rtti_map F r = Some i \<longrightarrow> (\<exists>c. m_ctors F i = Some c \<and> ic_rtti c = r)) \<and>
     (\<forall>i c. m_ctors F i = Some c \<longrightarrow> m_rtti_map F (ic_rtti c) \<noteq> None)"

lemma register_event_cases:
  "register_event E F (c, i) = Some G \<longleftrightarrow>
     G = (if m_ctors F i \<noteq> None then F
          else F\<lparr>m_rtti_map := (m_rtti_map F)(ic_rtti c \<mapsto> i), m_ctors := (m_ctors F)(i \<mapsto> c)\<rparr>)"
  by (auto simp: register_event_def registerMessageType_def outcome_simps)

lemma factory_inv_event: "factory_inv F \<Longrightarrow> register_event E F r = Some G \<Longrightarrow> factory_inv G"
  by (cases r) (fastforce simp: register_event_cases factory_inv_def split: if_splits)

interpretation registry: event_machine "register_event E" factory_inv
  by unfold_locales (rule factory_inv_event)

interpretation registered: event_machine "register_event E" "\<lambda>F. m_ctors F i = Some c"
  by unfold_locales (auto simp: register_event_cases split: if_splits)

lemma factory_inv_new: "factory_inv new_factory"
  by (simp add: factory_inv_def new_factory_def)

lemma factory_inv_ctor: "factory_inv F \<Longrightarrow> m_rtti_map F r = Some i \<Longrightarrow> \<exists>c. m_ctors F i = Some c \<and> ic_rtti c = r"
  by (simp add: factory_inv_def)

section \<open>The codec of the factory\<close>

text \<open>The members of an object are those its class declares, with values.\<close>

definition instance_of :: "ipc_class \<Rightarrow> ipc_message \<Rightarrow> bool" where
  "instance_of c m \<longleftrightarrow>
     im_rtti m = ic_rtti c \<and> wf_tpl (im_members m) \<and> times_tpl (im_members m) = [] \<and>
     fits_tpl (ic_members c) (im_members m) \<and> pull_tpl (ic_members c) (im_members m) = im_members m"

definition plain_classes :: "factory \<Rightarrow> bool" where
  "plain_classes F \<longleftrightarrow> (\<forall>i c. m_ctors F i = Some c \<longrightarrow> times_tpl (ic_members c) = [])"

lemma M_pull_synth:
  assumes "json_library J" and "instance_of c m" and "ic_members c \<noteq> []"
  shows "ipc_new J ex c (j_synth J sy (im_members m)) = Ok m"
  using assms(2,3) json_library.extract_own [OF assms(1), of "im_members m" "ic_members c" ex sy]
    json_library.bound_iff [OF assms(1)]
  by (simp add: ipc_new_def M_pull_def instance_of_def Let_def)

lemma M_pull_empty:
  assumes "json_library J" and "instance_of c m" and "ic_members c = []"
  shows "ipc_new J ex c n = Ok m"
  using assms(2,3) json_library.bound_iff [OF assms(1)]
  by (simp add: ipc_new_def M_pull_def instance_of_def Let_def)

lemma pulled_members_empty: "instance_of c m \<Longrightarrow> ic_members c = [] \<longleftrightarrow> im_members m = []"
  by (cases "ic_members c") (auto simp: instance_of_def)

lemma construct_parsed:
  assumes J: "json_library J" and c: "m_ctors F i = Some c" "instance_of c m"
    and p: "j_parse J s = Ok (j_put J (j_synth J sy [(''id'', EStr i)]) ''payload''
              (case M_push J sy m of None \<Rightarrow> j_empty_object J | Some p \<Rightarrow> p))"
  shows "construct J ex E F s = Ok (i, m)"
proof -
  let ?o = "j_synth J sy [(''id'', EStr i)]"
  let ?pay = "case M_push J sy m of None \<Rightarrow> j_empty_object J | Some p \<Rightarrow> p"
  have o: "j_is_object J ?o" by (rule json_library.synth_object [OF J])
  obtain n where n: "j_get J ?o ''id'' = Some n" "j_as_string J n = Some i"
    using json_library.get_synth_str [OF J, of "[(''id'', EStr i)]" "''id''" i sy] by auto
  have new: "ipc_new J ex c ?pay = Ok m"
    using M_pull_synth [OF J c(2)] M_pull_empty [OF J c(2)] pulled_members_empty [OF c(2)]
      json_library.bound_iff [OF J] by (cases "im_members m = []") (simp_all add: M_push_def)
  show ?thesis
    using p o n new c(1) json_library.put_object [OF J o] json_library.get_put [OF J o]
    by (simp add: construct_def)
qed

lemma construct_serialized:
  assumes J: "json_library J" and r: "m_rtti_map F (im_rtti m) = Some i"
    and c: "m_ctors F i = Some c" "instance_of c m"
  shows "\<exists>s. ipc_serialize J sy E F m = Ok s \<and> construct J ex E F s = Ok (i, m)"
proof -
  let ?n = "j_put J (j_synth J sy [(''id'', EStr i)]) ''payload''
              (case M_push J sy m of None \<Rightarrow> j_empty_object J | Some p \<Rightarrow> p)"
  obtain s where s: "j_serialize J ?n False = Ok s" "j_parse J s = Ok ?n"
    using json_library.parse_serialize [OF J] by blast
  have "ipc_serialize J sy E F m = Ok s"
    using s(1) r json_library.synth_object [OF J] by (simp add: ipc_serialize_def bind_def Let_def)
  then show ?thesis using construct_parsed [OF J c s(2)] by blast
qed

lemma M_pull_outcome:
  assumes "json_library J" and "times_tpl (ic_members c) = []"
  shows "(\<exists>m. ipc_new J ex c n = Ok m \<and> im_rtti m = ic_rtti c) \<or> (\<exists>w. ipc_new J ex c n = Throw (JsonExc w))"
  using json_library.extract_safe [OF assms(1,2), of ex n] by (auto simp: ipc_new_def M_pull_def Let_def)

lemma construct_outcome:
  assumes J: "json_library J" and F: "plain_classes F"
  shows "(\<exists>i c m. construct J ex E F s = Ok (i, m) \<and> m_ctors F i = Some c \<and> im_rtti m = ic_rtti c) \<or>
         (\<exists>e. construct J ex E F s = Throw (CoreExc e) \<and> exc_cls e = DataFormatException)"
proof (cases "j_parse J s")
  case (Ok n)
  show ?thesis
  proof (cases "if j_is_object J n then
             Option.bind (j_get J n ''id'') (\<lambda>idNode. Option.bind (j_as_string J idNode) (\<lambda>ident.
             map_option (Pair ident) (j_get J n ''payload''))) else None")
    case None
    then show ?thesis using Ok by (simp add: construct_def outcome_simps cong: if_cong)
  next
    case (Some q)
    obtain i pay where q: "q = (i, pay)" by (cases q)
    show ?thesis
    proof (cases "m_ctors F i")
      case None
      then show ?thesis using Ok Some q by (simp add: construct_def outcome_simps cong: if_cong)
    next
      case c: (Some c)
      then have "times_tpl (ic_members c) = []" using F by (simp add: plain_classes_def)
      from M_pull_outcome [OF J this, of ex pay] show ?thesis
        using Ok Some q c by (auto simp: construct_def outcome_simps cong: if_cong)
    qed
  qed
qed (use json_library.parse_safe [OF J, of s] in \<open>auto simp: construct_def outcome_simps\<close>)

text \<open>
  What an endpoint relies on: one process turns a message into text, the other turns the text into the
  message and names its type. \<open>ok v m\<close> says that \<open>m\<close> may be sent in the environment \<open>v\<close>.
\<close>

locale message_codec =
  fixes ser :: "'v \<Rightarrow> 'm \<Rightarrow> string res"
    and con :: "'v \<Rightarrow> string \<Rightarrow> (string \<times> 'm) res"
    and tid :: "'v \<Rightarrow> 'm \<Rightarrow> string"
    and ok :: "'v \<Rightarrow> 'm \<Rightarrow> bool"
  assumes con_ser: "ok v m \<Longrightarrow> ser v m = Ok s \<Longrightarrow> con v s = Ok (tid v m, m)"
    and ser_ok: "ok v m \<Longrightarrow> \<exists>s. ser v m = Ok s"
begin

lemma ser_inj: "ok v m \<Longrightarrow> ok v m' \<Longrightarrow> ser v m = ser v m' \<Longrightarrow> m = m'"
  using con_ser ser_ok by (metis outcome.inject(1) prod.inject)

lemma con_list:
  "\<forall>m \<in> set ms. ok v m \<Longrightarrow> list_all2 (\<lambda>m s. ser v m = Ok s) ms ss \<Longrightarrow>
   map (con v) ss = map (\<lambda>m. Ok (tid v m, m)) ms"
  by (induction ms arbitrary: ss) (auto simp: con_ser list_all2_Cons1)

end

text \<open>The environment of a process: its JSON library, throw environment and factory.\<close>

record 'n ipc_env =
  ie_json :: "'n json_lib"
  ie_sy :: "int64 \<Rightarrow> 'n"
  ie_ex :: "'n \<Rightarrow> int64 res"
  ie_throw :: throw_env
  ie_factory :: factory

definition ipc_ser :: "'n ipc_env \<Rightarrow> ipc_message \<Rightarrow> string res" where
  "ipc_ser V = ipc_serialize (ie_json V) (ie_sy V) (ie_throw V) (ie_factory V)"

definition ipc_con :: "'n ipc_env \<Rightarrow> string \<Rightarrow> (string \<times> ipc_message) res" where
  "ipc_con V = construct (ie_json V) (ie_ex V) (ie_throw V) (ie_factory V)"

definition ipc_tid :: "'n ipc_env \<Rightarrow> ipc_message \<Rightarrow> string" where
  "ipc_tid V m = (case m_rtti_map (ie_factory V) (im_rtti m) of None \<Rightarrow> [] | Some i \<Rightarrow> i)"

definition ipc_ok :: "'n ipc_env \<Rightarrow> ipc_message \<Rightarrow> bool" where
  "ipc_ok V m \<longleftrightarrow> json_library (ie_json V) \<and>
     (\<exists>i c. m_rtti_map (ie_factory V) (im_rtti m) = Some i \<and> m_ctors (ie_factory V) i = Some c \<and> instance_of c m)"

interpretation ipc: message_codec ipc_ser ipc_con ipc_tid ipc_ok
proof
  fix V :: "'n ipc_env" and m s
  assume ok: "ipc_ok V m"
  then obtain i c where ic: "json_library (ie_json V)" "m_rtti_map (ie_factory V) (im_rtti m) = Some i"
      "m_ctors (ie_factory V) i = Some c" "instance_of c m" by (auto simp: ipc_ok_def)
  note cs = construct_serialized [OF ic(1,2,3,4), of "ie_sy V" "ie_throw V" "ie_ex V"]
  show "\<exists>s. ipc_ser V m = Ok s" using cs by (auto simp: ipc_ser_def)
  show "ipc_con V s = Ok (ipc_tid V m, m)" if "ipc_ser V m = Ok s"
    using cs that ic(2) by (auto simp: ipc_ser_def ipc_con_def ipc_tid_def)
qed

lemma plain_classes_exec:
  "plain_classes F \<Longrightarrow> \<forall>(c, i) \<in> set regs. times_tpl (ic_members c) = [] \<Longrightarrow>
   exec (register_event E) F regs = Some G \<Longrightarrow> plain_classes G"
proof (induction regs arbitrary: F)
  case (Cons r regs)
  obtain c i where r: "r = (c, i)" by (cases r)
  obtain F' where F': "register_event E F (c, i) = Some F'"
    using Cons.prems(3) r by (auto split: option.splits)
  then have "plain_classes F'"
    using Cons.prems(1,2) r by (auto simp: register_event_cases plain_classes_def split: if_splits)
  then show ?case using Cons F' r by simp
qed simp

section \<open>Properties\<close>

text \<open>
  C8. A message survives the factory: whatever was registered before, the text that \<^verbatim>\<open>serialize\<close> makes of a
  message of a registered class is turned by \<^verbatim>\<open>construct\<close> into an object of the same class with the same members,
  under the identifier of the class; this includes messages without members, which bypass the template.
\<close>

theorem construct_serialize:
  assumes J: "json_library J" and F: "exec (register_event E) new_factory regs = Some F"
    and r: "m_rtti_map F (im_rtti m) = Some i"
    and m: "\<And>c. m_ctors F i = Some c \<Longrightarrow> instance_of c m"
  shows "\<exists>s. ipc_serialize J sy E F m = Ok s \<and> construct J ex E F s = Ok (i, m)"
proof -
  obtain c where "m_ctors F i = Some c"
    using factory_inv_ctor [OF registry.exec_keeps [OF factory_inv_new F] r] by blast
  then show ?thesis using construct_serialized [OF J r _ m] by blast
qed

definition ping_class :: ipc_class where
  "ping_class = \<lparr>ic_rtti = ''4Ping'', ic_members = [(''count'', EInt 0), (''note'', EStr [])]\<rparr>"

definition quit_class :: ipc_class where
  "quit_class = \<lparr>ic_rtti = ''4Quit'', ic_members = []\<rparr>"

definition no_throw_env :: throw_env where
  "no_throw_env = \<lparr>te_date = [], te_time = [], te_build_id = [], te_program = [], te_version = [], te_trace = []\<rparr>"

lemma demo_factory:
  "exec (register_event E) new_factory [(ping_class, ''ping''), (quit_class, ''quit''), (quit_class, ''ping'')] =
     Some \<lparr>m_rtti_map = [''4Ping'' \<mapsto> ''ping'', ''4Quit'' \<mapsto> ''quit''],
           m_ctors = [''ping'' \<mapsto> ping_class, ''quit'' \<mapsto> quit_class]\<rparr>"
  by (simp add: register_event_def registerMessageType_def new_factory_def ping_class_def quit_class_def
      outcome_simps)

theorem construct_serialize_witness:
  "\<exists>F s. exec (register_event no_throw_env) new_factory
           [(ping_class, ''ping''), (quit_class, ''quit''), (quit_class, ''ping'')] = Some F \<and>
     ipc_serialize ref_json (\<lambda>_. JInt 0) no_throw_env F
       \<lparr>im_rtti = ''4Ping'', im_members = [(''count'', EInt 7), (''note'', EStr ''hi'')]\<rparr> = Ok s \<and>
     construct ref_json (\<lambda>_. Ok 0) no_throw_env F s =
       Ok (''ping'', \<lparr>im_rtti = ''4Ping'', im_members = [(''count'', EInt 7), (''note'', EStr ''hi'')]\<rparr>)"
  using construct_serialize [OF ref.json_library_axioms demo_factory, where
      m = "\<lparr>im_rtti = ''4Ping'', im_members = [(''count'', EInt 7), (''note'', EStr ''hi'')]\<rparr>" and i = "''ping''"
      and E = no_throw_env and sy = "\<lambda>_. JInt 0" and ex = "\<lambda>_. Ok 0"] demo_factory [of no_throw_env]
  by (fastforce simp: instance_of_def ping_class_def)

text \<open>
  C9. Whatever text a peer sends, \<^verbatim>\<open>construct\<close> returns an object of the class registered under the identifier in
  the text or throws a \<^verbatim>\<open>DataFormatException\<close>, which is recoverable: the null checks on the structure, the lookup
  of the identifier and the translation of the JSON library's exceptions leave no other way out.
\<close>

theorem construct_total:
  assumes "json_library J" and "exec (register_event E) new_factory regs = Some F"
    and "\<forall>(c, i) \<in> set regs. times_tpl (ic_members c) = []"
  shows "(\<exists>i c m. construct J ex E F s = Ok (i, m) \<and> m_ctors F i = Some c \<and> im_rtti m = ic_rtti c) \<or>
         (\<exists>e. construct J ex E F s = Throw (CoreExc e) \<and> exc_cls e = DataFormatException \<and>
            catches_recoverable (CoreExc e))"
proof -
  have "plain_classes new_factory" by (simp add: plain_classes_def new_factory_def)
  then have "plain_classes F" using assms(3,2) by (rule plain_classes_exec)
  from construct_outcome [OF assms(1) this, of ex E s] show ?thesis
    by (auto simp: is_a_def)
qed

theorem construct_total_witness:
  "\<exists>F. exec (register_event no_throw_env) new_factory [(ping_class, ''ping'')] = Some F \<and>
     ((\<exists>i c m. construct ref_json (\<lambda>_. Ok 0) no_throw_env F ''{'' = Ok (i, m) \<and> m_ctors F i = Some c \<and>
          im_rtti m = ic_rtti c) \<or>
      (\<exists>e. construct ref_json (\<lambda>_. Ok 0) no_throw_env F ''{'' = Throw (CoreExc e) \<and>
          exc_cls e = DataFormatException \<and> catches_recoverable (CoreExc e)))"
proof -
  obtain F where F: "exec (register_event no_throw_env) new_factory [(ping_class, ''ping'')] = Some F"
    by (simp add: register_event_def registerMessageType_def new_factory_def)
  show ?thesis
    using construct_total [OF ref.json_library_axioms F, of "\<lambda>_. Ok 0" "''{''"] F
    by (simp add: ping_class_def)
qed

text \<open>
  C10. The registry stays consistent: after any registrations, rejected ones included, the identifier of a type
  constructs objects of that type, so the cast in a slot registered for it succeeds, and no later
  registration changes what an identifier constructs.
\<close>

theorem registry_consistent:
  assumes "exec (register_event E) new_factory regs = Some F" and "m_rtti_map F r = Some i"
  shows "(\<exists>c. m_ctors F i = Some c \<and> ic_rtti c = r) \<and>
         (\<forall>more G. exec (register_event E) F more = Some G \<longrightarrow> m_ctors G i = m_ctors F i)"
proof -
  obtain c where c: "m_ctors F i = Some c" "ic_rtti c = r"
    using factory_inv_ctor [OF registry.exec_keeps [OF factory_inv_new assms(1)] assms(2)] by blast
  then show ?thesis using registered.exec_keeps [OF c(1)] by auto
qed

theorem registry_consistent_witness:
  "\<exists>F c. exec (register_event no_throw_env) new_factory
           [(ping_class, ''ping''), (quit_class, ''quit''), (quit_class, ''ping'')] = Some F \<and>
     m_ctors F ''quit'' = Some c \<and> ic_rtti c = ''4Quit''"
  using registry_consistent [OF demo_factory, of "''4Quit''" "''quit''"] demo_factory [of no_throw_env]
  by auto

text \<open>
  A type that is not registered is refused by \<^verbatim>\<open>serialize\<close> and \<^verbatim>\<open>typeIdentifier\<close> with a \<^verbatim>\<open>TypeException\<close>, and
  every registered one is accepted by both.
\<close>

theorem unregistered_rejected:
  assumes "json_library J"
  shows "if m_rtti_map F (im_rtti m) = None
         then (\<exists>e. ipc_serialize J sy E F m = Throw (CoreExc e) \<and> exc_cls e = TypeException) \<and>
              (\<exists>e. typeIdentifier E (im_rtti m) F = Throw (CoreExc e) \<and> exc_cls e = TypeException)
         else (\<exists>s. ipc_serialize J sy E F m = Ok s) \<and>
              (\<exists>i. typeIdentifier E (im_rtti m) F = Ok i \<and> m_rtti_map F (im_rtti m) = Some i)"
  using json_library.synth_object [OF assms] json_library.parse_serialize [OF assms]
  by (auto simp: ipc_serialize_def typeIdentifier_def outcome_simps Let_def) (metis)

theorem unregistered_rejected_witness:
  "\<exists>e. ipc_serialize ref_json (\<lambda>_. JInt 0) no_throw_env new_factory \<lparr>im_rtti = ''4Ping'', im_members = []\<rparr> =
     Throw (CoreExc e) \<and> exc_cls e = TypeException"
  using unregistered_rejected [OF ref.json_library_axioms, of new_factory "\<lparr>im_rtti = ''4Ping'', im_members = []\<rparr>"]
  by (simp add: new_factory_def)

end
