(* ===== verification/Ipc_Channel.thy ===== *)
theory Ipc_Channel
  imports Ipc_Factory
begin

text \<open>
  One direction of an IPC endpoint (\<^verbatim>\<open>inc/lesf/ipc/endpoint.h\<close>, \<^verbatim>\<open>src/ipc/endpoint.cpp\<close>): the shared buffer, the
  threads that send through it, the thread that receives from it and the destructor of the receiving
  endpoint, interleaved step by step. A step is one semaphore operation or the work between two of them.
  The semaphores of Boost.Interprocess are a parameter with their counting laws.
\<close>

section \<open>Semaphores\<close>

text \<open>\<open>sl_wait\<close> is \<open>None\<close> while the caller blocks.\<close>

record 's sem_lib =
  sl_init :: "nat \<Rightarrow> 's"
  sl_wait :: "'s \<Rightarrow> 's option"
  sl_post :: "'s \<Rightarrow> 's"

locale semaphore =
  fixes L :: "'s sem_lib"
    and cnt :: "'s \<Rightarrow> nat"
  assumes cnt_init: "cnt (sl_init L n) = n"
    and wait_zero: "cnt s = 0 \<Longrightarrow> sl_wait L s = None"
    and wait_pos: "0 < cnt s \<Longrightarrow> \<exists>t. sl_wait L s = Some t \<and> cnt s = Suc (cnt t)"
    and cnt_post: "cnt (sl_post L s) = Suc (cnt s)"
begin

lemma wait_Some: "sl_wait L s = Some t \<Longrightarrow> cnt s = Suc (cnt t)"
  using wait_zero [of s] wait_pos [of s] by (cases "cnt s = 0") auto

lemma wait_None_iff: "sl_wait L s = None \<longleftrightarrow> cnt s = 0"
  using wait_zero [of s] wait_pos [of s] by (cases "cnt s = 0") auto

end

definition nat_sem :: "nat sem_lib" where
  "nat_sem = \<lparr>sl_init = (\<lambda>n. n), sl_wait = (\<lambda>n. if n = 0 then None else Some (n - 1)), sl_post = Suc\<rparr>"

interpretation nat_sem: semaphore nat_sem "\<lambda>n. n"
  by unfold_locales (simp_all add: nat_sem_def)

section \<open>The shared buffer\<close>

definition MaxMessageSize :: nat where
  "MaxMessageSize = 4096"

record 's shared_buffer =
  sb_mutex :: 's
  sb_empty :: 's
  sb_full :: 's
  sb_shutdown :: bool
  sb_buffer :: string

text \<open>The constructor leaves the bytes of the array as they are: \<open>mem\<close>.\<close>

definition SharedBuffer :: "'s sem_lib \<Rightarrow> string \<Rightarrow> 's shared_buffer" where
  "SharedBuffer L mem =
     \<lparr>sb_mutex = sl_init L 1, sb_empty = sl_init L 1, sb_full = sl_init L 0, sb_shutdown = False,
      sb_buffer = mem\<rparr>"

text \<open>\<^verbatim>\<open>std::strcpy\<close> of the C string of \<open>s\<close>.\<close>

definition strcpy :: "string \<Rightarrow> string \<Rightarrow> string res" where
  "strcpy dst s =
     (let t = c_str s in
      if length dst < length t + 1 then Undef Buffer_Overflow else Ok (t @ nul # drop (length t + 1) dst))"

lemma strcpy_Ok:
  "strcpy dst s = Ok b \<Longrightarrow> length b = length dst \<and> c_str b = c_str s"
  by (auto simp: strcpy_def Let_def c_str_terminated nul_not_in_c_str split: if_splits)

section \<open>Slots and the receiving handler\<close>

record slot =
  sl_rtti :: string
  sl_handler :: "ipc_message \<Rightarrow> unit res"

type_synonym exc_handler = "(exc \<Rightarrow> unit res) option"

definition registerSlot ::
  "'n ipc_env \<Rightarrow> string \<Rightarrow> (ipc_message \<Rightarrow> unit res) \<Rightarrow> (string \<rightharpoonup> slot) \<Rightarrow> (string \<rightharpoonup> slot) res" where
  "registerSlot V rtti h slots =
     obind (typeIdentifier (ie_throw V) rtti (ie_factory V)) (\<lambda>i.
     Ok (slots(i \<mapsto> \<lparr>sl_rtti = rtti, sl_handler = h\<rparr>)))"

definition registerExceptionHandler :: "(exc \<Rightarrow> unit res) \<Rightarrow> exc_handler \<Rightarrow> exc_handler" where
  "registerExceptionHandler h old = Some h"

text \<open>The \<^verbatim>\<open>dynamic_cast\<close> to a reference throws when the object is not of the slot's type.\<close>

definition call_slot :: "slot \<Rightarrow> ipc_message \<Rightarrow> unit res" where
  "call_slot sl m =
     (if im_rtti m = sl_rtti sl then sl_handler sl m else Throw (StdExc ''St8bad_cast'' ''std::bad_cast''))"

datatype received = Delivered string ipc_message | Reported exc | Discarded exc

text \<open>
  One round of \<^verbatim>\<open>M_receiveThread\<close> on the text in the buffer: the slot's result, or what became of a
  recoverable exception. Any other exception leaves the thread.
\<close>

fun handle_exception :: "exc_handler \<Rightarrow> cpp_exc \<Rightarrow> received res" where
  "handle_exception eh (CoreExc e) =
     (case eh of None \<Rightarrow> Ok (Discarded e) | Some h \<Rightarrow> obind (h e) (\<lambda>_. Ok (Reported e)))"
| "handle_exception eh e = Throw e"

definition receive_message ::
  "'n ipc_env \<Rightarrow> (string \<rightharpoonup> slot) \<Rightarrow> exc_handler \<Rightarrow> string \<Rightarrow> received res" where
  "receive_message W slots eh text =
     no_except (try_catch
       (obind (ipc_con W text) (\<lambda>(type_id, msg).
        case slots type_id of
          None \<Rightarrow> ipc_throw (ie_throw W) DataFormatException ''src/ipc/endpoint.cpp'' 229 ''M_receiveThread''
                    [''IPC message type `'' @ type_id @ ''`is not connected to any slot'']
        | Some sl \<Rightarrow> obind (call_slot sl msg) (\<lambda>_. Ok (Delivered type_id msg))))
       catches_recoverable (handle_exception eh))"

section \<open>The channel\<close>

datatype sender = S_Idle | S_Entered ipc_message | S_Writing ipc_message | S_Written | S_Unlocked

datatype destructor = D_None | D_Flagged | D_Joining | D_Gone

datatype receiver = R_Waiting | R_Locking | R_Handling | R_Posting bool | R_Signalling bool | R_Done

text \<open>
  \<open>ch_senders\<close> are the threads of the sending process. \<open>ch_terminated\<close> says that the receive thread ended
  its process. \<open>ch_destructor\<close> is how far the destructor of the receiving endpoint is.
  The other fields are history: messages written and their texts, texts taken out and what
  became of them, exceptions that left \<^verbatim>\<open>send\<close>, and the number of destructor calls.
\<close>

record 's channel =
  ch_buf :: "'s shared_buffer"
  ch_senders :: "sender list"
  ch_receiver :: receiver
  ch_destructor :: destructor
  ch_terminated :: bool
  ch_msgs :: "ipc_message list"
  ch_sent :: "string list"
  ch_received :: "string list"
  ch_report :: "received list"
  ch_errors :: "cpp_exc list"
  ch_posts :: nat

text \<open>The two processes: the environment of each side, and the slots of the receiving endpoint.\<close>

record ('s, 'n) peers =
  pe_sem :: "'s sem_lib"
  pe_send :: "'n ipc_env"
  pe_recv :: "'n ipc_env"
  pe_slots :: "string \<rightharpoonup> slot"
  pe_exc :: exc_handler

definition new_channel :: "'s sem_lib \<Rightarrow> string \<Rightarrow> nat \<Rightarrow> 's channel" where
  "new_channel L mem n =
     \<lparr>ch_buf = SharedBuffer L mem, ch_senders = replicate n S_Idle, ch_receiver = R_Waiting, ch_destructor = D_None,
      ch_terminated = False, ch_msgs = [], ch_sent = [], ch_received = [], ch_report = [], ch_errors = [],
      ch_posts = 0\<rparr>"

section \<open>Sending\<close>

text \<open>\<^verbatim>\<open>send\<close>, cut at its semaphore operations. An exception leaves both semaphores as they were taken.\<close>

definition set_sender :: "nat \<Rightarrow> sender \<Rightarrow> 's channel \<Rightarrow> 's channel" where
  "set_sender i pc c = c\<lparr>ch_senders := (ch_senders c)[i := pc]\<rparr>"

definition sender_at :: "'s channel \<Rightarrow> nat \<Rightarrow> sender option" where
  "sender_at c i = (if i < length (ch_senders c) then Some (ch_senders c ! i) else None)"

definition send_wait_empty :: "('s, 'n) peers \<Rightarrow> nat \<Rightarrow> ipc_message \<Rightarrow> 's channel \<Rightarrow> 's channel option" where
  "send_wait_empty P i m c =
     (if sender_at c i = Some S_Idle then
        map_option (\<lambda>t. set_sender i (S_Entered m) (c\<lparr>ch_buf := (ch_buf c)\<lparr>sb_empty := t\<rparr>\<rparr>))
          (sl_wait (pe_sem P) (sb_empty (ch_buf c)))
      else None)"

definition send_wait_mutex :: "('s, 'n) peers \<Rightarrow> nat \<Rightarrow> 's channel \<Rightarrow> 's channel option" where
  "send_wait_mutex P i c =
     (case sender_at c i of
        Some (S_Entered m) \<Rightarrow>
          map_option (\<lambda>t. set_sender i (S_Writing m) (c\<lparr>ch_buf := (ch_buf c)\<lparr>sb_mutex := t\<rparr>\<rparr>))
            (sl_wait (pe_sem P) (sb_mutex (ch_buf c)))
      | _ \<Rightarrow> None)"

definition write_message :: "'n ipc_env \<Rightarrow> ipc_message \<Rightarrow> string \<Rightarrow> (string \<times> string) res" where
  "write_message V m buffer =
     obind (ipc_ser V m) (\<lambda>json.
     if length json + 1 > length buffer then
       ipc_throw (ie_throw V) SharedMemoryException ''src/ipc/endpoint.cpp'' 176 ''send''
         [''IPC packet size ('', nat_dec (length json + 1), '') exceeds limit ('', nat_dec (length buffer), '')'']
     else obind (strcpy buffer json) (\<lambda>b. Ok (c_str json, b)))"

definition send_write :: "('s, 'n) peers \<Rightarrow> nat \<Rightarrow> 's channel \<Rightarrow> 's channel option" where
  "send_write P i c =
     (case sender_at c i of
        Some (S_Writing m) \<Rightarrow>
          (case write_message (pe_send P) m (sb_buffer (ch_buf c)) of
             Ok (text, b) \<Rightarrow>
               Some (set_sender i S_Written
                 (c\<lparr>ch_buf := (ch_buf c)\<lparr>sb_buffer := b\<rparr>, ch_msgs := ch_msgs c @ [m], ch_sent := ch_sent c @ [text]\<rparr>))
           | Throw e \<Rightarrow> Some (set_sender i S_Idle (c\<lparr>ch_errors := ch_errors c @ [e]\<rparr>))
           | _ \<Rightarrow> None)
      | _ \<Rightarrow> None)"

definition send_post_mutex :: "('s, 'n) peers \<Rightarrow> nat \<Rightarrow> 's channel \<Rightarrow> 's channel option" where
  "send_post_mutex P i c =
     (if sender_at c i = Some S_Written then
        Some (set_sender i S_Unlocked (c\<lparr>ch_buf := (ch_buf c)\<lparr>sb_mutex := sl_post (pe_sem P) (sb_mutex (ch_buf c))\<rparr>\<rparr>))
      else None)"

definition send_post_full :: "('s, 'n) peers \<Rightarrow> nat \<Rightarrow> 's channel \<Rightarrow> 's channel option" where
  "send_post_full P i c =
     (if sender_at c i = Some S_Unlocked then
        Some (set_sender i S_Idle (c\<lparr>ch_buf := (ch_buf c)\<lparr>sb_full := sl_post (pe_sem P) (sb_full (ch_buf c))\<rparr>\<rparr>))
      else None)"

section \<open>Receiving\<close>

definition recv_wait_full :: "('s, 'n) peers \<Rightarrow> 's channel \<Rightarrow> 's channel option" where
  "recv_wait_full P c =
     (if ch_receiver c = R_Waiting then
        map_option (\<lambda>t. c\<lparr>ch_receiver := R_Locking, ch_buf := (ch_buf c)\<lparr>sb_full := t\<rparr>\<rparr>)
          (sl_wait (pe_sem P) (sb_full (ch_buf c)))
      else None)"

definition recv_wait_mutex :: "('s, 'n) peers \<Rightarrow> 's channel \<Rightarrow> 's channel option" where
  "recv_wait_mutex P c =
     (if ch_receiver c = R_Locking then
        map_option (\<lambda>t. c\<lparr>ch_receiver := R_Handling, ch_buf := (ch_buf c)\<lparr>sb_mutex := t\<rparr>\<rparr>)
          (sl_wait (pe_sem P) (sb_mutex (ch_buf c)))
      else None)"

definition recv_handle :: "('s, 'n) peers \<Rightarrow> 's channel \<Rightarrow> 's channel option" where
  "recv_handle P c =
     (if ch_receiver c \<noteq> R_Handling then None
      else if sb_shutdown (ch_buf c) then Some (c\<lparr>ch_receiver := R_Posting True\<rparr>)
      else
        (let text = c_str (sb_buffer (ch_buf c)) in
         case receive_message (pe_recv P) (pe_slots P) (pe_exc P) text of
           Ok r \<Rightarrow> Some (c\<lparr>ch_receiver := R_Posting False, ch_received := ch_received c @ [text],
                              ch_report := ch_report c @ [r]\<rparr>)
         | _ \<Rightarrow> Some (c\<lparr>ch_terminated := True\<rparr>)))"

definition recv_post_mutex :: "('s, 'n) peers \<Rightarrow> 's channel \<Rightarrow> 's channel option" where
  "recv_post_mutex P c =
     (case ch_receiver c of
        R_Posting stop \<Rightarrow>
          Some (c\<lparr>ch_receiver := R_Signalling stop,
                  ch_buf := (ch_buf c)\<lparr>sb_mutex := sl_post (pe_sem P) (sb_mutex (ch_buf c))\<rparr>\<rparr>)
      | _ \<Rightarrow> None)"

definition recv_post_empty :: "('s, 'n) peers \<Rightarrow> 's channel \<Rightarrow> 's channel option" where
  "recv_post_empty P c =
     (case ch_receiver c of
        R_Signalling stop \<Rightarrow>
          Some (c\<lparr>ch_receiver := (if stop then R_Done else R_Waiting),
                  ch_buf := (ch_buf c)\<lparr>sb_empty := sl_post (pe_sem P) (sb_empty (ch_buf c))\<rparr>\<rparr>)
      | _ \<Rightarrow> None)"

section \<open>Destroying and reopening the receiving endpoint\<close>

definition shutdown_flag :: "'s channel \<Rightarrow> 's channel option" where
  "shutdown_flag c =
     (if ch_destructor c = D_None
      then Some (c\<lparr>ch_destructor := D_Flagged, ch_buf := (ch_buf c)\<lparr>sb_shutdown := True\<rparr>\<rparr>) else None)"

definition shutdown_post :: "('s, 'n) peers \<Rightarrow> 's channel \<Rightarrow> 's channel option" where
  "shutdown_post P c =
     (if ch_destructor c = D_Flagged
      then Some (c\<lparr>ch_destructor := D_Joining, ch_posts := ch_posts c + 1,
                   ch_buf := (ch_buf c)\<lparr>sb_full := sl_post (pe_sem P) (sb_full (ch_buf c))\<rparr>\<rparr>)
      else None)"

definition shutdown_join :: "'s channel \<Rightarrow> 's channel option" where
  "shutdown_join c =
     (if ch_destructor c = D_Joining \<and> ch_receiver c = R_Done
      then Some (c\<lparr>ch_destructor := D_Gone, ch_buf := (ch_buf c)\<lparr>sb_shutdown := False\<rparr>\<rparr>) else None)"

text \<open>The next endpoint that takes the same role maps the same memory and starts a thread.\<close>

definition reopen :: "'s channel \<Rightarrow> 's channel option" where
  "reopen c =
     (if ch_destructor c = D_Gone then Some (c\<lparr>ch_destructor := D_None, ch_receiver := R_Waiting\<rparr>) else None)"

datatype channel_event =
    WaitEmpty nat ipc_message
  | LockSend nat
  | Write nat
  | UnlockSend nat
  | PostFull nat
  | WaitFull
  | LockReceive
  | Handle
  | UnlockReceive
  | PostEmpty
  | ShutdownFlag
  | ShutdownPost
  | Join
  | Reopen

definition channel_step :: "('s, 'n) peers \<Rightarrow> 's channel \<Rightarrow> channel_event \<Rightarrow> 's channel option" where
  "channel_step P c e =
     (if ch_terminated c then None
      else case e of
        WaitEmpty i m \<Rightarrow> send_wait_empty P i m c
      | LockSend i \<Rightarrow> send_wait_mutex P i c
      | Write i \<Rightarrow> send_write P i c
      | UnlockSend i \<Rightarrow> send_post_mutex P i c
      | PostFull i \<Rightarrow> send_post_full P i c
      | WaitFull \<Rightarrow> recv_wait_full P c
      | LockReceive \<Rightarrow> recv_wait_mutex P c
      | Handle \<Rightarrow> recv_handle P c
      | UnlockReceive \<Rightarrow> recv_post_mutex P c
      | PostEmpty \<Rightarrow> recv_post_empty P c
      | ShutdownFlag \<Rightarrow> shutdown_flag c
      | ShutdownPost \<Rightarrow> shutdown_post P c
      | Join \<Rightarrow> shutdown_join c
      | Reopen \<Rightarrow> reopen c)"

lemmas channel_ops =
  send_wait_empty_def send_wait_mutex_def send_write_def send_post_mutex_def send_post_full_def
  recv_wait_full_def recv_wait_mutex_def recv_handle_def recv_post_mutex_def recv_post_empty_def
  shutdown_flag_def shutdown_post_def shutdown_join_def reopen_def

section \<open>Who holds what\<close>

definition weight :: "('a \<Rightarrow> nat) \<Rightarrow> 'a list \<Rightarrow> nat" where
  "weight f xs = sum_list (map f xs)"

fun s_mutex :: "sender \<Rightarrow> nat" where
  "s_mutex (S_Writing m) = 1"
| "s_mutex S_Written = 1"
| "s_mutex _ = 0"

fun s_slot :: "sender \<Rightarrow> nat" where
  "s_slot S_Idle = 0"
| "s_slot _ = 1"

fun s_flight :: "sender \<Rightarrow> nat" where
  "s_flight S_Written = 1"
| "s_flight S_Unlocked = 1"
| "s_flight _ = 0"

fun r_mutex :: "receiver \<Rightarrow> nat" where
  "r_mutex R_Handling = 1"
| "r_mutex (R_Posting b) = 1"
| "r_mutex _ = 0"

fun r_slot :: "receiver \<Rightarrow> nat" where
  "r_slot R_Waiting = 0"
| "r_slot R_Done = 0"
| "r_slot _ = 1"

fun r_flight :: "receiver \<Rightarrow> nat" where
  "r_flight R_Locking = 1"
| "r_flight R_Handling = 1"
| "r_flight _ = 0"

lemma weight_update: "i < length xs \<Longrightarrow> weight f (xs[i := v]) + f (xs ! i) = weight f xs + f v"
proof -
  assume "i < length xs"
  then show ?thesis
  proof (induction xs arbitrary: i)
    case (Cons x xs)
    then show ?case by (cases i) (auto simp: weight_def)
  qed simp
qed

lemma weight_replicate: "f x = 0 \<Longrightarrow> weight f (replicate n x) = 0"
  by (induction n) (simp_all add: weight_def)

lemma weight_member: "x \<in> set xs \<Longrightarrow> f x \<le> weight f xs"
  by (induction xs) (auto simp: weight_def)

lemma weight_mono: "(\<And>x. f x \<le> g x) \<Longrightarrow> weight f xs \<le> weight g xs"
  unfolding weight_def by (rule sum_list_mono)

lemma s_flight_slot: "s_flight x \<le> s_slot x" and s_mutex_slot: "s_mutex x \<le> s_slot x"
  by (cases x; simp)+

lemma r_flight_slot: "r_flight r \<le> r_slot r" and r_mutex_slot: "r_mutex r \<le> r_slot r"
  by (cases r; simp)+

lemma weight_snoc [simp]: "weight f (xs @ [x]) = weight f xs + f x"
  by (simp add: weight_def)

definition lost_tokens :: "cpp_exc list \<Rightarrow> nat" where
  "lost_tokens es = length es"

lemma lost_simps [simp]: "lost_tokens (es @ [e]) = lost_tokens es + 1" "lost_tokens [] = 0"
  by (simp_all add: lost_tokens_def)

lemma lost_0: "lost_tokens es = 0 \<longleftrightarrow> es = []"
  by (simp add: lost_tokens_def)

text \<open>The two tokens: the mutex, and the right to use the buffer. A send that throws keeps both.\<close>

definition lock_inv :: "('s \<Rightarrow> nat) \<Rightarrow> 's channel \<Rightarrow> bool" where
  "lock_inv cnt c \<longleftrightarrow>
     cnt (sb_mutex (ch_buf c)) + weight s_mutex (ch_senders c) + r_mutex (ch_receiver c) + lost_tokens (ch_errors c) = 1"

definition slot_inv :: "('s \<Rightarrow> nat) \<Rightarrow> 's channel \<Rightarrow> bool" where
  "slot_inv cnt c \<longleftrightarrow>
     cnt (sb_empty (ch_buf c)) + weight s_slot (ch_senders c) + cnt (sb_full (ch_buf c)) +
       r_slot (ch_receiver c) + lost_tokens (ch_errors c) = 1 + ch_posts c"

definition flight :: "('s \<Rightarrow> nat) \<Rightarrow> 's channel \<Rightarrow> nat" where
  "flight cnt c = weight s_flight (ch_senders c) + cnt (sb_full (ch_buf c)) + r_flight (ch_receiver c)"

text \<open>As long as no receiving endpoint was destroyed, what was written and not yet taken is in the buffer.\<close>

definition data_inv :: "('s \<Rightarrow> nat) \<Rightarrow> 's channel \<Rightarrow> bool" where
  "data_inv cnt c \<longleftrightarrow>
     (ch_posts c = 0 \<and> ch_destructor c = D_None \<longrightarrow>
        ch_sent c = ch_received c @ (if flight cnt c = 0 then [] else [c_str (sb_buffer (ch_buf c))]))"

lemma sender_at_Some: "sender_at c i = Some s \<longleftrightarrow> i < length (ch_senders c) \<and> ch_senders c ! i = s"
  by (auto simp: sender_at_def)

fun stopping :: "receiver \<Rightarrow> bool" where
  "stopping (R_Posting b) = b"
| "stopping (R_Signalling b) = b"
| "stopping R_Done = True"
| "stopping _ = False"

definition flag_inv :: "'s channel \<Rightarrow> bool" where
  "flag_inv c \<longleftrightarrow>
     (sb_shutdown (ch_buf c) \<longleftrightarrow> ch_destructor c = D_Flagged \<or> ch_destructor c = D_Joining) \<and>
     (ch_destructor c = D_Joining \<or> ch_destructor c = D_Gone \<longrightarrow> 0 < ch_posts c) \<and>
     (ch_destructor c = D_Gone \<longrightarrow> ch_receiver c = R_Done) \<and>
     (stopping (ch_receiver c) \<longrightarrow> ch_destructor c \<noteq> D_None) \<and>
     length (sb_buffer (ch_buf c)) = MaxMessageSize"

definition chan_inv :: "('s \<Rightarrow> nat) \<Rightarrow> 's channel \<Rightarrow> bool" where
  "chan_inv cnt c \<longleftrightarrow> lock_inv cnt c \<and> slot_inv cnt c \<and> flag_inv c \<and> data_inv cnt c"

lemma set_sender_sel [simp]:
  "ch_buf (set_sender i v c) = ch_buf c" "ch_receiver (set_sender i v c) = ch_receiver c"
  "ch_destructor (set_sender i v c) = ch_destructor c" "ch_errors (set_sender i v c) = ch_errors c"
  "ch_posts (set_sender i v c) = ch_posts c" "ch_sent (set_sender i v c) = ch_sent c"
  "ch_received (set_sender i v c) = ch_received c" "ch_report (set_sender i v c) = ch_report c"
  "ch_msgs (set_sender i v c) = ch_msgs c" "ch_terminated (set_sender i v c) = ch_terminated c"
  "ch_senders (set_sender i v c) = (ch_senders c)[i := v]"
  by (simp_all add: set_sender_def)

lemma write_message_Ok:
  "write_message V m buf = Ok (text, b) \<Longrightarrow>
   length b = length buf \<and> c_str b = text \<and> (\<exists>json. ipc_ser V m = Ok json \<and> text = c_str json \<and> length json < length buf)"
  by (auto simp: write_message_def outcome_simps split: if_splits dest: strcpy_Ok)

text \<open>The sending steps read backwards.\<close>

lemma send_steps:
  "send_wait_empty P i m c = Some d \<longleftrightarrow> sender_at c i = Some S_Idle \<and>
     (\<exists>t. sl_wait (pe_sem P) (sb_empty (ch_buf c)) = Some t \<and>
          d = set_sender i (S_Entered m) (c\<lparr>ch_buf := (ch_buf c)\<lparr>sb_empty := t\<rparr>\<rparr>))"
  "send_wait_mutex P i c = Some d \<longleftrightarrow> (\<exists>m t. sender_at c i = Some (S_Entered m) \<and>
     sl_wait (pe_sem P) (sb_mutex (ch_buf c)) = Some t \<and>
     d = set_sender i (S_Writing m) (c\<lparr>ch_buf := (ch_buf c)\<lparr>sb_mutex := t\<rparr>\<rparr>))"
  "send_write P i c = Some d \<longleftrightarrow> (\<exists>m. sender_at c i = Some (S_Writing m) \<and>
     ((\<exists>text b. write_message (pe_send P) m (sb_buffer (ch_buf c)) = Ok (text, b) \<and>
         d = set_sender i S_Written
               (c\<lparr>ch_buf := (ch_buf c)\<lparr>sb_buffer := b\<rparr>, ch_msgs := ch_msgs c @ [m], ch_sent := ch_sent c @ [text]\<rparr>)) \<or>
      (\<exists>e. write_message (pe_send P) m (sb_buffer (ch_buf c)) = Throw e \<and>
         d = set_sender i S_Idle (c\<lparr>ch_errors := ch_errors c @ [e]\<rparr>))))"
  "send_post_mutex P i c = Some d \<longleftrightarrow> sender_at c i = Some S_Written \<and>
     d = set_sender i S_Unlocked (c\<lparr>ch_buf := (ch_buf c)\<lparr>sb_mutex := sl_post (pe_sem P) (sb_mutex (ch_buf c))\<rparr>\<rparr>)"
  "send_post_full P i c = Some d \<longleftrightarrow> sender_at c i = Some S_Unlocked \<and>
     d = set_sender i S_Idle (c\<lparr>ch_buf := (ch_buf c)\<lparr>sb_full := sl_post (pe_sem P) (sb_full (ch_buf c))\<rparr>\<rparr>)"
  by (auto simp: send_wait_empty_def send_wait_mutex_def send_write_def send_post_mutex_def send_post_full_def
      split: option.splits sender.splits outcome.splits)

lemma recv_steps:
  "recv_wait_full P c = Some d \<longleftrightarrow> ch_receiver c = R_Waiting \<and>
     (\<exists>t. sl_wait (pe_sem P) (sb_full (ch_buf c)) = Some t \<and>
          d = c\<lparr>ch_receiver := R_Locking, ch_buf := (ch_buf c)\<lparr>sb_full := t\<rparr>\<rparr>)"
  "recv_wait_mutex P c = Some d \<longleftrightarrow> ch_receiver c = R_Locking \<and>
     (\<exists>t. sl_wait (pe_sem P) (sb_mutex (ch_buf c)) = Some t \<and>
          d = c\<lparr>ch_receiver := R_Handling, ch_buf := (ch_buf c)\<lparr>sb_mutex := t\<rparr>\<rparr>)"
  "recv_post_mutex P c = Some d \<longleftrightarrow> (\<exists>stop. ch_receiver c = R_Posting stop \<and>
     d = c\<lparr>ch_receiver := R_Signalling stop,
           ch_buf := (ch_buf c)\<lparr>sb_mutex := sl_post (pe_sem P) (sb_mutex (ch_buf c))\<rparr>\<rparr>)"
  "recv_post_empty P c = Some d \<longleftrightarrow> (\<exists>stop. ch_receiver c = R_Signalling stop \<and>
     d = c\<lparr>ch_receiver := (if stop then R_Done else R_Waiting),
           ch_buf := (ch_buf c)\<lparr>sb_empty := sl_post (pe_sem P) (sb_empty (ch_buf c))\<rparr>\<rparr>)"
  by (auto simp: recv_wait_full_def recv_wait_mutex_def recv_post_mutex_def recv_post_empty_def
      split: receiver.splits)

lemma recv_handle_step:
  "recv_handle P c = Some d \<longleftrightarrow> ch_receiver c = R_Handling \<and>
     (if sb_shutdown (ch_buf c) then d = c\<lparr>ch_receiver := R_Posting True\<rparr>
      else (\<exists>r. receive_message (pe_recv P) (pe_slots P) (pe_exc P) (c_str (sb_buffer (ch_buf c))) = Ok r \<and>
                d = c\<lparr>ch_receiver := R_Posting False,
                      ch_received := ch_received c @ [c_str (sb_buffer (ch_buf c))],
                      ch_report := ch_report c @ [r]\<rparr>) \<or>
           ((\<nexists>r. receive_message (pe_recv P) (pe_slots P) (pe_exc P) (c_str (sb_buffer (ch_buf c))) = Ok r) \<and>
                d = c\<lparr>ch_terminated := True\<rparr>))"
  by (auto simp: recv_handle_def Let_def split: outcome.splits)

lemma destructor_steps:
  "shutdown_flag c = Some d \<longleftrightarrow> ch_destructor c = D_None \<and>
     d = c\<lparr>ch_destructor := D_Flagged, ch_buf := (ch_buf c)\<lparr>sb_shutdown := True\<rparr>\<rparr>"
  "shutdown_post P c = Some d \<longleftrightarrow> ch_destructor c = D_Flagged \<and>
     d = c\<lparr>ch_destructor := D_Joining, ch_posts := ch_posts c + 1,
           ch_buf := (ch_buf c)\<lparr>sb_full := sl_post (pe_sem P) (sb_full (ch_buf c))\<rparr>\<rparr>"
  "shutdown_join c = Some d \<longleftrightarrow> ch_destructor c = D_Joining \<and> ch_receiver c = R_Done \<and>
     d = c\<lparr>ch_destructor := D_Gone, ch_buf := (ch_buf c)\<lparr>sb_shutdown := False\<rparr>\<rparr>"
  "reopen c = Some d \<longleftrightarrow> ch_destructor c = D_Gone \<and> d = c\<lparr>ch_destructor := D_None, ch_receiver := R_Waiting\<rparr>"
  by (auto simp: shutdown_flag_def shutdown_post_def shutdown_join_def reopen_def)

lemmas channel_steps = send_steps recv_steps recv_handle_step destructor_steps

lemma channel_step_alive: "channel_step P c e = Some d \<Longrightarrow> \<not> ch_terminated c"
  by (auto simp: channel_step_def split: if_splits)

fun quiet_event :: "channel_event \<Rightarrow> bool" where
  "quiet_event (Write i) = False"
| "quiet_event Handle = False"
| "quiet_event ShutdownFlag = False"
| "quiet_event ShutdownPost = False"
| "quiet_event Join = False"
| "quiet_event Reopen = False"
| "quiet_event _ = True"

text \<open>The other steps only move tokens.\<close>

lemma quiet_frame:
  assumes "channel_step P c e = Some d" and "quiet_event e"
  shows "sb_shutdown (ch_buf d) = sb_shutdown (ch_buf c) \<and> sb_buffer (ch_buf d) = sb_buffer (ch_buf c) \<and>
         ch_destructor d = ch_destructor c \<and> ch_posts d = ch_posts c \<and> ch_errors d = ch_errors c \<and>
         ch_msgs d = ch_msgs c \<and> ch_sent d = ch_sent c \<and> ch_received d = ch_received c \<and>
         ch_report d = ch_report c \<and> (ch_receiver c = R_Done \<longrightarrow> ch_receiver d = R_Done) \<and>
         (stopping (ch_receiver d) \<longrightarrow> stopping (ch_receiver c)) \<and> ch_terminated d = ch_terminated c"
proof (cases e)
  case (LockSend i)
  with assms obtain m t where "d = set_sender i (S_Writing m) (c\<lparr>ch_buf := (ch_buf c)\<lparr>sb_mutex := t\<rparr>\<rparr>)"
    by (auto simp: channel_step_def send_steps split: if_splits)
  then show ?thesis by simp
qed (use assms in \<open>auto simp: channel_step_def send_steps recv_steps split: if_splits\<close>)

lemma write_step:
  assumes "channel_step P c (Write i) = Some d"
  obtains (written) m str b where "sender_at c i = Some (S_Writing m)"
      "write_message (pe_send P) m (sb_buffer (ch_buf c)) = Ok (str, b)"
      "d = set_sender i S_Written
         (c\<lparr>ch_buf := (ch_buf c)\<lparr>sb_buffer := b\<rparr>, ch_msgs := ch_msgs c @ [m], ch_sent := ch_sent c @ [str]\<rparr>)"
    | (threw) m e where "sender_at c i = Some (S_Writing m)"
      "write_message (pe_send P) m (sb_buffer (ch_buf c)) = Throw e"
      "d = set_sender i S_Idle (c\<lparr>ch_errors := ch_errors c @ [e]\<rparr>)"
  using assms by (auto simp: channel_step_def send_steps split: if_splits)

lemma handle_step:
  assumes "channel_step P c Handle = Some d"
  obtains (stopped) "ch_receiver c = R_Handling" "sb_shutdown (ch_buf c)" "d = c\<lparr>ch_receiver := R_Posting True\<rparr>"
    | (taken) r where "ch_receiver c = R_Handling" "\<not> sb_shutdown (ch_buf c)"
      "receive_message (pe_recv P) (pe_slots P) (pe_exc P) (c_str (sb_buffer (ch_buf c))) = Ok r"
      "d = c\<lparr>ch_receiver := R_Posting False, ch_received := ch_received c @ [c_str (sb_buffer (ch_buf c))],
            ch_report := ch_report c @ [r]\<rparr>"
    | (died) "ch_receiver c = R_Handling" "\<not> sb_shutdown (ch_buf c)" "d = c\<lparr>ch_terminated := True\<rparr>"
  using assms by (auto simp: channel_step_def recv_handle_step split: if_splits)

lemma flag_step:
  assumes "flag_inv c" and "channel_step P c e = Some d"
  shows "flag_inv d"
proof (cases "quiet_event e")
  case True
  then show ?thesis using quiet_frame [OF assms(2)] assms(1) by (simp add: flag_inv_def)
next
  case False
  then show ?thesis
  proof (cases e)
    case (Write i)
    then have "channel_step P c (Write i) = Some d" using assms(2) by simp
    then show ?thesis using assms(1)
      by (cases rule: write_step) (simp_all add: flag_inv_def write_message_Ok)
  next
    case Handle
    then have "channel_step P c Handle = Some d" using assms(2) by simp
    then show ?thesis using assms(1) by (cases rule: handle_step) (auto simp: flag_inv_def)
  qed (use assms in \<open>auto simp: channel_step_def destructor_steps flag_inv_def split: if_splits\<close>)
qed

context semaphore
begin

lemma tokens_step:
  assumes L: "pe_sem P = L" and inv: "lock_inv cnt c" "slot_inv cnt c" "flag_inv c"
    and step: "channel_step P c e = Some d"
  shows "lock_inv cnt d" and "slot_inv cnt d"
proof -
  note defs = channel_step_def channel_steps sender_at_Some lock_inv_def slot_inv_def L cnt_post
  note upd = weight_update [of _ "ch_senders c" s_mutex] weight_update [of _ "ch_senders c" s_slot]
  have "lock_inv cnt d \<and> slot_inv cnt d"
  proof (cases e)
    case (WaitEmpty i m)
    then show ?thesis
      using step inv upd [of i "S_Entered m"] by (auto simp: defs dest!: wait_Some split: if_splits)
  next
    case (LockSend i)
    then obtain m where "sender_at c i = Some (S_Entered m)"
      using step by (auto simp: channel_step_def channel_steps split: if_splits)
    then show ?thesis
      using LockSend step inv upd [of i "S_Writing m"]
      by (auto simp: defs dest!: wait_Some split: if_splits)
  next
    case (Write i)
    then show ?thesis
      using step inv upd [of i S_Written] upd [of i S_Idle] by (auto simp: defs split: if_splits)
  next
    case (UnlockSend i)
    then show ?thesis
      using step inv upd [of i S_Unlocked] by (auto simp: defs split: if_splits)
  next
    case (PostFull i)
    then show ?thesis
      using step inv upd [of i S_Idle] by (auto simp: defs split: if_splits)
  next
    case Reopen
    then show ?thesis using step inv by (auto simp: defs flag_inv_def split: if_splits)
  qed (use step inv in \<open>auto simp: defs dest!: wait_Some split: if_splits\<close>)
  then show "lock_inv cnt d" and "slot_inv cnt d" by simp_all
qed

text \<open>The holder of the buffer is alone: nothing is in flight while a sender is about to write.\<close>

lemma writer_alone:
  assumes "slot_inv cnt c" and "ch_posts c = 0" and "sender_at c i = Some (S_Writing m)"
  shows "cnt (sb_full (ch_buf c)) = 0" and "r_slot (ch_receiver c) = 0"
    and "weight s_flight (ch_senders c) = 0" and "ch_errors c = []"
proof -
  have i: "i < length (ch_senders c)" "ch_senders c ! i = S_Writing m" using assms(3) by (simp_all add: sender_at_Some)
  then have "1 \<le> weight s_slot (ch_senders c)"
    using weight_member [of "S_Writing m" "ch_senders c" s_slot] by (auto simp: in_set_conv_nth)
  then have w: "weight s_slot (ch_senders c) = 1" "cnt (sb_full (ch_buf c)) = 0" "r_slot (ch_receiver c) = 0"
      "lost_tokens (ch_errors c) = 0"
    using assms(1,2) unfolding slot_inv_def by linarith+
  then show "cnt (sb_full (ch_buf c)) = 0" "r_slot (ch_receiver c) = 0" "ch_errors c = []"
    by (simp_all add: lost_0)
  have "weight s_flight ((ch_senders c)[i := S_Written]) \<le> weight s_slot ((ch_senders c)[i := S_Written])"
    by (rule weight_mono) (rule s_flight_slot)
  then show "weight s_flight (ch_senders c) = 0"
    using w(1) weight_update [OF i(1), of s_flight S_Written] weight_update [OF i(1), of s_slot S_Written] i(2)
    by simp
qed

lemma flight_le: "flight cnt c \<le> weight s_slot (ch_senders c) + cnt (sb_full (ch_buf c)) + r_slot (ch_receiver c)"
  unfolding flight_def
  using weight_mono [of s_flight s_slot, OF s_flight_slot] r_flight_slot by (intro add_mono) auto

lemma quiet_flight:
  assumes "pe_sem P = L" and "channel_step P c e = Some d" and "quiet_event e"
  shows "flight cnt d = flight cnt c"
proof -
  note defs = channel_step_def send_steps recv_steps sender_at_Some flight_def assms(1) cnt_post
  note upd = weight_update [of _ "ch_senders c" s_flight]
  show ?thesis
  proof (cases e)
    case (WaitEmpty i m)
    then show ?thesis using assms(2) upd [of i "S_Entered m"] by (auto simp: defs split: if_splits)
  next
    case (LockSend i)
    then obtain m t where "sender_at c i = Some (S_Entered m)"
        "d = set_sender i (S_Writing m) (c\<lparr>ch_buf := (ch_buf c)\<lparr>sb_mutex := t\<rparr>\<rparr>)"
      using assms(2) by (auto simp: channel_step_def send_steps split: if_splits)
    then show ?thesis using upd [of i "S_Writing m"] by (auto simp: flight_def sender_at_Some)
  next
    case (UnlockSend i)
    then show ?thesis using assms(2) upd [of i S_Unlocked] by (auto simp: defs split: if_splits)
  next
    case (PostFull i)
    then show ?thesis using assms(2) upd [of i S_Idle] by (auto simp: defs split: if_splits)
  qed (use assms in \<open>auto simp: defs dest!: wait_Some split: if_splits\<close>)
qed

lemma handling_flight:
  assumes "slot_inv cnt c" and "ch_posts c = 0" and "ch_receiver c = R_Handling"
  shows "flight cnt c = 1" and "weight s_flight (ch_senders c) = 0" and "cnt (sb_full (ch_buf c)) = 0"
proof -
  have "flight cnt c \<le> 1" using flight_le [of c] assms(1,2) unfolding slot_inv_def by linarith
  then show "flight cnt c = 1" "weight s_flight (ch_senders c) = 0" "cnt (sb_full (ch_buf c)) = 0"
    using assms(3) by (auto simp: flight_def)
qed

lemma data_step:
  assumes L: "pe_sem P = L" and inv: "chan_inv cnt c" and step: "channel_step P c e = Some d"
  shows "data_inv cnt d"
proof (cases "quiet_event e")
  case True
  then show ?thesis
    using quiet_frame [OF step True] quiet_flight [OF L step True] inv by (simp add: chan_inv_def data_inv_def)
next
  case False
  show ?thesis
  proof (cases e)
    case (Write i)
    then have w: "channel_step P c (Write i) = Some d" using step by simp
    show ?thesis
      unfolding data_inv_def
    proof (intro impI, elim conjE)
      assume posts: "ch_posts d = 0" and nd: "ch_destructor d = D_None"
      from w show "ch_sent d = ch_received d @ (if flight cnt d = 0 then [] else [c_str (sb_buffer (ch_buf d))])"
      proof (cases rule: write_step)
        case (written m str b)
        then have "ch_posts c = 0" using posts by simp
        note alone = writer_alone [OF _ this written(1)]
        have "flight cnt c = 0" "flight cnt d = 1"
          using alone inv weight_update [of i "ch_senders c" s_flight S_Written] written(1,3)
            r_flight_slot [of "ch_receiver c"]
          by (auto simp: chan_inv_def flight_def sender_at_Some)
        then show ?thesis
          using inv written posts nd write_message_Ok [OF written(2)] by (simp add: chan_inv_def data_inv_def)
      next
        case (threw m e')
        then have "flight cnt d = flight cnt c"
          using weight_update [of i "ch_senders c" s_flight S_Idle] by (auto simp: flight_def sender_at_Some)
        then show ?thesis using inv threw posts nd by (simp add: chan_inv_def data_inv_def)
      qed
    qed
  next
    case Handle
    then have h: "channel_step P c Handle = Some d" using step by simp
    show ?thesis
      unfolding data_inv_def
    proof (intro impI, elim conjE)
      assume posts: "ch_posts d = 0" and nd: "ch_destructor d = D_None"
      from h show "ch_sent d = ch_received d @ (if flight cnt d = 0 then [] else [c_str (sb_buffer (ch_buf d))])"
      proof (cases rule: handle_step)
        case stopped
        then show ?thesis using inv nd by (simp add: chan_inv_def flag_inv_def)
      next
        case (taken r)
        then have p: "ch_posts c = 0" "ch_destructor c = D_None" using posts nd by simp_all
        have "flight cnt c = 1" "flight cnt d = 0"
          using handling_flight [OF _ p(1) taken(1)] inv taken by (simp_all add: chan_inv_def flight_def)
        then show ?thesis using inv p taken(4) by (simp add: chan_inv_def data_inv_def)
      next
        case died
        then show ?thesis using inv posts nd by (simp add: chan_inv_def data_inv_def flight_def)
      qed
    qed
  qed (use inv step False in \<open>auto simp: channel_step_def destructor_steps data_inv_def chan_inv_def flag_inv_def split: if_splits\<close>)
qed

lemma chan_inv_step:
  assumes "pe_sem P = L" and "chan_inv cnt c" and "channel_step P c e = Some d"
  shows "chan_inv cnt d"
  using tokens_step [OF assms(1) _ _ _ assms(3)] flag_step [OF _ assms(3)] data_step [OF assms] assms(2)
  unfolding chan_inv_def by blast

lemma chan_inv_new:
  "length mem = MaxMessageSize \<Longrightarrow> chan_inv cnt (new_channel L mem n)"
  by (simp add: chan_inv_def lock_inv_def slot_inv_def flag_inv_def data_inv_def flight_def new_channel_def
      SharedBuffer_def cnt_init weight_replicate)

end

text \<open>The invariant, whatever the counter of the semaphores is.\<close>

interpretation channel: event_machine "channel_step P" "\<lambda>c. \<forall>cnt. semaphore (pe_sem P) cnt \<longrightarrow> chan_inv cnt c"
  by unfold_locales (auto intro: semaphore.chan_inv_step)

lemma chan_inv_reached:
  assumes "semaphore (pe_sem P) cnt" and "length mem = MaxMessageSize"
    and "exec (channel_step P) (new_channel (pe_sem P) mem n) es = Some c"
  shows "chan_inv cnt c"
  using channel.exec_keeps [OF _ assms(3)] semaphore.chan_inv_new [OF _ assms(2)] assms(1) by blast

section \<open>What was sent and what was received\<close>

definition hist_inv :: "('s, 'n) peers \<Rightarrow> 's channel \<Rightarrow> bool" where
  "hist_inv P c \<longleftrightarrow>
     list_all2 (\<lambda>m s. \<exists>json. ipc_ser (pe_send P) m = Ok json \<and> s = c_str json) (ch_msgs c) (ch_sent c) \<and>
     list_all2 (\<lambda>s r. receive_message (pe_recv P) (pe_slots P) (pe_exc P) s = Ok r) (ch_received c) (ch_report c)"

lemma hist_step:
  assumes "hist_inv P c" and "channel_step P c e = Some d"
  shows "hist_inv P d"
proof (cases "quiet_event e")
  case True
  then show ?thesis using quiet_frame [OF assms(2)] assms(1) by (simp add: hist_inv_def)
next
  case False
  show ?thesis
  proof (cases e)
    case (Write i)
    then have "channel_step P c (Write i) = Some d" using assms(2) by simp
    then show ?thesis using assms(1)
      by (cases rule: write_step) (auto simp: hist_inv_def dest!: write_message_Ok intro!: list_all2_appendI)
  next
    case Handle
    then have "channel_step P c Handle = Some d" using assms(2) by simp
    then show ?thesis using assms(1) by (cases rule: handle_step) (auto simp: hist_inv_def intro!: list_all2_appendI)
  qed (use assms False in \<open>auto simp: channel_step_def destructor_steps hist_inv_def split: if_splits\<close>)
qed

interpretation history: event_machine "channel_step P" "hist_inv P"
  by unfold_locales (rule hist_step)

lemma hist_inv_new: "hist_inv P (new_channel L mem n)"
  by (simp add: hist_inv_def new_channel_def)

lemma weight_two:
  assumes "i < length xs" and "j < length xs" and "i \<noteq> j" and "f z = 0"
  shows "f (xs ! i) + f (xs ! j) \<le> weight f xs"
proof -
  have "f (xs ! j) \<le> weight f (xs[i := z])"
    using assms(2,3) weight_member [of "xs ! j" "xs[i := z]" f] by (metis length_list_update nth_list_update_neq nth_mem)
  then show ?thesis using weight_update [OF assms(1), of f z] assms(4) by linarith
qed

lemma receive_delivers:
  assumes "ipc_con W s = Ok (t, m)" and "slots t = Some sl" and "sl_rtti sl = im_rtti m"
    and "sl_handler sl m = Ok ()"
  shows "receive_message W slots eh s = Ok (Delivered t m)"
  using assms by (simp add: receive_message_def call_slot_def)

section \<open>After a failed send\<close>

text \<open>Nobody holds a token any more, and none comes back.\<close>

definition dead :: "('s \<Rightarrow> nat) \<Rightarrow> 's channel \<Rightarrow> bool" where
  "dead cnt c \<longleftrightarrow>
     cnt (sb_mutex (ch_buf c)) = 0 \<and> cnt (sb_empty (ch_buf c)) = 0 \<and> (\<forall>s \<in> set (ch_senders c). s = S_Idle) \<and>
     (ch_receiver c = R_Waiting \<or> ch_receiver c = R_Locking) \<and> ch_destructor c \<noteq> D_Gone"

lemma weight_slot_0: "weight s_slot xs = 0 \<longleftrightarrow> (\<forall>s \<in> set xs. s = S_Idle)"
proof -
  have "s_slot s = 0 \<longleftrightarrow> s = S_Idle" for s by (cases s) auto
  then show ?thesis by (auto simp: weight_def)
qed

context semaphore
begin

lemma dead_start:
  assumes "chan_inv cnt c" and "ch_errors c \<noteq> []" and "ch_posts c = 0" and "ch_destructor c = D_None"
  shows "dead cnt c"
proof -
  have "1 \<le> lost_tokens (ch_errors c)" using assms(2) by (simp add: lost_tokens_def Suc_leI)
  then have "cnt (sb_mutex (ch_buf c)) = 0" "cnt (sb_empty (ch_buf c)) = 0" "weight s_slot (ch_senders c) = 0"
      "r_slot (ch_receiver c) = 0"
    using assms(1,3) unfolding chan_inv_def lock_inv_def slot_inv_def by linarith+
  moreover have "ch_receiver c \<noteq> R_Done" using assms(1,4) by (auto simp: chan_inv_def flag_inv_def)
  ultimately show ?thesis using assms(4) by (cases "ch_receiver c") (auto simp: dead_def weight_slot_0)
qed

lemma dead_sender: "dead cnt c \<Longrightarrow> sender_at c i = Some s \<Longrightarrow> s = S_Idle"
  by (auto simp: dead_def sender_at_Some)

lemma dead_step:
  assumes L: "pe_sem P = L" and d: "dead cnt c" and step: "channel_step P c e = Some d"
  shows "dead cnt d \<and> ch_sent d = ch_sent c \<and> ch_received d = ch_received c"
proof (cases e)
  case (Write i)
  then show ?thesis using step dead_sender [OF d, of i] by (auto simp: channel_step_def send_steps split: if_splits)
next
  case (LockSend i)
  then show ?thesis using step dead_sender [OF d, of i] by (auto simp: channel_step_def send_steps split: if_splits)
next
  case (UnlockSend i)
  then show ?thesis using step dead_sender [OF d, of i] by (auto simp: channel_step_def send_steps split: if_splits)
next
  case (PostFull i)
  then show ?thesis using step dead_sender [OF d, of i] by (auto simp: channel_step_def send_steps split: if_splits)
next
  case Handle
  then show ?thesis using step d by (auto simp: channel_step_def recv_handle_def dead_def split: if_splits)
qed (use assms in \<open>auto simp: channel_step_def send_steps recv_steps destructor_steps dead_def L
       split: if_splits dest!: wait_Some\<close>)

end

lemma dead_exec:
  assumes "semaphore (pe_sem P) cnt" and "dead cnt c" and "exec (channel_step P) c es = Some d"
  shows "dead cnt d \<and> ch_sent d = ch_sent c \<and> ch_received d = ch_received c"
  using assms(2,3)
proof (induction es arbitrary: c)
  case (Cons e es)
  then obtain c' where c': "channel_step P c e = Some c'" "exec (channel_step P) c' es = Some d"
    by (auto split: option.splits)
  then show ?case using Cons.IH [of c'] semaphore.dead_step [OF assms(1) refl Cons.prems(1) c'(1)] by simp
qed simp

section \<open>Nothing stays in the buffer for good\<close>

definition lively :: "('s \<Rightarrow> nat) \<Rightarrow> 's channel \<Rightarrow> bool" where
  "lively cnt c \<longleftrightarrow> chan_inv cnt c \<and> ch_destructor c = D_None \<and> ch_posts c = 0 \<and> ch_errors c = [] \<and>
     \<not> ch_terminated c"

definition drains :: "('s, 'n) peers \<Rightarrow> 's channel \<Rightarrow> bool" where
  "drains P c \<longleftrightarrow> (\<exists>es d. exec (channel_step P) c es = Some d \<and> ch_received d = ch_sent d \<and> ch_sent d = ch_sent c)"

lemma drains_step:
  "channel_step P c e = Some d \<Longrightarrow> ch_sent d = ch_sent c \<Longrightarrow> drains P d \<Longrightarrow> drains P c"
  unfolding drains_def by (elim exE conjE, rule_tac x = "e # es" in exI, rule_tac x = da in exI) simp

context semaphore
begin

lemma lively_quiet:
  assumes "pe_sem P = L" and "lively cnt c" and "channel_step P c e = Some d" and "quiet_event e"
  shows "lively cnt d" and "ch_sent d = ch_sent c"
  using assms chan_inv_step [OF assms(1) _ assms(3)] quiet_frame [OF assms(3,4)] by (auto simp: lively_def)

lemma drains_handling:
  assumes "pe_sem P = L" and "lively cnt c" and "ch_receiver c = R_Handling"
    and ok: "\<And>s. \<exists>r. receive_message (pe_recv P) (pe_slots P) (pe_exc P) s = Ok r"
  shows "drains P c"
proof -
  obtain r where r: "receive_message (pe_recv P) (pe_slots P) (pe_exc P) (c_str (sb_buffer (ch_buf c))) = Ok r"
    using ok by blast
  let ?d = "c\<lparr>ch_receiver := R_Posting False, ch_received := ch_received c @ [c_str (sb_buffer (ch_buf c))],
            ch_report := ch_report c @ [r]\<rparr>"
  have "channel_step P c Handle = Some ?d"
    using assms(2,3) r by (simp add: channel_step_def recv_handle_step lively_def chan_inv_def flag_inv_def)
  moreover have "ch_sent c = ch_received ?d"
    using assms(2,3) handling_flight(1) [of c] by (simp add: lively_def chan_inv_def data_inv_def)
  ultimately show ?thesis by (auto simp: drains_def intro!: exI [of _ "[Handle]"])
qed

lemma drains_locking:
  assumes L: "pe_sem P = L" and c: "lively cnt c" "ch_receiver c = R_Locking"
    and ok: "\<And>s. \<exists>r. receive_message (pe_recv P) (pe_slots P) (pe_exc P) s = Ok r"
  shows "drains P c"
proof -
  have "weight s_slot (ch_senders c) = 0" using c by (simp add: lively_def chan_inv_def slot_inv_def)
  then have "weight s_mutex (ch_senders c) = 0"
    using weight_mono [of s_mutex s_slot "ch_senders c", OF s_mutex_slot] by simp
  then have "0 < cnt (sb_mutex (ch_buf c))" using c by (auto simp: lively_def chan_inv_def lock_inv_def)
  then obtain t where "sl_wait L (sb_mutex (ch_buf c)) = Some t" using wait_pos by blast
  then have step: "channel_step P c LockReceive =
      Some (c\<lparr>ch_receiver := R_Handling, ch_buf := (ch_buf c)\<lparr>sb_mutex := t\<rparr>\<rparr>)"
    using c L by (simp add: channel_step_def recv_steps lively_def)
  show ?thesis
    using drains_step [OF step _ drains_handling [OF L lively_quiet(1) [OF L c(1) step] _ ok]] by simp
qed

lemma drains_full:
  assumes L: "pe_sem P = L" and c: "lively cnt c" "0 < cnt (sb_full (ch_buf c))"
    and ok: "\<And>s. \<exists>r. receive_message (pe_recv P) (pe_slots P) (pe_exc P) s = Ok r"
  shows "drains P c"
proof -
  have "r_slot (ch_receiver c) = 0" using c by (simp add: lively_def chan_inv_def slot_inv_def)
  moreover have "\<not> stopping (ch_receiver c)" using c by (auto simp: lively_def chan_inv_def flag_inv_def)
  ultimately have r: "ch_receiver c = R_Waiting" by (cases "ch_receiver c") auto
  obtain t where "sl_wait L (sb_full (ch_buf c)) = Some t" using wait_pos [OF c(2)] by blast
  then have step: "channel_step P c WaitFull =
      Some (c\<lparr>ch_receiver := R_Locking, ch_buf := (ch_buf c)\<lparr>sb_full := t\<rparr>\<rparr>)"
    using c r L by (simp add: channel_step_def recv_steps lively_def)
  show ?thesis
    using drains_step [OF step _ drains_locking [OF L lively_quiet(1) [OF L c(1) step] _ ok]] by simp
qed

lemma drains_unlocked:
  assumes L: "pe_sem P = L" and c: "lively cnt c" "sender_at c i = Some S_Unlocked"
    and ok: "\<And>s. \<exists>r. receive_message (pe_recv P) (pe_slots P) (pe_exc P) s = Ok r"
  shows "drains P c"
proof -
  have step: "channel_step P c (PostFull i) =
      Some (set_sender i S_Idle (c\<lparr>ch_buf := (ch_buf c)\<lparr>sb_full := sl_post L (sb_full (ch_buf c))\<rparr>\<rparr>))"
    using c L by (simp add: channel_step_def send_steps lively_def)
  show ?thesis
    using drains_step [OF step _ drains_full [OF L lively_quiet(1) [OF L c(1) step] _ ok]] by (simp add: cnt_post)
qed

lemma drains_written:
  assumes L: "pe_sem P = L" and c: "lively cnt c" "sender_at c i = Some S_Written"
    and ok: "\<And>s. \<exists>r. receive_message (pe_recv P) (pe_slots P) (pe_exc P) s = Ok r"
  shows "drains P c"
proof -
  have step: "channel_step P c (UnlockSend i) =
      Some (set_sender i S_Unlocked (c\<lparr>ch_buf := (ch_buf c)\<lparr>sb_mutex := sl_post L (sb_mutex (ch_buf c))\<rparr>\<rparr>))"
    (is "_ = Some ?d")
    using c L by (simp add: channel_step_def send_steps lively_def)
  have "sender_at ?d i = Some S_Unlocked" using c(2) by (simp add: sender_at_Some)
  then show ?thesis
    using drains_step [OF step _ drains_unlocked [OF L lively_quiet(1) [OF L c(1) step] _ ok]] by simp
qed

lemma lively_drains:
  assumes L: "pe_sem P = L" and c: "lively cnt c"
    and ok: "\<And>s. \<exists>r. receive_message (pe_recv P) (pe_slots P) (pe_exc P) s = Ok r"
  shows "drains P c"
proof (cases "flight cnt c = 0")
  case True
  then have "ch_received c = ch_sent c" using c by (simp add: lively_def chan_inv_def data_inv_def)
  then show ?thesis by (auto simp: drains_def intro!: exI [of _ "[]"])
next
  case False
  consider "0 < cnt (sb_full (ch_buf c))" | "ch_receiver c = R_Locking" | "ch_receiver c = R_Handling"
    | s where "s \<in> set (ch_senders c)" "0 < s_flight s"
    using False by (cases "ch_receiver c") (auto simp: flight_def weight_def)
  then show ?thesis
  proof cases
    case (4 s)
    then obtain i where i: "sender_at c i = Some s" by (auto simp: sender_at_Some in_set_conv_nth)
    have "s = S_Written \<or> s = S_Unlocked" using 4(2) by (cases s rule: sender.exhaust) auto
    then show ?thesis
      using i drains_written [OF L c _ ok, of i] drains_unlocked [OF L c _ ok, of i] by blast
  qed (use drains_full [OF L c _ ok] drains_locking [OF L c _ ok] drains_handling [OF L c _ ok] in blast)+
qed

end

section \<open>An example\<close>

definition demo_env :: "jnode ipc_env" where
  "demo_env =
     \<lparr>ie_json = ref_json, ie_sy = (\<lambda>_. JInt 0), ie_ex = (\<lambda>_. Ok 0), ie_throw = no_throw_env,
      ie_factory = \<lparr>m_rtti_map = [''4Ping'' \<mapsto> ''ping''], m_ctors = [''ping'' \<mapsto> ping_class]\<rparr>\<rparr>"

definition ping :: "cint \<Rightarrow> ipc_message" where
  "ping n = \<lparr>im_rtti = ''4Ping'', im_members = [(''count'', EInt n), (''note'', EStr [])]\<rparr>"

definition demo_peers :: "(nat, jnode) peers" where
  "demo_peers =
     \<lparr>pe_sem = nat_sem, pe_send = demo_env, pe_recv = demo_env,
      pe_slots = [''ping'' \<mapsto> \<lparr>sl_rtti = ''4Ping'', sl_handler = (\<lambda>_. Ok ())\<rparr>], pe_exc = None\<rparr>"

definition zeros :: string where
  "zeros = replicate MaxMessageSize nul"

lemma zeros_length [simp]: "length zeros = MaxMessageSize"
  by (simp add: zeros_def)

lemma demo_peers_sel [simp]:
  "pe_sem demo_peers = nat_sem" "pe_send demo_peers = demo_env" "pe_recv demo_peers = demo_env"
  by (simp_all add: demo_peers_def)

lemma demo_ok: "ipc_ok demo_env (ping n)"
  using ref.json_library_axioms
  by (simp add: ipc_ok_def demo_env_def ping_def ping_class_def instance_of_def)

lemma demo_tid: "ipc_tid demo_env (ping n) = ''ping''"
  by (simp add: ipc_tid_def demo_env_def ping_def)

lemma demo_text: "\<exists>s. ipc_ser demo_env (ping 7) = Ok s \<and> length s < 1000 \<and> nul \<notin> set s"
proof -
  have "(case ipc_ser demo_env (ping 7) of Ok s \<Rightarrow> length s < 1000 \<and> list_all (\<lambda>c. c \<noteq> nul) s | _ \<Rightarrow> False)"
    by code_simp
  then show ?thesis by (cases "ipc_ser demo_env (ping 7)") (auto simp: list_all_iff)
qed

lemma write_fits:
  "ipc_ser V m = Ok s \<Longrightarrow> length s < length buf \<Longrightarrow> \<exists>b. write_message V m buf = Ok (c_str s, b)"
  using length_c_str_le [of s] by (auto simp: write_message_def strcpy_def Let_def)

lemma demo_write:
  "\<exists>s b. write_message demo_env (ping 7) zeros = Ok (s, b) \<and> c_str b = s \<and> length b = MaxMessageSize \<and>
     ipc_ser demo_env (ping 7) = Ok s \<and> nul \<notin> set s"
proof -
  obtain s where s: "ipc_ser demo_env (ping 7) = Ok s" "length s < 1000" "nul \<notin> set s" using demo_text by blast
  then obtain b where "write_message demo_env (ping 7) zeros = Ok (s, b)"
    using write_fits [OF s(1), of zeros] by (auto simp: MaxMessageSize_def c_str_no_nul)
  then show ?thesis using s write_message_Ok by fastforce
qed

lemmas channel_run =
  channel_step_def channel_steps new_channel_def SharedBuffer_def nat_sem_def sender_at_Some set_sender_def

section \<open>Properties\<close>

definition sender_in_cs :: "'s channel \<Rightarrow> nat \<Rightarrow> bool" where
  "sender_in_cs c i \<longleftrightarrow> i < length (ch_senders c) \<and> s_mutex (ch_senders c ! i) = 1"

definition receiver_in_cs :: "'s channel \<Rightarrow> bool" where
  "receiver_in_cs c \<longleftrightarrow> r_mutex (ch_receiver c) = 1"

text \<open>
  C12. The shared buffer is used by one thread at a time: in every state that a run reaches, failed sends and
  destroyed endpoints included, at most one thread of either process is between \<^verbatim>\<open>mutex.wait()\<close> and \<^verbatim>\<open>mutex.post()\<close>.
\<close>

theorem mutual_exclusion:
  assumes "semaphore (pe_sem P) cnt" and "length mem = MaxMessageSize"
    and "exec (channel_step P) (new_channel (pe_sem P) mem n) es = Some c"
  shows "(\<forall>i j. sender_in_cs c i \<and> sender_in_cs c j \<longrightarrow> i = j) \<and>
         (\<forall>i. sender_in_cs c i \<longrightarrow> \<not> receiver_in_cs c)"
proof -
  have le: "weight s_mutex (ch_senders c) + r_mutex (ch_receiver c) \<le> 1"
    using chan_inv_reached [OF assms] by (simp add: chan_inv_def lock_inv_def)
  have "i = j" if "sender_in_cs c i" "sender_in_cs c j" for i j
    using weight_two [of i "ch_senders c" j s_mutex S_Idle] that le by (auto simp: sender_in_cs_def)
  moreover have "\<not> receiver_in_cs c" if "sender_in_cs c i" for i
    using weight_member [OF nth_mem, of i "ch_senders c" s_mutex] that le
    by (auto simp: sender_in_cs_def receiver_in_cs_def)
  ultimately show ?thesis by blast
qed

theorem mutual_exclusion_witness:
  "\<exists>c. exec (channel_step demo_peers) (new_channel nat_sem zeros 2) [WaitEmpty 0 (ping 7), LockSend 0] = Some c \<and>
       sender_in_cs c 0 \<and> (\<forall>i j. sender_in_cs c i \<and> sender_in_cs c j \<longrightarrow> i = j) \<and> \<not> receiver_in_cs c"
proof -
  obtain c where c: "exec (channel_step demo_peers) (new_channel nat_sem zeros 2) [WaitEmpty 0 (ping 7), LockSend 0] = Some c"
      "sender_in_cs c 0"
    by (simp add: channel_step_def send_wait_empty_def send_wait_mutex_def new_channel_def SharedBuffer_def
        nat_sem_def sender_at_def set_sender_def sender_in_cs_def)
  then show ?thesis
    using mutual_exclusion [of demo_peers "\<lambda>n. n" zeros 2 "[WaitEmpty 0 (ping 7), LockSend 0]" c]
      nat_sem.semaphore_axioms by auto
qed

text \<open>
  C11. Messages arrive once and in order: two processes with the same registered classes exchange messages whose slots are
  connected and whose handlers return. Whatever the interleaving of the sending threads with the receiver,
  as long as the receiving endpoint lives, the slots were called with the messages written, in the order
  they were written, each once, and at most the last one is still under way.
\<close>

theorem endpoint_delivers_in_order:
  assumes "semaphore (pe_sem P) cnt" and "length mem = MaxMessageSize"
    and run: "exec (channel_step P) (new_channel (pe_sem P) mem n) es = Some c"
    and alive: "ch_destructor c = D_None" "ch_posts c = 0"
    and same: "pe_recv P = pe_send P"
    and msgs: "\<And>m. m \<in> set (ch_msgs c) \<Longrightarrow> ipc_ok (pe_send P) m \<and>
       (\<forall>s. ipc_ser (pe_send P) m = Ok s \<longrightarrow> nul \<notin> set s) \<and>
       (\<exists>sl. pe_slots P (ipc_tid (pe_send P) m) = Some sl \<and> sl_rtti sl = im_rtti m \<and> sl_handler sl m = Ok ())"
  shows "\<exists>k. ch_report c = map (\<lambda>m. Delivered (ipc_tid (pe_send P) m) m) (take k (ch_msgs c)) \<and>
           length (ch_msgs c) \<le> k + 1"
proof -
  let ?D = "\<lambda>m. Delivered (ipc_tid (pe_send P) m) m"
  have data: "data_inv cnt c" using chan_inv_reached [OF assms(1,2) run] by (simp add: chan_inv_def)
  have hist: "hist_inv P c" using history.exec_keeps [OF hist_inv_new run] .
  obtain rest where rest: "ch_sent c = ch_received c @ rest" "length rest \<le> 1"
    using data alive by (auto simp: data_inv_def)
  let ?k = "length (ch_received c)"
  have len: "length (ch_msgs c) = length (ch_sent c)" "length (ch_report c) = ?k"
    using hist by (auto simp: hist_inv_def dest: list_all2_lengthD)
  have one: "ch_report c ! i = ?D (ch_msgs c ! i)" if i: "i < ?k" for i
  proof -
    have im: "i < length (ch_msgs c)" using i len rest by simp
    then have m: "ch_msgs c ! i \<in> set (ch_msgs c)" by simp
    obtain json where json: "ipc_ser (pe_send P) (ch_msgs c ! i) = Ok json" "ch_sent c ! i = c_str json"
      using hist im by (auto simp: hist_inv_def list_all2_conv_all_nth)
    have "ch_received c ! i = json" using i rest json msgs [OF m] by (simp add: nth_append c_str_no_nul)
    then have "receive_message (pe_recv P) (pe_slots P) (pe_exc P) json = Ok (ch_report c ! i)"
      using hist i by (auto simp: hist_inv_def list_all2_conv_all_nth)
    then show ?thesis
      using msgs [OF m] receive_delivers [of "pe_recv P" json _ _ "pe_slots P"] ipc.con_ser [OF _ json(1)] same
      by fastforce
  qed
  have "ch_report c = map ?D (take ?k (ch_msgs c))"
    using one len rest by (intro nth_equalityI) auto
  then show ?thesis using len rest by (intro exI [of _ ?k]) simp
qed

theorem endpoint_delivers_in_order_witness:
  "\<exists>c. exec (channel_step demo_peers) (new_channel nat_sem zeros 1)
         [WaitEmpty 0 (ping 7), LockSend 0, Write 0, UnlockSend 0, PostFull 0, WaitFull, LockReceive, Handle] = Some c \<and>
       ch_msgs c = [ping 7] \<and> ch_report c = [Delivered ''ping'' (ping 7)]"
proof -
  let ?es = "[WaitEmpty 0 (ping 7), LockSend 0, Write 0, UnlockSend 0, PostFull 0, WaitFull, LockReceive, Handle]"
  obtain s b where w: "write_message demo_env (ping 7) zeros = Ok (s, b)" "c_str b = s"
      "ipc_ser demo_env (ping 7) = Ok s" "nul \<notin> set s"
    using demo_write by blast
  have r: "receive_message demo_env (pe_slots demo_peers) (pe_exc demo_peers) s = Ok (Delivered ''ping'' (ping 7))"
    by (rule receive_delivers [OF ipc.con_ser [OF demo_ok w(3), unfolded demo_tid],
          where sl = "\<lparr>sl_rtti = ''4Ping'', sl_handler = (\<lambda>_. Ok ())\<rparr>"]) (simp_all add: demo_peers_def ping_def)
  obtain c where c: "exec (channel_step demo_peers) (new_channel nat_sem zeros 1) ?es = Some c"
      "ch_msgs c = [ping 7]" "ch_destructor c = D_None" "ch_posts c = 0" "length (ch_report c) = 1"
    using w r
    by (simp add: channel_step_def channel_ops new_channel_def SharedBuffer_def nat_sem_def
        sender_at_def set_sender_def Let_def)
  have "\<exists>k. ch_report c = map (\<lambda>m. Delivered (ipc_tid (pe_send demo_peers) m) m) (take k (ch_msgs c)) \<and>
           length (ch_msgs c) \<le> k + 1"
    by (rule endpoint_delivers_in_order [of demo_peers "\<lambda>n. n" zeros 1 ?es])
      (use c w nat_sem.semaphore_axioms demo_ok demo_tid in \<open>simp_all add: demo_peers_def ping_def\<close>)
  then obtain k where "ch_report c = map (\<lambda>m. Delivered (ipc_tid demo_env m) m) (take k [ping 7])"
    using c(2) by auto
  then have "ch_report c = [Delivered ''ping'' (ping 7)]" using c(5) by (cases k) (simp_all add: demo_tid)
  then show ?thesis using c by blast
qed

text \<open>
  C40. The text of a message never overruns the shared array: \<^verbatim>\<open>send\<close> copies texts of at most 4095 bytes with
  their terminating zero and leaves the array its size, and refuses every longer text with a
  \<^verbatim>\<open>SharedMemoryException\<close>.
\<close>

theorem send_bounds:
  assumes "length buf = MaxMessageSize"
  shows "case write_message V m buf of
           Ok (s, b) \<Rightarrow> \<exists>json. ipc_ser V m = Ok json \<and> length json < 4096 \<and> s = c_str json \<and>
                        c_str b = s \<and> length b = 4096
         | Throw e \<Rightarrow> ipc_ser V m = Throw e \<or>
             (\<exists>json x. ipc_ser V m = Ok json \<and> 4096 \<le> length json \<and> e = CoreExc x \<and> exc_cls x = SharedMemoryException)
         | Undef u \<Rightarrow> ipc_ser V m = Undef u
         | Terminate \<Rightarrow> ipc_ser V m = Terminate"
proof (cases "ipc_ser V m")
  case (Ok json)
  show ?thesis
  proof (cases "length json < length buf")
    case True
    then obtain b where "write_message V m buf = Ok (c_str json, b)" using write_fits [OF Ok] by blast
    then show ?thesis using write_message_Ok [of V m buf "c_str json" b] assms Ok True
      by (auto simp: MaxMessageSize_def)
  next
    case False
    then show ?thesis using assms Ok by (simp add: write_message_def outcome_simps MaxMessageSize_def)
  qed
qed (simp_all add: write_message_def)

theorem send_bounds_witness:
  "case write_message demo_env (ping 7) zeros of
     Ok (s, b) \<Rightarrow> \<exists>json. ipc_ser demo_env (ping 7) = Ok json \<and> length json < 4096 \<and> s = c_str json \<and>
                  c_str b = s \<and> length b = 4096
   | Throw e \<Rightarrow> ipc_ser demo_env (ping 7) = Throw e \<or>
       (\<exists>json x. ipc_ser demo_env (ping 7) = Ok json \<and> 4096 \<le> length json \<and> e = CoreExc x \<and>
          exc_cls x = SharedMemoryException)
   | Undef u \<Rightarrow> ipc_ser demo_env (ping 7) = Undef u
   | Terminate \<Rightarrow> ipc_ser demo_env (ping 7) = Terminate"
  by (rule send_bounds) simp

text \<open>
  C14. Text from the peer cannot end the process: when the classes of the receiver bind no time members, its slots were
  registered through \<^verbatim>\<open>registerSlot\<close>, its handlers throw at most recoverable exceptions and its exception handler
  returns, one round of the receive thread returns whatever the buffer holds. In particular the cast to
  the slot's message type never fails.
\<close>

theorem receive_survives:
  assumes J: "json_library (ie_json W)"
    and F: "exec (register_event E) new_factory regs = Some (ie_factory W)"
    and plain: "\<forall>(c, i) \<in> set regs. times_tpl (ic_members c) = []"
    and slots: "\<And>i sl. slots i = Some sl \<Longrightarrow> m_rtti_map (ie_factory W) (sl_rtti sl) = Some i \<and>
       (\<forall>m. sl_handler sl m = Ok () \<or>
          (\<exists>e. sl_handler sl m = Throw (CoreExc e) \<and> is_a (exc_cls e) RecoverableException))"
    and eh: "\<And>h e. eh = Some h \<Longrightarrow> h e = Ok ()"
  shows "\<exists>r. receive_message W slots eh txt = Ok r \<and>
           (\<forall>e. r = Reported e \<longrightarrow> is_a (exc_cls e) RecoverableException)"
proof -
  have inv: "factory_inv (ie_factory W)" using registry.exec_keeps [OF factory_inv_new F] .
  have pl: "plain_classes (ie_factory W)"
    using plain_classes_exec [OF _ plain F] by (simp add: plain_classes_def new_factory_def)
  have caught: "\<exists>r. handle_exception eh (CoreExc e) = Ok r \<and> (\<forall>x. r = Reported x \<longrightarrow> x = e)" for e
  proof (cases eh)
    case (Some h)
    then show ?thesis using eh [OF Some, of e] by simp
  qed simp
  have thrown: "\<exists>r. no_except (try_catch (Throw (CoreExc e)) catches_recoverable (handle_exception eh)) = Ok r \<and>
      (\<forall>x. r = Reported x \<longrightarrow> is_a (exc_cls x) RecoverableException)" if "is_a (exc_cls e) RecoverableException" for e
    using caught [of e] that by auto
  consider i c m where "ipc_con W txt = Ok (i, m)" "m_ctors (ie_factory W) i = Some c" "im_rtti m = ic_rtti c"
    | e where "ipc_con W txt = Throw (CoreExc e)" "exc_cls e = DataFormatException"
    using construct_outcome [OF J pl, of "ie_ex W" "ie_throw W" "txt"] unfolding ipc_con_def by blast
  then show ?thesis
  proof cases
    case (1 i c m)
    show ?thesis
    proof (cases "slots i")
      case None
      let ?e = "site_exception (ie_throw W) DataFormatException
          \<lparr>st_file = ''src/ipc/endpoint.cpp'', st_line = 229, st_function = ''M_receiveThread''\<rparr>
          (''IPC message type `'' @ i @ ''`is not connected to any slot'')"
      from None show ?thesis
        using 1 thrown [of ?e] by (simp add: receive_message_def outcome_simps is_a_def)
    next
      case (Some sl)
      then have same: "im_rtti m = sl_rtti sl"
        using slots [OF Some] factory_inv_ctor [OF inv] 1 by fastforce
      consider "sl_handler sl m = Ok ()"
        | e where "sl_handler sl m = Throw (CoreExc e)" "is_a (exc_cls e) RecoverableException"
        using slots [OF Some] by blast
      then show ?thesis
      proof cases
        case (2 e)
        then show ?thesis using same Some 1(1) thrown [of e] by (simp add: receive_message_def call_slot_def)
      qed (use same Some 1(1) in \<open>simp add: receive_message_def call_slot_def\<close>)
    qed
  next
    case (2 e)
    then show ?thesis using thrown [of e] by (simp add: receive_message_def is_a_def)
  qed
qed

theorem receive_survives_witness:
  "\<exists>r. receive_message demo_env (pe_slots demo_peers) (pe_exc demo_peers) ''not json'' = Ok r"
proof -
  have F: "exec (register_event no_throw_env) new_factory [(ping_class, ''ping'')] = Some (ie_factory demo_env)"
    by (simp add: register_event_def registerMessageType_def new_factory_def demo_env_def ping_class_def)
  have J: "json_library (ie_json demo_env)" using ref.json_library_axioms by (simp add: demo_env_def)
  have "\<exists>r. receive_message demo_env (pe_slots demo_peers) (pe_exc demo_peers) ''not json'' = Ok r \<and>
           (\<forall>e. r = Reported e \<longrightarrow> is_a (exc_cls e) RecoverableException)"
    by (rule receive_survives [OF J F])
      (auto simp: ping_class_def demo_peers_def demo_env_def split: if_splits)
  then show ?thesis by blast
qed

text \<open>
  C13. The channel does not get stuck by itself: from every state reached without a failed send, a destroyed
  endpoint or a terminated receiver, if the receiving round returns on every text, some continuation hands
  everything written to the receiver.
\<close>

theorem channel_can_drain:
  assumes "semaphore (pe_sem P) cnt" and "length mem = MaxMessageSize"
    and "exec (channel_step P) (new_channel (pe_sem P) mem n) es = Some c"
    and "ch_destructor c = D_None" and "ch_posts c = 0" and "ch_errors c = []" and "\<not> ch_terminated c"
    and "\<And>s. \<exists>r. receive_message (pe_recv P) (pe_slots P) (pe_exc P) s = Ok r"
  shows "\<exists>fs d. exec (channel_step P) c fs = Some d \<and> ch_sent d = ch_sent c \<and> ch_received d = ch_sent c"
proof -
  have "lively cnt c" using chan_inv_reached [OF assms(1-3)] assms(4-7) by (simp add: lively_def)
  from semaphore.lively_drains [OF assms(1) refl this assms(8)] show ?thesis unfolding drains_def by metis
qed

theorem channel_can_drain_witness:
  "\<exists>c fs d. exec (channel_step (demo_peers\<lparr>pe_recv := demo_env\<lparr>ie_json := ref_json\<lparr>j_parse := \<lambda>_. Throw (JsonExc [])\<rparr>\<rparr>\<rparr>))
         (new_channel nat_sem zeros 1) [WaitEmpty 0 (ping 7), LockSend 0, Write 0] = Some c \<and>
       exec (channel_step (demo_peers\<lparr>pe_recv := demo_env\<lparr>ie_json := ref_json\<lparr>j_parse := \<lambda>_. Throw (JsonExc [])\<rparr>\<rparr>\<rparr>))
         c fs = Some d \<and> length (ch_sent c) = 1 \<and> ch_received d = ch_sent c"
proof -
  let ?W = "demo_env\<lparr>ie_json := ref_json\<lparr>j_parse := \<lambda>_. Throw (JsonExc [])\<rparr>\<rparr>"
  let ?P = "demo_peers\<lparr>pe_recv := ?W\<rparr>"
  obtain s b where w: "write_message demo_env (ping 7) zeros = Ok (s, b)" using demo_write by blast
  obtain c where c: "exec (channel_step ?P) (new_channel nat_sem zeros 1) [WaitEmpty 0 (ping 7), LockSend 0, Write 0] = Some c"
      "length (ch_sent c) = 1" "ch_destructor c = D_None" "ch_posts c = 0" "ch_errors c = []" "\<not> ch_terminated c"
    using w by (simp add: channel_step_def channel_ops new_channel_def SharedBuffer_def nat_sem_def
        sender_at_def set_sender_def Let_def)
  have "\<exists>fs d. exec (channel_step ?P) c fs = Some d \<and> ch_sent d = ch_sent c \<and> ch_received d = ch_sent c"
  proof (rule channel_can_drain [of ?P "\<lambda>n. n" zeros 1])
    show "semaphore (pe_sem ?P) (\<lambda>n. n)" using nat_sem.semaphore_axioms by simp
    have ps: "pe_sem ?P = nat_sem" by simp
    show "exec (channel_step ?P) (new_channel (pe_sem ?P) zeros 1) [WaitEmpty 0 (ping 7), LockSend 0, Write 0] = Some c"
      unfolding ps by (rule c(1))
    show "\<exists>r. receive_message (pe_recv ?P) (pe_slots ?P) (pe_exc ?P) s = Ok r" for s
      by (simp add: receive_message_def ipc_con_def construct_def demo_peers_def outcome_simps is_a_def)
  qed (use c in simp_all)
  then show ?thesis using c by blast
qed

end
