(* ===== verification/Ipc_Endpoint.thy ===== *)
theory Ipc_Endpoint
  imports Ipc_Channel
begin

text \<open>
  \<^verbatim>\<open>ipc::Endpoint\<close> as a whole (\<^verbatim>\<open>src/ipc/endpoint.cpp\<close>): construction in the two roles on named shared memory,
  destruction, and what becomes of a channel after a send that throws or a receiving endpoint that is
  destroyed. The shared memory objects of Boost.Interprocess are a parameter with the laws of names.
\<close>

section \<open>Named shared memory\<close>

text \<open>\<open>'w\<close> is the state of the operating system; an operation fails with the description of its exception.\<close>

record 'w shm_lib =
  sh_remove :: "string \<Rightarrow> 'w \<Rightarrow> 'w"
  sh_create :: "string \<Rightarrow> 'w \<Rightarrow> string + nat \<times> 'w"
  sh_open :: "string \<Rightarrow> 'w \<Rightarrow> string + nat"
  sh_truncate :: "nat \<Rightarrow> nat \<Rightarrow> 'w \<Rightarrow> string + 'w"
  sh_map :: "nat \<Rightarrow> 'w \<Rightarrow> string + unit"

text \<open>\<open>obj\<close> is the object a name stands for, \<open>used\<close> the objects that were ever made: a new one is none of them.\<close>

locale shared_memory =
  fixes M :: "'w shm_lib"
    and obj :: "'w \<Rightarrow> string \<Rightarrow> nat option"
    and used :: "'w \<Rightarrow> nat set"
  assumes obj_used: "obj w n = Some r \<Longrightarrow> r \<in> used w"
    and remove_obj: "obj (sh_remove M n w) = (obj w)(n := None)"
    and remove_used: "used (sh_remove M n w) = used w"
    and create_obj: "sh_create M n w = Inr (r, w') \<Longrightarrow> obj w' = (obj w)(n \<mapsto> r) \<and> r \<notin> used w"
    and create_used: "sh_create M n w = Inr (r, w') \<Longrightarrow> used w' = insert r (used w)"
    and create_only: "obj w n \<noteq> None \<Longrightarrow> \<exists>e. sh_create M n w = Inl e"
    and open_obj: "sh_open M n w = Inr r \<Longrightarrow> obj w n = Some r"
    and truncate_obj: "sh_truncate M r k w = Inr w' \<Longrightarrow> obj w' = obj w \<and> used w' = used w"
begin

lemma create_after_remove: "sh_create M n (sh_remove M n w) = Inr (r, w') \<Longrightarrow> obj w n \<noteq> Some r"
  using create_obj [of n "sh_remove M n w" r w'] remove_used obj_used by auto

end

text \<open>
  A system whose only failures are names in use and names unknown: the list of the objects ever made, with
  the name each still has.
\<close>

type_synonym ref_os = "string option list"

definition os_obj :: "ref_os \<Rightarrow> string \<Rightarrow> nat option" where
  "os_obj w n = (let i = length (takeWhile (\<lambda>x. x \<noteq> Some n) w) in if i < length w then Some i else None)"

definition ref_shm :: "ref_os shm_lib" where
  "ref_shm =
     \<lparr>sh_remove = (\<lambda>n. map (\<lambda>x. if x = Some n then None else x)),
      sh_create = (\<lambda>n w. if os_obj w n \<noteq> None then Inl ''File exists'' else Inr (length w, w @ [Some n])),
      sh_open = (\<lambda>n w. case os_obj w n of None \<Rightarrow> Inl ''No such file'' | Some r \<Rightarrow> Inr r),
      sh_truncate = (\<lambda>r k w. Inr w), sh_map = (\<lambda>r w. Inr ())\<rparr>"

lemma os_obj_None: "os_obj w n = None \<longleftrightarrow> Some n \<notin> set w"
  by (induction w) (auto simp: os_obj_def Let_def split: if_splits)

lemma os_obj_snoc: "os_obj w n = None \<Longrightarrow> os_obj (w @ [Some n]) = (os_obj w)(n \<mapsto> length w)"
proof
  fix k
  assume "os_obj w n = None"
  then have "Some n \<notin> set w" by (simp add: os_obj_None)
  then show "os_obj (w @ [Some n]) k = ((os_obj w)(n \<mapsto> length w)) k"
    by (induction w) (auto simp: os_obj_def Let_def split: if_splits)
qed

lemma os_obj_remove: "os_obj (map (\<lambda>x. if x = Some n then None else x) w) = (os_obj w)(n := None)"
proof
  fix k
  show "os_obj (map (\<lambda>x. if x = Some n then None else x) w) k = ((os_obj w)(n := None)) k"
    by (induction w) (auto simp: os_obj_def Let_def split: if_splits)
qed

interpretation ref_shm: shared_memory ref_shm os_obj "\<lambda>w. {..<length w}"
proof
  show "r \<in> {..<length w}" if "os_obj w n = Some r" for w n r
    using that by (auto simp: os_obj_def Let_def split: if_splits)
  show "sh_create ref_shm n w = Inr (r, w') \<Longrightarrow> os_obj w' = (os_obj w)(n \<mapsto> r) \<and> r \<notin> {..<length w}" for n w r w'
    by (auto simp: ref_shm_def os_obj_snoc split: if_splits)
qed (auto simp: ref_shm_def os_obj_remove split: if_splits option.splits)

section \<open>Construction\<close>

datatype role = Server | Client

text \<open>\<^verbatim>\<open>SharedData\<close>: the two buffers, written by the server and by the client.\<close>

record 's shared_data =
  sd_buffer0 :: "'s shared_buffer"
  sd_buffer1 :: "'s shared_buffer"

text \<open>\<open>ep_send\<close> and \<open>ep_recv\<close> are the index in \<^verbatim>\<open>buffers[]\<close> of \<^verbatim>\<open>send_buf\<close> and \<^verbatim>\<open>recv_buf\<close>.\<close>

record endpoint =
  ep_role :: role
  ep_name :: string
  ep_region :: nat
  ep_send :: nat
  ep_recv :: nat

text \<open>The system and the shared data constructed in each object.\<close>

record ('w, 's) ipc_world =
  iw_os :: 'w
  iw_mem :: "nat \<rightharpoonup> 's shared_data"

abbreviation endpoint_cpp :: string where
  "endpoint_cpp \<equiv> ''src/ipc/endpoint.cpp''"

text \<open>
  The constructor: what the world is afterwards, and the endpoint or the exception. \<open>sz\<close> is
  \<^verbatim>\<open>sizeof(SharedData)\<close>, \<open>page\<close> what the new memory contains.
\<close>

definition Endpoint ::
  "'w shm_lib \<Rightarrow> 's sem_lib \<Rightarrow> throw_env \<Rightarrow> nat \<Rightarrow> string \<Rightarrow> role \<Rightarrow> string \<Rightarrow> ('w, 's) ipc_world \<Rightarrow>
   ('w, 's) ipc_world \<times> endpoint res" where
  "Endpoint M L E sz page role name W =
     (case role of
        Server \<Rightarrow>
          (let W = W\<lparr>iw_os := sh_remove M name (iw_os W)\<rparr>;
               failed = (\<lambda>W why. (W, ipc_throw E SharedMemoryException endpoint_cpp 97 ''Endpoint''
                                  [''unable to create IPC endpoint `'', name, ''` : '', why]))
           in case sh_create M name (iw_os W) of
                Inl why \<Rightarrow> failed W why
              | Inr (r, w) \<Rightarrow>
                  (let W = W\<lparr>iw_os := w\<rparr> in
                   case sh_truncate M r (2 * sz) (iw_os W) of
                     Inl why \<Rightarrow> failed W why
                   | Inr w \<Rightarrow>
                       (let W = W\<lparr>iw_os := w\<rparr> in
                        case sh_map M r (iw_os W) of
                          Inl why \<Rightarrow> failed W why
                        | Inr _ \<Rightarrow>
                            (W\<lparr>iw_mem := (iw_mem W)(r \<mapsto>
                                 \<lparr>sd_buffer0 = SharedBuffer L page, sd_buffer1 = SharedBuffer L page\<rparr>)\<rparr>,
                             Ok \<lparr>ep_role = Server, ep_name = name, ep_region = r, ep_send = 0, ep_recv = 1\<rparr>))))
      | Client \<Rightarrow>
          (let failed = (\<lambda>why. (W, ipc_throw E SharedMemoryException endpoint_cpp 125 ''Endpoint''
                                  [''unable to open IPC endpoint `'', name, ''` : '', why]))
           in case sh_open M name (iw_os W) of
                Inl why \<Rightarrow> failed why
              | Inr r \<Rightarrow>
                  (case sh_map M r (iw_os W) of
                     Inl why \<Rightarrow> failed why
                   | Inr _ \<Rightarrow> (W, Ok \<lparr>ep_role = Client, ep_name = name, ep_region = r, ep_send = 1, ep_recv = 0\<rparr>))))"

text \<open>
  The last part of the destructor, after the receive thread was joined: a server destroys the data and
  removes the name, whatever object it stands for by then.
\<close>

definition Endpoint_release :: "'w shm_lib \<Rightarrow> endpoint \<Rightarrow> ('w, 's) ipc_world \<Rightarrow> ('w, 's) ipc_world" where
  "Endpoint_release M ep W =
     (if ep_role ep = Server then
        W\<lparr>iw_mem := (iw_mem W)(ep_region ep := None), iw_os := sh_remove M (ep_name ep) (iw_os W)\<rparr>
      else W)"

text \<open>The parts of the endpoint that drive its two channels: where it sends and where it receives.\<close>

definition buffer_at :: "('w, 's) ipc_world \<Rightarrow> nat \<Rightarrow> nat \<Rightarrow> 's shared_buffer option" where
  "buffer_at W r i = map_option (\<lambda>d. if i = 0 then sd_buffer0 d else sd_buffer1 d) (iw_mem W r)"

context shared_memory
begin

lemma server_made:
  assumes "Endpoint M L E sz page Server n W = (W', Ok ep)"
  shows "obj (iw_os W') = (obj (iw_os W))(n \<mapsto> ep_region ep)" and "ep_region ep \<notin> used (iw_os W)"
    and "iw_mem W' = (iw_mem W)(ep_region ep \<mapsto> \<lparr>sd_buffer0 = SharedBuffer L page, sd_buffer1 = SharedBuffer L page\<rparr>)"
    and "ep = \<lparr>ep_role = Server, ep_name = n, ep_region = ep_region ep, ep_send = 0, ep_recv = 1\<rparr>"
proof -
  obtain r w w' where c: "sh_create M n (sh_remove M n (iw_os W)) = Inr (r, w)" "sh_truncate M r (2 * sz) w = Inr w'"
      and W': "W' = W\<lparr>iw_os := w', iw_mem := (iw_mem W)(r \<mapsto> \<lparr>sd_buffer0 = SharedBuffer L page, sd_buffer1 = SharedBuffer L page\<rparr>)\<rparr>"
      and ep: "ep = \<lparr>ep_role = Server, ep_name = n, ep_region = r, ep_send = 0, ep_recv = 1\<rparr>"
    using assms by (auto simp: Endpoint_def Let_def outcome_simps split: sum.splits prod.splits)
  show "obj (iw_os W') = (obj (iw_os W))(n \<mapsto> ep_region ep)"
    using create_obj [OF c(1)] truncate_obj [OF c(2)] W' ep by (simp add: remove_obj)
  show "ep_region ep \<notin> used (iw_os W)" using create_obj [OF c(1)] ep by (simp add: remove_used)
  show "iw_mem W' = (iw_mem W)(ep_region ep \<mapsto> \<lparr>sd_buffer0 = SharedBuffer L page, sd_buffer1 = SharedBuffer L page\<rparr>)"
    using W' ep by simp
  show "ep = \<lparr>ep_role = Server, ep_name = n, ep_region = ep_region ep, ep_send = 0, ep_recv = 1\<rparr>"
    using ep by simp
qed

lemma client_made:
  assumes "Endpoint M L E sz page Client n W = (W', Ok ep)"
  shows "W' = W" and "obj (iw_os W) n = Some (ep_region ep)"
    and "ep = \<lparr>ep_role = Client, ep_name = n, ep_region = ep_region ep, ep_send = 1, ep_recv = 0\<rparr>"
  using assms by (auto simp: Endpoint_def Let_def outcome_simps dest: open_obj split: sum.splits)

end

section \<open>Properties\<close>

text \<open>
  Both ends of an endpoint agree on its buffers: a client opened after a server was made maps the server's
  memory, where both buffers are fresh, and each side receives where the other sends. The client does not
  change the world, so a second client gets the very same buffers as the first: nothing limits an endpoint
  to one client.
\<close>

theorem endpoint_pairing:
  assumes "shared_memory M obj used"
    and server: "Endpoint M L E sz page Server n W = (W1, Ok srv)"
    and client: "Endpoint M L E' sz' page' Client n W1 = (W2, Ok cl)"
  shows "ep_region cl = ep_region srv \<and> ep_send cl = ep_recv srv \<and> ep_recv cl = ep_send srv \<and>
         ep_send cl \<noteq> ep_recv cl \<and>
         buffer_at W2 (ep_region cl) (ep_send cl) = Some (SharedBuffer L page) \<and>
         buffer_at W2 (ep_region cl) (ep_recv cl) = Some (SharedBuffer L page) \<and>
         Endpoint M L E' sz' page' Client n W2 = (W2, Ok cl)"
proof -
  note s = shared_memory.server_made [OF assms(1) server]
  note c = shared_memory.client_made [OF assms(1) client]
  have "ep_region cl = ep_region srv" using s(1) c(2) by simp
  moreover have "ep_send cl = 1 \<and> ep_recv cl = 0" using c(3) by (metis endpoint.select_convs(4,5))
  moreover have "ep_send srv = 0 \<and> ep_recv srv = 1" using s(4) by (metis endpoint.select_convs(4,5))
  ultimately show ?thesis using s(3) c(1) client by (simp add: buffer_at_def)
qed

theorem endpoint_pairing_witness:
  "\<exists>W1 W2 srv cl. Endpoint ref_shm nat_sem no_throw_env 8192 zeros Server ''bus'' \<lparr>iw_os = [], iw_mem = Map.empty\<rparr> = (W1, Ok srv) \<and>
     Endpoint ref_shm nat_sem no_throw_env 8192 zeros Client ''bus'' W1 = (W2, Ok cl) \<and>
     ep_region cl = ep_region srv \<and> ep_send cl = ep_recv srv"
proof -
  obtain W1 srv where s: "Endpoint ref_shm nat_sem no_throw_env 8192 zeros Server ''bus'' \<lparr>iw_os = [], iw_mem = Map.empty\<rparr> = (W1, Ok srv)"
      "iw_os W1 = [Some ''bus'']"
    by (simp add: Endpoint_def ref_shm_def os_obj_def Let_def)
  obtain W2 cl where c: "Endpoint ref_shm nat_sem no_throw_env 8192 zeros Client ''bus'' W1 = (W2, Ok cl)"
    using s(2) by (simp add: Endpoint_def ref_shm_def os_obj_def Let_def)
  show ?thesis using endpoint_pairing [OF ref_shm.shared_memory_axioms s(1) c] s(1) c by blast
qed

text \<open>
  A second server takes the name over instead of being refused: whenever it is made, it has a new object, which
  clients find from then on, while the first server still uses its own. When the first server is destroyed
  after that, it removes the name of the second one, whose object no client can find any more.
\<close>

theorem server_takes_over:
  assumes "shared_memory M obj used"
    and first: "Endpoint M L E sz page Server n W = (W1, Ok a)"
    and second: "Endpoint M L E' sz page Server n W1 = (W2, Ok b)"
  shows "ep_region b \<noteq> ep_region a \<and> obj (iw_os W2) n = Some (ep_region b) \<and>
         (\<forall>i < 2. buffer_at W2 (ep_region a) i = buffer_at W1 (ep_region a) i) \<and>
         obj (iw_os (Endpoint_release M a W2)) n = None \<and>
         (\<forall>i. buffer_at (Endpoint_release M a W2) (ep_region b) i = Some (SharedBuffer L page))"
proof -
  note a = shared_memory.server_made [OF assms(1) first]
  note b = shared_memory.server_made [OF assms(1) second]
  have "ep_region a \<in> used (iw_os W1)" 
    by (rule shared_memory.obj_used [OF assms(1), of _ n]) (simp add: a(1))
  then have ne: "ep_region b \<noteq> ep_region a" using b(2) by metis
  have "ep_role a = Server \<and> ep_name a = n" using a(4) by (metis endpoint.select_convs(1,2))
  then have rel: "obj (iw_os (Endpoint_release M a W2)) n = None"
      "iw_mem (Endpoint_release M a W2) = (iw_mem W2)(ep_region a := None)"
    using shared_memory.remove_obj [OF assms(1)] by (simp_all add: Endpoint_release_def)
  show ?thesis using ne rel b(1,3) by (simp add: buffer_at_def)
qed

theorem server_takes_over_witness:
  "\<exists>W1 W2 a b. Endpoint ref_shm nat_sem no_throw_env 8192 zeros Server ''bus'' \<lparr>iw_os = [], iw_mem = Map.empty\<rparr> = (W1, Ok a) \<and>
     Endpoint ref_shm nat_sem no_throw_env 8192 zeros Server ''bus'' W1 = (W2, Ok b) \<and>
     ep_region b \<noteq> ep_region a \<and> os_obj (iw_os (Endpoint_release ref_shm a W2)) ''bus'' = None"
proof -
  obtain W1 a where a: "Endpoint ref_shm nat_sem no_throw_env 8192 zeros Server ''bus'' \<lparr>iw_os = [], iw_mem = Map.empty\<rparr> = (W1, Ok a)"
      "iw_os W1 = [Some ''bus'']"
    by (simp add: Endpoint_def ref_shm_def os_obj_def Let_def)
  obtain W2 b where b: "Endpoint ref_shm nat_sem no_throw_env 8192 zeros Server ''bus'' W1 = (W2, Ok b)"
    using a(2) by (simp add: Endpoint_def ref_shm_def os_obj_def Let_def)
  show ?thesis using server_takes_over [OF ref_shm.shared_memory_axioms a(1) b] a(1) b by blast
qed

text \<open>
  One failed send ends a direction for good: after an exception left \<^verbatim>\<open>send\<close> (a message too long or of a type
  that is not registered), in every continuation nothing more is written or received, every further \<^verbatim>\<open>send\<close>
  blocks, and so does the destructor of the receiving endpoint, whose thread cannot finish.
\<close>

theorem failed_send_is_final:
  assumes "semaphore (pe_sem P) cnt" and "length mem = MaxMessageSize"
    and "exec (channel_step P) (new_channel (pe_sem P) mem n) es = Some c"
    and "ch_errors c \<noteq> []" and "ch_posts c = 0" and "ch_destructor c = D_None"
    and more: "exec (channel_step P) c fs = Some d"
  shows "ch_sent d = ch_sent c \<and> ch_received d = ch_received c \<and>
         (\<forall>i m. send_wait_empty P i m d = None) \<and> ch_receiver d \<noteq> R_Done \<and> shutdown_join d = None"
proof -
  have "dead cnt c"
    using semaphore.dead_start [OF assms(1)] chan_inv_reached [OF assms(1-3)] assms(4-6) by blast
  note d = dead_exec [OF assms(1) this more]
  have "sl_wait (pe_sem P) (sb_empty (ch_buf d)) = None"
    using d semaphore.wait_zero [OF assms(1)] by (simp add: dead_def)
  then have "send_wait_empty P i m d = None" for i m by (simp add: send_wait_empty_def)
  moreover have "ch_receiver d \<noteq> R_Done" using d by (auto simp: dead_def)
  ultimately show ?thesis using d by (simp add: shutdown_join_def)
qed

definition stray :: ipc_message where
  "stray = \<lparr>im_rtti = ''5Stray'', im_members = []\<rparr>"

lemma stray_throws: "\<exists>e. write_message demo_env stray zeros = Throw e"
  by (simp add: write_message_def ipc_ser_def ipc_serialize_def demo_env_def stray_def outcome_simps)

theorem failed_send_is_final_witness:
  "\<exists>c d. exec (channel_step demo_peers) (new_channel nat_sem zeros 1) [WaitEmpty 0 stray, LockSend 0, Write 0] = Some c \<and>
     ch_errors c \<noteq> [] \<and>
     exec (channel_step demo_peers) c [ShutdownFlag, ShutdownPost, WaitFull] = Some d \<and>
     send_wait_empty demo_peers 0 (ping 7) d = None \<and> shutdown_join d = None"
proof -
  obtain e where w: "write_message demo_env stray zeros = Throw e" using stray_throws by blast
  obtain c where c: "exec (channel_step demo_peers) (new_channel nat_sem zeros 1) [WaitEmpty 0 stray, LockSend 0, Write 0] = Some c"
      "ch_errors c \<noteq> []" "ch_posts c = 0" "ch_destructor c = D_None"
      "\<exists>d. exec (channel_step demo_peers) c [ShutdownFlag, ShutdownPost, WaitFull] = Some d"
    using w by (simp add: channel_step_def channel_ops new_channel_def SharedBuffer_def nat_sem_def
        sender_at_def set_sender_def)
  then obtain d where d: "exec (channel_step demo_peers) c [ShutdownFlag, ShutdownPost, WaitFull] = Some d" by blast
  have run: "exec (channel_step demo_peers) (new_channel (pe_sem demo_peers) zeros 1) [WaitEmpty 0 stray, LockSend 0, Write 0] = Some c"
    unfolding demo_peers_sel by (rule c(1))
  have sem: "semaphore (pe_sem demo_peers) (\<lambda>n. n)" using nat_sem.semaphore_axioms by simp
  show ?thesis
    using failed_send_is_final [OF sem zeros_length run c(2,3,4) d] c(1,2) d by blast
qed

text \<open>
  Destroying a receiving endpoint frees the buffer twice: its thread posts \<^verbatim>\<open>sem_empty\<close> for the wake-up of the
  destructor as well. After the next endpoint took its place, two sends go through before anything is
  read, the second overwrites the first, and the receiver is handed the second message twice.
\<close>

theorem destructor_frees_twice:
  assumes "pe_sem P = nat_sem" and "length mem = MaxMessageSize"
    and a: "ipc_ser (pe_send P) a = Ok s" "length s < 4096"
    and b: "ipc_ser (pe_send P) b = Ok t" "length t < 4096"
    and r: "receive_message (pe_recv P) (pe_slots P) (pe_exc P) (c_str t) = Ok r"
  shows "\<exists>c. exec (channel_step P) (new_channel nat_sem mem 1)
           ([ShutdownFlag, ShutdownPost, WaitFull, LockReceive, Handle, UnlockReceive, PostEmpty, Join, Reopen] @
            [WaitEmpty 0 a, LockSend 0, Write 0, UnlockSend 0, PostFull 0] @
            [WaitEmpty 0 b, LockSend 0, Write 0, UnlockSend 0, PostFull 0] @
            [WaitFull, LockReceive, Handle, UnlockReceive, PostEmpty, WaitFull, LockReceive, Handle]) = Some c \<and>
          ch_msgs c = [a, b] \<and> ch_received c = [c_str t, c_str t] \<and> ch_report c = [r, r] \<and> ch_errors c = []"
proof -
  obtain b1 where b1: "write_message (pe_send P) a mem = Ok (c_str s, b1)"
    using write_fits [OF a(1), of mem] a(2) assms(2) by (auto simp: MaxMessageSize_def)
  then have "length b1 = 4096" using write_message_Ok [OF b1] assms(2) by (simp add: MaxMessageSize_def)
  then obtain b2 where b2: "write_message (pe_send P) b b1 = Ok (c_str t, b2)"
    using write_fits [OF b(1), of b1] b(2) by auto
  have "c_str b2 = c_str t" using write_message_Ok [OF b2] by blast
  then show ?thesis
    using b1 b2 r assms(1)
    by (simp add: channel_step_def channel_ops new_channel_def SharedBuffer_def nat_sem_def
        sender_at_def set_sender_def Let_def)
qed

theorem destructor_frees_twice_witness:
  "\<exists>c. ch_msgs c = [ping 7, ping 7] \<and> ch_errors c = [] \<and>
     exec (channel_step demo_peers) (new_channel nat_sem zeros 1)
       ([ShutdownFlag, ShutdownPost, WaitFull, LockReceive, Handle, UnlockReceive, PostEmpty, Join, Reopen] @
        [WaitEmpty 0 (ping 7), LockSend 0, Write 0, UnlockSend 0, PostFull 0] @
        [WaitEmpty 0 (ping 7), LockSend 0, Write 0, UnlockSend 0, PostFull 0] @
        [WaitFull, LockReceive, Handle, UnlockReceive, PostEmpty, WaitFull, LockReceive, Handle]) = Some c"
proof -
  obtain s where s: "ipc_ser demo_env (ping 7) = Ok s" "length s < 1000" "nul \<notin> set s" using demo_text by blast
  have r: "receive_message (pe_recv demo_peers) (pe_slots demo_peers) (pe_exc demo_peers) (c_str s) =
      Ok (Delivered ''ping'' (ping 7))"
    unfolding demo_peers_sel c_str_no_nul [OF s(3)]
    by (rule receive_delivers [OF ipc.con_ser [OF demo_ok s(1), unfolded demo_tid],
          where sl = "\<lparr>sl_rtti = ''4Ping'', sl_handler = (\<lambda>_. Ok ())\<rparr>"]) (simp_all add: demo_peers_def ping_def)
  have ser: "ipc_ser (pe_send demo_peers) (ping 7) = Ok s" using s by simp
  have len: "length s < 4096" using s by simp
  show ?thesis
    using destructor_frees_twice [OF _ zeros_length ser len ser len r] by auto
qed

end
