(* ===== verification/Ipc_Actions.thy ===== *)
theory Ipc_Actions
  imports Ipc_Channel Hex_Interface
begin

text \<open>
  Asynchronous actions over an endpoint: \<^verbatim>\<open>inc/lesf/ipc/action_server.h\<close>, \<^verbatim>\<open>src/ipc/action_server.cpp\<close> and the classes
  that the \<^verbatim>\<open>ACTION\<close> macro of \<^verbatim>\<open>inc/lesf/ipc/user_actions.h\<close> generates. An action is its name with the members
  of its parameters and of its response; the values of the two structs are templates with those members.
  Random identifiers and the user's handlers are parameters.
\<close>

section \<open>Either\<close>

record ('u, 'v) either =
  m_u :: "'u option"
  m_v :: "'v option"

definition Either_u :: "'u \<Rightarrow> ('u, 'v) either" where
  "Either_u u = \<lparr>m_u = Some u, m_v = None\<rparr>"

definition Either_v :: "'v \<Rightarrow> ('u, 'v) either" where
  "Either_v v = \<lparr>m_u = None, m_v = Some v\<rparr>"

text \<open>\<^verbatim>\<open>is<T>()\<close> and \<^verbatim>\<open>get<T>()\<close> choose an overload by the type that is asked for; any other type than
  the two gives a null reference. A reference to a \<open>'u\<close> is on the left, one to a \<open>'v\<close> on the right.\<close>

datatype either_type = Type_U | Type_V | Type_other

fun M_is :: "either_type \<Rightarrow> ('u, 'v) either \<Rightarrow> bool" where
  "M_is Type_other r = False"
| "M_is Type_U r = (m_u r \<noteq> None)"
| "M_is Type_V r = (m_v r \<noteq> None)"

fun M_get :: "either_type \<Rightarrow> ('u, 'v) either \<Rightarrow> ('u + 'v) res" where
  "M_get Type_other r = Undef Null_Deref"
| "M_get Type_U r = obind (deref (m_u r)) (\<lambda>u. Ok (Inl u))"
| "M_get Type_V r = obind (deref (m_v r)) (\<lambda>v. Ok (Inr v))"

record action_error =
  er_set :: bool
  er_message :: string
  er_code :: cint

definition Error_default :: action_error where
  "Error_default = \<lparr>er_set = False, er_message = [], er_code = 0\<rparr>"

definition Error_make :: "string \<Rightarrow> cint \<Rightarrow> action_error" where
  "Error_make msg code = \<lparr>er_set = True, er_message = msg, er_code = code\<rparr>"

type_synonym response_or_error = "(action_error, tpl) either"

definition isError :: "response_or_error \<Rightarrow> bool" where
  "isError r \<longleftrightarrow> M_is Type_U r"

definition isResponse :: "response_or_error \<Rightarrow> bool" where
  "isResponse r \<longleftrightarrow> M_is Type_V r"

text \<open>Reading the side that is not there goes through a null pointer.\<close>

definition getError :: "response_or_error \<Rightarrow> action_error res" where
  "getError r = obind (M_get Type_U r) (\<lambda>x. case x of Inl e \<Rightarrow> Ok e | Inr _ \<Rightarrow> Undef Null_Deref)"

definition getResponse :: "response_or_error \<Rightarrow> tpl res" where
  "getResponse r = obind (M_get Type_V r) (\<lambda>x. case x of Inr v \<Rightarrow> Ok v | Inl _ \<Rightarrow> Undef Null_Deref)"

lemma getError_deref: "getError r = deref (m_u r)" and getResponse_deref: "getResponse r = deref (m_v r)"
  by (simp_all add: getError_def getResponse_def deref_def split: option.split)

lemma either_simps [simp]:
  "isError (Either_u e)" "\<not> isError (Either_v v)" "isResponse (Either_v v)" "\<not> isResponse (Either_u e)"
  "getError (Either_u e) = Ok e" "getResponse (Either_v v) = Ok v"
  by (simp_all add: Either_u_def Either_v_def isError_def isResponse_def getError_deref getResponse_deref)

section \<open>The message classes of an action\<close>

text \<open>\<open>ac_file\<close> and \<open>ac_line\<close> say where \<^verbatim>\<open>ACTION\<close> is used: what the class throws was thrown there.\<close>

record action =
  ac_name :: string
  ac_file :: string
  ac_line :: cint
  ac_action_type :: string
  ac_response_type :: string
  ac_params :: tpl
  ac_response :: tpl

text \<open>\<^verbatim>\<open>REFLIST\<close>: a member of the struct is bound under the text of the expression, \<^verbatim>\<open>data.x\<close>.\<close>

definition reflist :: "tpl \<Rightarrow> tpl" where
  "reflist = map (\<lambda>(k, e). (''data.'' @ k, e))"

definition unreflist :: "tpl \<Rightarrow> tpl" where
  "unreflist = map (\<lambda>(k, e). (drop 5 k, e))"

definition ActionData :: "action \<Rightarrow> string \<Rightarrow> tpl \<Rightarrow> ipc_message" where
  "ActionData A ident params =
     \<lparr>im_rtti = ac_action_type A, im_members = (''id'', EStr ident) # reflist params\<rparr>"

definition response_members :: "string \<Rightarrow> action_error \<Rightarrow> tpl \<Rightarrow> tpl" where
  "response_members ident err data =
     [(''id'', EStr ident), (''error.set'', EBool (er_set err)), (''error.message'', EStr (er_message err)),
      (''error.code'', EInt (er_code err))] @ reflist data"

text \<open>The two constructors: with a response the error is default constructed, with an error the data is \<open>zero\<close>.\<close>

definition ResponseData_ok :: "action \<Rightarrow> string \<Rightarrow> tpl \<Rightarrow> ipc_message" where
  "ResponseData_ok A ident data =
     \<lparr>im_rtti = ac_response_type A, im_members = response_members ident Error_default data\<rparr>"

definition ResponseData_error :: "action \<Rightarrow> string \<Rightarrow> action_error \<Rightarrow> ipc_message" where
  "ResponseData_error A ident err =
     \<lparr>im_rtti = ac_response_type A, im_members = response_members ident err (ac_response A)\<rparr>"

definition action_data_class :: "action \<Rightarrow> ipc_class" where
  "action_data_class A = \<lparr>ic_rtti = ac_action_type A, ic_members = (''id'', EStr []) # reflist (ac_params A)\<rparr>"

definition response_data_class :: "action \<Rightarrow> ipc_class" where
  "response_data_class A =
     \<lparr>ic_rtti = ac_response_type A, ic_members = response_members [] Error_default (ac_response A)\<rparr>"

text \<open>The constructor of the static \<^verbatim>\<open>Internals\<close> registers both classes.\<close>

definition Internals :: "throw_env \<Rightarrow> action \<Rightarrow> factory \<Rightarrow> factory res" where
  "Internals E A F =
     obind (registerMessageType E (action_data_class A) (ac_name A @ ''_action'') F)
       (registerMessageType E (response_data_class A) (ac_name A @ ''_response''))"

text \<open>The fields of a received message object.\<close>

definition msg_id :: "ipc_message \<Rightarrow> string" where
  "msg_id m = tpl_str (im_members m) ''id'' []"

definition action_params :: "ipc_message \<Rightarrow> tpl" where
  "action_params m = unreflist (drop 1 (im_members m))"

definition response_error :: "ipc_message \<Rightarrow> action_error" where
  "response_error m =
     \<lparr>er_set = tpl_bool (im_members m) ''error.set'' False, er_message = tpl_str (im_members m) ''error.message'' [],
      er_code = tpl_int (im_members m) ''error.code'' 0\<rparr>"

definition response_data :: "ipc_message \<Rightarrow> tpl" where
  "response_data m = unreflist (drop 4 (im_members m))"

section \<open>The serving side\<close>

text \<open>
  \<^verbatim>\<open>registerAction\<close>: the slot starts a thread that calls the handler and sends the result back. The result
  is the message to send. What the handler throws leaves the thread; a handler that always returns is \<open>returns h\<close>.
\<close>

definition serve_action ::
  "action \<Rightarrow> (tpl \<Rightarrow> string \<Rightarrow> response_or_error res) \<Rightarrow> ipc_message \<Rightarrow> ipc_message res" where
  "serve_action A handler act =
     obind (handler (action_params act) (msg_id act)) (\<lambda>user_res.
       if isError user_res then obind (getError user_res) (\<lambda>e. Ok (ResponseData_error A (msg_id act) e))
       else obind (getResponse user_res) (\<lambda>r. Ok (ResponseData_ok A (msg_id act) r)))"

definition returns :: "(tpl \<Rightarrow> string \<Rightarrow> response_or_error) \<Rightarrow> tpl \<Rightarrow> string \<Rightarrow> response_or_error res" where
  "returns h p ident = Ok (h p ident)"

lemma serve_returns:
  "serve_action A (returns h) act =
     (if isError (h (action_params act) (msg_id act))
      then obind (getError (h (action_params act) (msg_id act))) (\<lambda>e. Ok (ResponseData_error A (msg_id act) e))
      else obind (getResponse (h (action_params act) (msg_id act))) (\<lambda>r. Ok (ResponseData_ok A (msg_id act) r)))"
  by (simp add: serve_action_def returns_def)

text \<open>\<^verbatim>\<open>generateId\<close>: the hexadecimal text of the sixteen bytes of a random UUID.\<close>

definition generateId :: "hex_lib \<Rightarrow> string \<Rightarrow> string" where
  "generateId H uuid = h_hex H uuid"

section \<open>The calling side\<close>

text \<open>
  What a response handler does, seen from the action: it returns, throws, or starts another action of the
  same class before it returns.
\<close>

datatype handler_effect = H_Returns | H_Throws cpp_exc | H_Async

type_synonym response_handler = "response_or_error \<Rightarrow> string \<Rightarrow> handler_effect"

text \<open>The static members of an action class; \<open>ai_calls\<close> records the handler calls.\<close>

record action_state =
  ai_endpoints :: "nat set"
  ai_active_handlers :: "string \<rightharpoonup> response_handler"
  ai_calls :: "(string \<times> response_or_error) list"

definition new_action_state :: action_state where
  "new_action_state = \<lparr>ai_endpoints = {}, ai_active_handlers = Map.empty, ai_calls = []\<rparr>"

text \<open>
  \<^verbatim>\<open>async\<close>, with the outcomes of the endpoint's \<^verbatim>\<open>registerSlot\<close> and \<^verbatim>\<open>send\<close> given. The state changes made
  before an exception stay.
\<close>

definition async ::
  "nat \<Rightarrow> string \<Rightarrow> response_handler \<Rightarrow> unit res \<Rightarrow> unit res \<Rightarrow> action_state \<Rightarrow> action_state \<times> string res" where
  "async ep ident h register_slot send_data s =
     (let s1 = s\<lparr>ai_endpoints := insert ep (ai_endpoints s)\<rparr>;
          registered = (if ep \<in> ai_endpoints s then Ok () else register_slot);
          s2 = s1\<lparr>ai_active_handlers := (ai_active_handlers s1)(ident \<mapsto> h)\<rparr>
      in case registered of
           Ok _ \<Rightarrow> (s2, obind send_data (\<lambda>_. Ok ident))
         | r \<Rightarrow> (s1, obind r (\<lambda>_. Ok ident)))"

text \<open>
  \<^verbatim>\<open>M_responseHandler\<close>. The lock is held during the call of the user's handler: a handler that calls
  \<^verbatim>\<open>async\<close> of the same class locks the mutex it holds.
\<close>

definition M_responseHandler ::
  "throw_env \<Rightarrow> action \<Rightarrow> ipc_message \<Rightarrow> action_state \<Rightarrow> action_state \<times> unit res" where
  "M_responseHandler E A resp s =
     (case ai_active_handlers s (msg_id resp) of
        None \<Rightarrow>
          (s, ipc_throw E BadActionId (ac_file A) (ac_line A) ''M_responseHandler''
                [''unknown response id in command '', ac_name A, '' ('', msg_id resp, '')''])
      | Some h \<Rightarrow>
          (let err = response_error resp;
               roe = (if er_set err then Either_u err else Either_v (response_data resp));
               s = s\<lparr>ai_calls := ai_calls s @ [(msg_id resp, roe)]\<rparr>
           in case h roe (msg_id resp) of
                H_Returns \<Rightarrow> (s\<lparr>ai_active_handlers := (ai_active_handlers s)(msg_id resp := None)\<rparr>, Ok ())
              | H_Throws e \<Rightarrow> (s, Throw e)
              | H_Async \<Rightarrow> (s, Undef Relock_Mutex)))"

section \<open>Text in and out\<close>

text \<open>
  The helpers for callers that hold JSON text; every exception becomes a \<^verbatim>\<open>DataFormatException\<close>. The values in
  \<open>ac_params A\<close> stand for what the members of the local struct hold before, which may be anything: they are all replaced
  when the text has members for them, and not returned otherwise.
\<close>

definition constructParams ::
  "'n json_lib \<Rightarrow> ('n \<Rightarrow> int64 res) \<Rightarrow> throw_env \<Rightarrow> action \<Rightarrow> string \<Rightarrow> tpl res" where
  "constructParams J ex E A json =
     try_catch
       (if \<not> j_bound J (ac_params A) then Ok (ac_params A)
        else obind (j_parse J json) (\<lambda>repr. j_extract J ex (ac_params A) (Some repr)))
       (\<lambda>_. True)
       (\<lambda>e. ipc_throw E DataFormatException (ac_file A) (ac_line A) ''constructParams''
              [''unable to construct parameters from JSON data for action '', ac_name A, '': '', what e])"

definition serializeResponse ::
  "'n json_lib \<Rightarrow> (int64 \<Rightarrow> 'n) \<Rightarrow> throw_env \<Rightarrow> action \<Rightarrow> tpl \<Rightarrow> string res" where
  "serializeResponse J sy E A resp =
     try_catch (if \<not> j_bound J resp then Ok ''{}'' else j_serialize J (j_synth J sy resp) True)
       (\<lambda>_. True)
       (\<lambda>e. ipc_throw E DataFormatException (ac_file A) (ac_line A) ''serializeResponse''
              [''unable to serialize response for action '', ac_name A])"

definition serializeError ::
  "'n json_lib \<Rightarrow> (int64 \<Rightarrow> 'n) \<Rightarrow> throw_env \<Rightarrow> action \<Rightarrow> action_error \<Rightarrow> string res" where
  "serializeError J sy E A err =
     try_catch
       (j_serialize J (j_synth J sy (bind (bind [] ''message'' (EStr (er_message err))) ''code'' (EInt (er_code err)))) True)
       (\<lambda>_. True)
       (\<lambda>e. ipc_throw E DataFormatException (ac_file A) (ac_line A) ''serializeError''
              [''unable to serialize error for action '', ac_name A])"

definition serializeResponseOrError ::
  "'n json_lib \<Rightarrow> (int64 \<Rightarrow> 'n) \<Rightarrow> throw_env \<Rightarrow> action \<Rightarrow> response_or_error \<Rightarrow> string res" where
  "serializeResponseOrError J sy E A roe =
     (if isError roe then obind (getError roe) (serializeError J sy E A)
      else obind (getResponse roe) (serializeResponse J sy E A))"

section \<open>Messages of an action as instances of their classes\<close>

text \<open>A value of a struct: its members, each once, with values of their types.\<close>

definition struct_value :: "tpl \<Rightarrow> tpl \<Rightarrow> bool" where
  "struct_value decl v \<longleftrightarrow> wf_tpl v \<and> times_tpl v = [] \<and> fits_tpl decl v \<and> pull_tpl decl v = v"

lemma reflist_Cons [simp]: "reflist ((k, e) # t) = (''data.'' @ k, e) # reflist t" "reflist [] = []"
  by (simp_all add: reflist_def)

lemma unreflist_reflist [simp]: "unreflist (reflist t) = t"
  by (induction t) (auto simp: unreflist_def reflist_def)

lemma map_of_reflist: "map_of (reflist t) (''data.'' @ k) = map_of t k"
  by (induction t) (auto simp: reflist_def)

lemmas map_of_reflist_Cons [simp] = map_of_reflist [simplified]

lemma reflist_keys: "x \<in> fst ` set (reflist t) \<longleftrightarrow> (\<exists>k \<in> fst ` set t. x = ''data.'' @ k)"
  by (induction t) (auto simp: reflist_def)

lemma fits_reflist [simp]: "fits_tpl (reflist t) (reflist u) = fits_tpl t u"
  by (induction t) (auto split: option.splits)

lemma pull_reflist [simp]: "pull_tpl (reflist t) (reflist u) = reflist (pull_tpl t u)"
  by (induction t) auto

lemma times_reflist [simp]: "times_tpl (reflist t) = times_tpl t"
  by (induction t) auto

lemma wf_reflist [simp]: "wf_tpl (reflist t) = wf_tpl t"
  by (induction t) (auto simp: reflist_keys)

lemma not_data_key:
  "''id'' \<notin> fst ` set (reflist t)" "''error.set'' \<notin> fst ` set (reflist t)"
  "''error.message'' \<notin> fst ` set (reflist t)" "''error.code'' \<notin> fst ` set (reflist t)"
  by (auto simp: reflist_keys)

lemmas reflist_ConsR = fits_tpl_ConsR [OF not_data_key(1)] fits_tpl_ConsR [OF not_data_key(2)]
  fits_tpl_ConsR [OF not_data_key(3)] fits_tpl_ConsR [OF not_data_key(4)]
  pull_tpl_ConsR [OF not_data_key(1)] pull_tpl_ConsR [OF not_data_key(2)]
  pull_tpl_ConsR [OF not_data_key(3)] pull_tpl_ConsR [OF not_data_key(4)]

lemma ActionData_instance:
  "struct_value (ac_params A) p \<Longrightarrow> instance_of (action_data_class A) (ActionData A ident p)"
  using not_data_key by (auto simp: instance_of_def action_data_class_def ActionData_def struct_value_def reflist_ConsR)

lemma response_instance:
  "struct_value (ac_response A) v \<Longrightarrow>
   instance_of (response_data_class A) \<lparr>im_rtti = ac_response_type A, im_members = response_members ident err v\<rparr>"
  using not_data_key
  by (auto simp: instance_of_def response_data_class_def response_members_def struct_value_def reflist_ConsR)

lemma struct_value_self: "wf_tpl t \<Longrightarrow> times_tpl t = [] \<Longrightarrow> struct_value t t"
  by (simp add: struct_value_def fits_tpl_refl pull_tpl_same)

lemma action_fields [simp]:
  "msg_id (ActionData A ident p) = ident" "action_params (ActionData A ident p) = p"
  by (simp_all add: msg_id_def action_params_def ActionData_def tpl_str_def)

lemma response_fields [simp]:
  "msg_id \<lparr>im_rtti = t, im_members = response_members ident err v\<rparr> = ident"
  "response_error \<lparr>im_rtti = t, im_members = response_members ident err v\<rparr> = err"
  "response_data \<lparr>im_rtti = t, im_members = response_members ident err v\<rparr> = v"
  by (simp_all add: msg_id_def response_error_def response_data_def response_members_def tpl_str_def
      tpl_bool_def tpl_int_def)

lemma Internals_registers:
  assumes "Internals E A F = Ok G" and "ac_action_type A \<noteq> ac_response_type A"
  shows "m_rtti_map G (ac_action_type A) = Some (ac_name A @ ''_action'') \<and>
         m_ctors G (ac_name A @ ''_action'') = Some (action_data_class A) \<and>
         m_rtti_map G (ac_response_type A) = Some (ac_name A @ ''_response'') \<and>
         m_ctors G (ac_name A @ ''_response'') = Some (response_data_class A)"
  using assms
  by (auto simp: Internals_def registerMessageType_def outcome_simps action_data_class_def
      response_data_class_def split: if_splits)

section \<open>A call, there and back\<close>

text \<open>
  What the caller is told: the specification. An error counts as one only if its flag is set, which the
  default constructor of \<^verbatim>\<open>Error\<close> does not do.
\<close>

definition caller_view :: "action \<Rightarrow> response_or_error \<Rightarrow> response_or_error" where
  "caller_view A r =
     (case m_u r of
        Some e \<Rightarrow> if er_set e then Either_u e else Either_v (ac_response A)
      | None \<Rightarrow> r)"

text \<open>The handler of the server returned a well formed \<^verbatim>\<open>ResponseOrError\<close>.\<close>

definition good_result :: "action \<Rightarrow> response_or_error \<Rightarrow> bool" where
  "good_result A r \<longleftrightarrow>
     (\<exists>e. r = Either_u e) \<or> (\<exists>v. r = Either_v v \<and> struct_value (ac_response A) v)"

lemma caller_view_simps [simp]:
  "caller_view A (Either_u e) = (if er_set e then Either_u e else Either_v (ac_response A))"
  "caller_view A (Either_v v) = Either_v v"
  by (simp_all add: caller_view_def Either_u_def Either_v_def)

lemma serve_reply:
  assumes "good_result A (h p ident)" and "struct_value (ac_response A) (ac_response A)"
  shows "\<exists>err v. serve_action A (returns h) (ActionData A ident p) =
             Ok \<lparr>im_rtti = ac_response_type A, im_members = response_members ident err v\<rparr> \<and>
           struct_value (ac_response A) v \<and>
           (if er_set err then Either_u err else Either_v v) = caller_view A (h p ident)"
  using assms(1) unfolding good_result_def
proof (elim disjE exE conjE)
  fix e
  assume "h p ident = Either_u e"
  then show ?thesis using assms(2) by (fastforce simp: serve_returns ResponseData_error_def)
next
  fix v
  assume "h p ident = Either_v v" "struct_value (ac_response A) v"
  then show ?thesis
    by (intro exI [of _ Error_default] exI [of _ v])
      (simp add: serve_returns ResponseData_ok_def Error_default_def)
qed

lemma M_responseHandler_Ok:
  assumes "ai_active_handlers s ident = Some k"
    and "k (if er_set err then Either_u err else Either_v v) ident = H_Returns"
  shows "M_responseHandler E A \<lparr>im_rtti = t, im_members = response_members ident err v\<rparr> s =
     (s\<lparr>ai_calls := ai_calls s @ [(ident, if er_set err then Either_u err else Either_v v)],
        ai_active_handlers := (ai_active_handlers s)(ident := None)\<rparr>, Ok ())"
  using assms by (auto simp: M_responseHandler_def Let_def)

section \<open>Runs of the calling side\<close>

datatype action_event = A_Async nat string response_handler "unit res" "unit res" | A_Response ipc_message

text \<open>The state after an event that does not end the process; an exception goes back to the caller.\<close>

definition action_step :: "throw_env \<Rightarrow> action \<Rightarrow> action_state \<Rightarrow> action_event \<Rightarrow> action_state option" where
  "action_step E A s ev =
     (case (case ev of
              A_Async ep ident h r1 r2 \<Rightarrow> (case async ep ident h r1 r2 s of (t, r) \<Rightarrow> (t, obind r (\<lambda>_. Ok ())))
            | A_Response m \<Rightarrow> M_responseHandler E A m s) of
        (t, Ok _) \<Rightarrow> Some t
      | (t, Throw _) \<Rightarrow> Some t
      | _ \<Rightarrow> None)"

fun issued_ids :: "action_event list \<Rightarrow> string list" where
  "issued_ids [] = []"
| "issued_ids (A_Async ep ident h r1 r2 # es) = ident # issued_ids es"
| "issued_ids (A_Response m # es) = issued_ids es"

fun returning :: "action_event \<Rightarrow> bool" where
  "returning (A_Async ep ident h r1 r2) = (\<forall>r i. h r i = H_Returns)"
| "returning (A_Response m) = True"

definition calls_inv :: "action_state \<Rightarrow> bool" where
  "calls_inv s \<longleftrightarrow>
     distinct (map fst (ai_calls s)) \<and> (\<forall>i \<in> set (map fst (ai_calls s)). ai_active_handlers s i = None) \<and>
     (\<forall>i h. ai_active_handlers s i = Some h \<longrightarrow> (\<forall>r j. h r j = H_Returns))"

text \<open>An identifier is free when no handler waits for it and none was called for it.\<close>

definition free_id :: "action_state \<Rightarrow> string \<Rightarrow> bool" where
  "free_id s i \<longleftrightarrow> ai_active_handlers s i = None \<and> i \<notin> set (map fst (ai_calls s))"

lemma async_frame:
  assumes "action_step E A s (A_Async ep ident h r1 r2) = Some t"
  shows "ai_calls t = ai_calls s \<and>
         (ai_active_handlers t = ai_active_handlers s \<or> ai_active_handlers t = (ai_active_handlers s)(ident \<mapsto> h))"
  using assms by (auto simp: action_step_def async_def Let_def split: outcome.splits if_splits)

lemma response_frame:
  assumes "action_step E A s (A_Response m) = Some t" and "calls_inv s"
  shows "t = s \<or> (\<exists>h r. ai_active_handlers s (msg_id m) = Some h \<and> ai_calls t = ai_calls s @ [(msg_id m, r)] \<and>
           ai_active_handlers t = (ai_active_handlers s)(msg_id m := None))"
proof (cases "ai_active_handlers s (msg_id m)")
  case None
  then show ?thesis using assms by (auto simp: action_step_def M_responseHandler_def outcome_simps)
next
  case (Some h)
  then have "h r i = H_Returns" for r i using assms(2) by (auto simp: calls_inv_def)
  then show ?thesis using assms(1) Some by (auto simp: action_step_def M_responseHandler_def Let_def)
qed

lemma async_event:
  assumes "calls_inv s" and "action_step E A s (A_Async ep ident h r1 r2) = Some t"
    and "\<forall>r i. h r i = H_Returns" and "free_id s ident"
  shows "calls_inv t" and "free_id s i \<Longrightarrow> i \<noteq> ident \<Longrightarrow> free_id t i"
proof -
  note f = async_frame [OF assms(2)]
  from f show "calls_inv t" using assms(1,3,4) unfolding calls_inv_def free_id_def by (elim conjE disjE) (simp, simp, blast)
  from f show "free_id t i" if "free_id s i" "i \<noteq> ident" using that unfolding free_id_def by auto
qed

lemma response_event:
  assumes "calls_inv s" and "action_step E A s (A_Response m) = Some t"
  shows "calls_inv t" and "free_id s i \<Longrightarrow> free_id t i"
proof -
  note f = response_frame [OF assms(2,1)]
  have "calls_inv t \<and> (free_id s i \<longrightarrow> free_id t i)" for i
    using f
  proof (elim disjE exE conjE)
    fix h r
    assume t: "ai_active_handlers s (msg_id m) = Some h" "ai_calls t = ai_calls s @ [(msg_id m, r)]"
      "ai_active_handlers t = (ai_active_handlers s)(msg_id m := None)"
    then have "msg_id m \<notin> set (map fst (ai_calls s))" using assms(1) by (auto simp: calls_inv_def)
    then show ?thesis using assms(1) t by (auto simp: calls_inv_def free_id_def)
  qed (use assms(1) in simp)
  then show "calls_inv t" and "free_id s i \<Longrightarrow> free_id t i" by blast+
qed

lemma calls_exec:
  assumes "calls_inv s" and "exec (action_step E A) s es = Some t" and "distinct (issued_ids es)"
    and "\<forall>i \<in> set (issued_ids es). free_id s i" and "\<forall>ev \<in> set es. returning ev"
  shows "calls_inv t"
  using assms
proof (induction es arbitrary: s)
  case (Cons ev es)
  then obtain u where u: "action_step E A s ev = Some u" "exec (action_step E A) u es = Some t"
    by (auto split: option.splits)
  show ?case
  proof (cases ev)
    case (A_Async ep ident h r1 r2)
    note ev = async_event [OF Cons.prems(1) u(1) [unfolded A_Async]]
    have ret: "\<forall>r i. h r i = H_Returns" "free_id s ident" using Cons.prems A_Async by auto
    have "\<forall>i \<in> set (issued_ids es). free_id u i"
      using ev(2) [OF ret] Cons.prems(3,4) A_Async by auto
    then show ?thesis using Cons.IH [OF ev(1) [OF ret] u(2)] Cons.prems A_Async by auto
  next
    case (A_Response m)
    note ev = response_event [OF Cons.prems(1) u(1) [unfolded A_Response]]
    show ?thesis using Cons.IH [OF ev(1) u(2)] ev(2) Cons.prems A_Response by auto
  qed
qed simp

section \<open>Properties\<close>

text \<open>
  C15. A remote action, there and back. The caller's action message is serialised, constructed by the server, handed
  to the handler with the parameters and identifier it was started with, the handler's result is sent
  back the same way, and the response handler registered for the identifier is called once with what the
  server's handler returned, after which the identifier is forgotten. The one exception is in \<open>caller_view\<close>: an
  error made by the default constructor arrives as a response with default values.
\<close>

theorem action_there_and_back:
  assumes J: "json_library (ie_json V)" and A: "ac_action_type A \<noteq> ac_response_type A"
    and F: "Internals (ie_throw V) A F = Ok (ie_factory V)"
    and p: "struct_value (ac_params A) p" and zero: "wf_tpl (ac_response A)" "times_tpl (ac_response A) = []"
    and h: "good_result A (h p ident)"
    and k: "ai_active_handlers s ident = Some k" "k (caller_view A (h p ident)) ident = H_Returns"
  shows "\<exists>req act reply rsp resp i j.
           ipc_ser V (ActionData A ident p) = Ok req \<and> ipc_con V req = Ok (i, act) \<and>
           serve_action A (returns h) act = Ok reply \<and>
           ipc_ser V reply = Ok rsp \<and> ipc_con V rsp = Ok (j, resp) \<and>
           M_responseHandler E A resp s =
             (s\<lparr>ai_calls := ai_calls s @ [(ident, caller_view A (h p ident))],
                ai_active_handlers := (ai_active_handlers s)(ident := None)\<rparr>, Ok ())"
proof -
  note reg = Internals_registers [OF F A]
  have act: "ipc_ok V (ActionData A ident p)"
    using J reg ActionData_instance [OF p] by (auto simp: ipc_ok_def ActionData_def)
  obtain err v where r: "serve_action A (returns h) (ActionData A ident p) =
             Ok \<lparr>im_rtti = ac_response_type A, im_members = response_members ident err v\<rparr>"
      "struct_value (ac_response A) v"
      "(if er_set err then Either_u err else Either_v v) = caller_view A (h p ident)"
    using serve_reply [of A h p ident, OF h struct_value_self [OF zero]] by blast
  let ?reply = "\<lparr>im_rtti = ac_response_type A, im_members = response_members ident err v\<rparr>"
  have rep: "ipc_ok V ?reply"
    using J reg response_instance [OF r(2)] by (auto simp: ipc_ok_def)
  obtain req where req: "ipc_ser V (ActionData A ident p) = Ok req" using ipc.ser_ok [OF act] by blast
  obtain rsp where rsp: "ipc_ser V ?reply = Ok rsp" using ipc.ser_ok [OF rep] by blast
  have "M_responseHandler E A ?reply s =
      (s\<lparr>ai_calls := ai_calls s @ [(ident, caller_view A (h p ident))],
         ai_active_handlers := (ai_active_handlers s)(ident := None)\<rparr>, Ok ())"
    using M_responseHandler_Ok [OF k(1), of err v E A] k(2) r(3) by simp
  then show ?thesis using req rsp ipc.con_ser [OF act req] ipc.con_ser [OF rep rsp] r(1) by blast
qed

definition add_action :: action where
  "add_action =
     \<lparr>ac_name = ''calc::add'', ac_file = ''calc.def'', ac_line = 1, ac_action_type = ''calc_add_ActionData'', ac_response_type = ''calc_add_ResponseData'',
      ac_params = [(''a'', EInt 0), (''b'', EInt 0)], ac_response = [(''sum'', EInt 0)]\<rparr>"

theorem action_there_and_back_witness:
  "\<exists>F req act reply rsp resp i j.
     Internals no_throw_env add_action new_factory = Ok F \<and>
     ipc_ser (demo_env\<lparr>ie_factory := F\<rparr>) (ActionData add_action ''7F'' [(''a'', EInt 2), (''b'', EInt 3)]) = Ok req \<and>
     ipc_con (demo_env\<lparr>ie_factory := F\<rparr>) req = Ok (i, act) \<and>
     serve_action add_action (returns (\<lambda>p _. Either_v [(''sum'', EInt (tpl_int p ''a'' 0 + tpl_int p ''b'' 0))])) act = Ok reply \<and>
     ipc_ser (demo_env\<lparr>ie_factory := F\<rparr>) reply = Ok rsp \<and> ipc_con (demo_env\<lparr>ie_factory := F\<rparr>) rsp = Ok (j, resp) \<and>
     ai_calls (fst (M_responseHandler no_throw_env add_action resp
       (new_action_state\<lparr>ai_active_handlers := [''7F'' \<mapsto> (\<lambda>_ _. H_Returns)]\<rparr>))) =
       [(''7F'', Either_v [(''sum'', EInt 5)])]"
proof -
  obtain F where F: "Internals no_throw_env add_action new_factory = Ok F"
    by (simp add: Internals_def registerMessageType_def new_factory_def add_action_def)
  let ?V = "demo_env\<lparr>ie_factory := F\<rparr>"
  let ?s = "new_action_state\<lparr>ai_active_handlers := [''7F'' \<mapsto> (\<lambda>_ _. H_Returns)]\<rparr>"
  let ?h = "\<lambda>p (_ :: string). Either_v [(''sum'', EInt (tpl_int p ''a'' 0 + tpl_int p ''b'' 0))] :: response_or_error"
  let ?p = "[(''a'', EInt 2), (''b'', EInt 3)]"
  have V: "json_library (ie_json ?V)" "Internals (ie_throw ?V) add_action new_factory = Ok (ie_factory ?V)"
    using ref.json_library_axioms F by (simp_all add: demo_env_def)
  have A: "ac_action_type add_action \<noteq> ac_response_type add_action" "struct_value (ac_params add_action) ?p"
      "wf_tpl (ac_response add_action)" "times_tpl (ac_response add_action) = []"
    by (simp_all add: add_action_def struct_value_def)
  have h: "good_result add_action (?h ?p ''7F'')"
    by (auto simp: good_result_def add_action_def struct_value_def)
  have k: "ai_active_handlers ?s ''7F'' = Some (\<lambda>_ _. H_Returns)" by simp
  have sum: "caller_view add_action (?h ?p ''7F'') = Either_v [(''sum'', EInt 5)]"
    by (simp add: tpl_int_def)
  show ?thesis
    using action_there_and_back [where A = add_action and V = ?V and h = ?h and p = ?p and ident = "''7F''" and s = ?s
        and E = no_throw_env, OF V(1) A(1) V(2) A(2,3,4) h k refl] F
    unfolding sum by (fastforce simp: new_action_state_def)
qed

text \<open>
  C22. Response handlers are called at most once: when the identifiers are distinct, as random ones are, and
  handlers return, no run of calls and responses, whatever the responses are and however often they
  arrive, and whatever the endpoint throws, calls a handler twice for one identifier, and an identifier that was answered
  is refused with \<^verbatim>\<open>BadActionId\<close> from then on.
\<close>

theorem handlers_called_once:
  assumes "exec (action_step E A) new_action_state es = Some s"
    and "distinct (issued_ids es)" and "\<forall>ev \<in> set es. returning ev"
  shows "distinct (map fst (ai_calls s)) \<and>
         (\<forall>m. msg_id m \<in> fst ` set (ai_calls s) \<longrightarrow>
            (\<exists>e. M_responseHandler E A m s = (s, Throw (CoreExc e)) \<and> exc_cls e = BadActionId))"
proof -
  have "calls_inv new_action_state" by (simp add: calls_inv_def new_action_state_def)
  then have inv: "calls_inv s"
    using calls_exec [OF _ assms(1,2) _ assms(3)] by (simp add: new_action_state_def free_id_def)
  have "\<exists>e. M_responseHandler E A m s = (s, Throw (CoreExc e)) \<and> exc_cls e = BadActionId"
    if "msg_id m \<in> fst ` set (ai_calls s)" for m
  proof -
    have "ai_active_handlers s (msg_id m) = None" using inv that unfolding calls_inv_def by auto
    then show ?thesis by (simp add: M_responseHandler_def outcome_simps)
  qed
  then show ?thesis using inv by (simp add: calls_inv_def)
qed

theorem handlers_called_once_witness:
  "\<exists>s e. exec (action_step no_throw_env add_action) new_action_state
           [A_Async 1 ''7F'' (\<lambda>_ _. H_Returns) (Ok ()) (Ok ()), A_Response (ResponseData_ok add_action ''7F'' [(''sum'', EInt 5)])] = Some s \<and>
     map fst (ai_calls s) = [''7F''] \<and>
     M_responseHandler no_throw_env add_action (ResponseData_ok add_action ''7F'' []) s = (s, Throw (CoreExc e)) \<and>
     exc_cls e = BadActionId"
proof -
  let ?es = "[A_Async 1 ''7F'' (\<lambda>_ _. H_Returns) (Ok ()) (Ok ()), A_Response (ResponseData_ok add_action ''7F'' [(''sum'', EInt 5)])]"
  obtain s where s: "exec (action_step no_throw_env add_action) new_action_state ?es = Some s" "map fst (ai_calls s) = [''7F'']"
    by (simp add: action_step_def async_def M_responseHandler_def new_action_state_def ResponseData_ok_def Let_def)
  have id: "msg_id (ResponseData_ok add_action ''7F'' []) = ''7F''" by (simp add: ResponseData_ok_def)
  have "''7F'' \<in> fst ` set (ai_calls s)" using s(2) by (metis list.set_intros(1) list.set_map)
  then show ?thesis
    using handlers_called_once [OF s(1)] s id by fastforce
qed

end
