(* ===== verification/Ipc_Remote.thy ===== *)
theory Ipc_Remote
  imports Ipc_Actions
begin

text \<open>
  Actions between two processes: the calling threads of \<^verbatim>\<open>async\<close>, the two directions of an endpoint pair
  (\<^verbatim>\<open>Ipc_Channel\<close>), the threads that \<^verbatim>\<open>ActionServer::registerAction\<close> starts and the response handlers, interleaved.
  Both processes have registered the two message classes of one action; neither endpoint has an exception
  handler, and both live. The mutex \<^verbatim>\<open>m_mutex\<close> of the action class is held by a caller for the whole of \<^verbatim>\<open>async\<close>, while it
  waits for the buffer too, and by the receive thread of the client for the whole of \<^verbatim>\<open>M_responseHandler\<close>.
\<close>

section \<open>State\<close>

record ('s, 'n) remote_env =
  re_sem :: "'s sem_lib"
  re_ipc :: "'n ipc_env"
  re_action :: action
  re_handler :: "tpl \<Rightarrow> string \<Rightarrow> response_or_error"

text \<open>
  \<open>rm_mutex\<close> is the caller that is inside \<^verbatim>\<open>async\<close> with the message it sends. \<open>rm_threads\<close> are the started threads of
  the server by the message they serve, until they get the buffer. \<open>rm_issued\<close> is history: the
  identifiers and parameters of the calls made. Nothing is said of what happens after one of the processes
  ended, \<open>rm_down\<close>.
\<close>

record 's remote =
  rm_req :: "'s channel"
  rm_rsp :: "'s channel"
  rm_mutex :: "(nat \<times> ipc_message) option"
  rm_client :: action_state
  rm_threads :: "ipc_message list"
  rm_issued :: "(string \<times> tpl) list"
  rm_down :: bool

definition new_remote :: "('s, 'n) remote_env \<Rightarrow> string \<Rightarrow> string \<Rightarrow> nat \<Rightarrow> nat \<Rightarrow> 's remote" where
  "new_remote R mem mem' n k =
     \<lparr>rm_req = new_channel (re_sem R) mem n, rm_rsp = new_channel (re_sem R) mem' k, rm_mutex = None,
      rm_client = new_action_state, rm_threads = [], rm_issued = [], rm_down = False\<rparr>"

datatype remote_event =
    Call nat string tpl response_handler
  | Request channel_event
  | Reply nat nat
  | Response channel_event

section \<open>The slots\<close>

text \<open>\<^verbatim>\<open>registerAction\<close>: the slot starts a detached thread and returns.\<close>

definition registerAction :: "'n ipc_env \<Rightarrow> action \<Rightarrow> (string \<rightharpoonup> slot) \<Rightarrow> (string \<rightharpoonup> slot) res" where
  "registerAction V A slots = registerSlot V (ac_action_type A) (\<lambda>_. Ok ()) slots"

definition response_slot :: "'n ipc_env \<Rightarrow> action \<Rightarrow> action_state \<Rightarrow> (string \<rightharpoonup> slot) res" where
  "response_slot V A s =
     registerSlot V (ac_response_type A) (\<lambda>m. snd (M_responseHandler (ie_throw V) A m s)) Map.empty"

definition slots_of :: "(string \<rightharpoonup> slot) res \<Rightarrow> (string \<rightharpoonup> slot)" where
  "slots_of r = (case r of Ok slots \<Rightarrow> slots | _ \<Rightarrow> Map.empty)"

definition server_peers :: "('s, 'n) remote_env \<Rightarrow> ('s, 'n) peers" where
  "server_peers R =
     \<lparr>pe_sem = re_sem R, pe_send = re_ipc R, pe_recv = re_ipc R,
      pe_slots = slots_of (registerAction (re_ipc R) (re_action R) Map.empty), pe_exc = None\<rparr>"

text \<open>The client's endpoint has a slot once the first \<^verbatim>\<open>async\<close> registered it.\<close>

definition client_peers :: "('s, 'n) remote_env \<Rightarrow> action_state \<Rightarrow> ('s, 'n) peers" where
  "client_peers R s =
     \<lparr>pe_sem = re_sem R, pe_send = re_ipc R, pe_recv = re_ipc R,
      pe_slots = (if ai_endpoints s = {} then Map.empty else slots_of (response_slot (re_ipc R) (re_action R) s)),
      pe_exc = None\<rparr>"

text \<open>The message that a round of the receive thread hands to a slot.\<close>

definition handed :: "('s, 'n) peers \<Rightarrow> 's channel \<Rightarrow> ipc_message option" where
  "handed P c =
     (case ipc_con (pe_recv P) (c_str (sb_buffer (ch_buf c))) of
        Ok (ty, m) \<Rightarrow>
          (case pe_slots P ty of None \<Rightarrow> None | Some sl \<Rightarrow> if im_rtti m = sl_rtti sl then Some m else None)
      | _ \<Rightarrow> None)"

section \<open>Steps\<close>

text \<open>The start of \<^verbatim>\<open>async\<close>: everything before the wait for the buffer, with the mutex locked.\<close>

definition remote_call ::
  "('s, 'n) remote_env \<Rightarrow> nat \<Rightarrow> string \<Rightarrow> tpl \<Rightarrow> response_handler \<Rightarrow> 's remote \<Rightarrow> 's remote option" where
  "remote_call R i ident p k s =
     (if rm_mutex s = None \<and> sender_at (rm_req s) i = Some S_Idle then
        (case async 0 ident k (obind (response_slot (re_ipc R) (re_action R) (rm_client s)) (\<lambda>_. Ok ())) (Ok ())
                (rm_client s) of
           (t, Ok _) \<Rightarrow> Some (s\<lparr>rm_client := t, rm_mutex := Some (i, ActionData (re_action R) ident p),
                              rm_issued := rm_issued s @ [(ident, p)]\<rparr>)
         | (t, _) \<Rightarrow> Some (s\<lparr>rm_client := t\<rparr>))
      else None)"

text \<open>\<^verbatim>\<open>async\<close> ends, and the lock guard with it, when \<^verbatim>\<open>send\<close> returns or throws.\<close>

definition after_send :: "nat \<Rightarrow> 's remote \<Rightarrow> 's remote" where
  "after_send i s =
     (if sender_at (rm_req s) i = Some S_Idle \<and> map_option fst (rm_mutex s) = Some i then s\<lparr>rm_mutex := None\<rparr> else s)"

definition request_step :: "('s, 'n) remote_env \<Rightarrow> channel_event \<Rightarrow> 's remote \<Rightarrow> 's remote option" where
  "request_step R ev s =
     (case channel_step (server_peers R) (rm_req s) ev of
        None \<Rightarrow> None
      | Some c \<Rightarrow>
          (let t = s\<lparr>rm_req := c\<rparr> in
           case ev of
             WaitEmpty i m \<Rightarrow> if rm_mutex s = Some (i, m) then Some t else None
           | LockSend i \<Rightarrow> Some t
           | Write i \<Rightarrow> Some (after_send i t)
           | UnlockSend i \<Rightarrow> Some t
           | PostFull i \<Rightarrow> Some (after_send i t)
           | WaitFull \<Rightarrow> Some t
           | LockReceive \<Rightarrow> Some t
           | Handle \<Rightarrow>
               Some (t\<lparr>rm_threads := rm_threads s @
                 (case handed (server_peers R) (rm_req s) of None \<Rightarrow> [] | Some m \<Rightarrow> [m]),
                 rm_down := ch_terminated c\<rparr>)
           | UnlockReceive \<Rightarrow> Some t
           | PostEmpty \<Rightarrow> Some t
           | _ \<Rightarrow> None))"

text \<open>A thread of the server: the handler, then \<^verbatim>\<open>send\<close> with its result, up to the wait for the buffer.\<close>

definition reply_step :: "('s, 'n) remote_env \<Rightarrow> nat \<Rightarrow> nat \<Rightarrow> 's remote \<Rightarrow> 's remote option" where
  "reply_step R i k s =
     (if k < length (rm_threads s) then
        (case serve_action (re_action R) (returns (re_handler R)) (rm_threads s ! k) of
           Ok r \<Rightarrow>
             map_option (\<lambda>c. s\<lparr>rm_rsp := c, rm_threads := take k (rm_threads s) @ drop (Suc k) (rm_threads s)\<rparr>)
               (channel_step (client_peers R (rm_client s)) (rm_rsp s) (WaitEmpty i r))
         | _ \<Rightarrow> Some (s\<lparr>rm_down := True\<rparr>))
      else None)"

text \<open>
  An exception of \<^verbatim>\<open>send\<close> leaves the detached thread and ends the server.
  The receive thread of the client waits for the mutex before it calls \<^verbatim>\<open>M_responseHandler\<close>.
\<close>

definition response_step :: "('s, 'n) remote_env \<Rightarrow> channel_event \<Rightarrow> 's remote \<Rightarrow> 's remote option" where
  "response_step R ev s =
     (let P = client_peers R (rm_client s) in
      case channel_step P (rm_rsp s) ev of
        None \<Rightarrow> None
      | Some c \<Rightarrow>
          (let t = s\<lparr>rm_rsp := c\<rparr> in
           case ev of
             LockSend i \<Rightarrow> Some t
           | Write i \<Rightarrow> Some (t\<lparr>rm_down := ch_errors c \<noteq> ch_errors (rm_rsp s)\<rparr>)
           | UnlockSend i \<Rightarrow> Some t
           | PostFull i \<Rightarrow> Some t
           | WaitFull \<Rightarrow> Some t
           | LockReceive \<Rightarrow> Some t
           | Handle \<Rightarrow>
               (case handed P (rm_rsp s) of
                  None \<Rightarrow> Some (t\<lparr>rm_down := ch_terminated c\<rparr>)
                | Some m \<Rightarrow>
                    if rm_mutex s = None
                    then Some (t\<lparr>rm_client := fst (M_responseHandler (ie_throw (re_ipc R)) (re_action R) m (rm_client s)),
                                 rm_down := ch_terminated c\<rparr>)
                    else None)
           | UnlockReceive \<Rightarrow> Some t
           | PostEmpty \<Rightarrow> Some t
           | _ \<Rightarrow> None))"

definition actions_step :: "('s, 'n) remote_env \<Rightarrow> 's remote \<Rightarrow> remote_event \<Rightarrow> 's remote option" where
  "actions_step R s e =
     (if rm_down s then None
      else case e of
        Call i ident p k \<Rightarrow> remote_call R i ident p k s
      | Request ev \<Rightarrow> request_step R ev s
      | Reply i k \<Rightarrow> reply_step R i k s
      | Response ev \<Rightarrow> response_step R ev s)"

section \<open>The setting\<close>

text \<open>
  Both processes have registered the classes of the action. A call is good when its parameters are values of the
  struct, the handler of the server answers them with a result of the action, and neither message has a null
  character in its text.
\<close>

definition remote_setting :: "('s, 'n) remote_env \<Rightarrow> bool" where
  "remote_setting R \<longleftrightarrow>
     json_library (ie_json (re_ipc R)) \<and> ac_action_type (re_action R) \<noteq> ac_response_type (re_action R) \<and>
     (\<exists>F. Internals (ie_throw (re_ipc R)) (re_action R) F = Ok (ie_factory (re_ipc R))) \<and>
     struct_value (ac_response (re_action R)) (ac_response (re_action R))"

definition call_texts :: "('s, 'n) remote_env \<Rightarrow> string \<times> tpl \<Rightarrow> (string \<Rightarrow> bool) \<Rightarrow> bool" where
  "call_texts R x good \<longleftrightarrow>
     (\<forall>m s. (m = ActionData (re_action R) (fst x) (snd x) \<or>
             serve_action (re_action R) (returns (re_handler R)) (ActionData (re_action R) (fst x) (snd x)) = Ok m) \<and>
            ipc_ser (re_ipc R) m = Ok s \<longrightarrow> good s)"

definition good_call :: "('s, 'n) remote_env \<Rightarrow> string \<times> tpl \<Rightarrow> bool" where
  "good_call R x \<longleftrightarrow>
     struct_value (ac_params (re_action R)) (snd x) \<and> good_result (re_action R) (re_handler R (snd x) (fst x)) \<and>
     call_texts R x (\<lambda>s. nul \<notin> set s)"

definition is_request :: "('s, 'n) remote_env \<Rightarrow> (string \<times> tpl) list \<Rightarrow> ipc_message \<Rightarrow> bool" where
  "is_request R calls m \<longleftrightarrow> (\<exists>x \<in> set calls. m = ActionData (re_action R) (fst x) (snd x))"

definition is_reply :: "('s, 'n) remote_env \<Rightarrow> (string \<times> tpl) list \<Rightarrow> ipc_message \<Rightarrow> bool" where
  "is_reply R calls m \<longleftrightarrow>
     (\<exists>x \<in> set calls. serve_action (re_action R) (returns (re_handler R)) (ActionData (re_action R) (fst x) (snd x)) = Ok m)"

lemma is_request_mono: "is_request R calls m \<Longrightarrow> is_request R (calls @ cs) m"
  and is_reply_mono: "is_reply R calls m \<Longrightarrow> is_reply R (calls @ cs) m"
  by (auto simp: is_request_def is_reply_def)

text \<open>What a good call puts on the wire, and what comes out of it.\<close>

lemma setting_registers:
  assumes "remote_setting R"
  shows "m_rtti_map (ie_factory (re_ipc R)) (ac_action_type (re_action R)) = Some (ac_name (re_action R) @ ''_action'')"
    and "m_rtti_map (ie_factory (re_ipc R)) (ac_response_type (re_action R)) = Some (ac_name (re_action R) @ ''_response'')"
  using assms Internals_registers [of "ie_throw (re_ipc R)" "re_action R"] by (auto simp: remote_setting_def)

lemma request_ok:
  assumes "remote_setting R" and "good_call R x"
  shows "ipc_ok (re_ipc R) (ActionData (re_action R) (fst x) (snd x))"
    and "ipc_tid (re_ipc R) (ActionData (re_action R) (fst x) (snd x)) = ac_name (re_action R) @ ''_action''"
proof -
  obtain F where F: "Internals (ie_throw (re_ipc R)) (re_action R) F = Ok (ie_factory (re_ipc R))"
      "ac_action_type (re_action R) \<noteq> ac_response_type (re_action R)" "json_library (ie_json (re_ipc R))"
    using assms(1) by (auto simp: remote_setting_def)
  note reg = Internals_registers [OF F(1,2)]
  show "ipc_ok (re_ipc R) (ActionData (re_action R) (fst x) (snd x))"
    using F(3) reg ActionData_instance [of "re_action R" "snd x" "fst x"] assms(2)
    by (auto simp: ipc_ok_def ActionData_def good_call_def)
  show "ipc_tid (re_ipc R) (ActionData (re_action R) (fst x) (snd x)) = ac_name (re_action R) @ ''_action''"
    using reg by (simp add: ipc_tid_def ActionData_def)
qed

lemma reply_ok:
  assumes "remote_setting R" and "good_call R x"
  shows "\<exists>err v. serve_action (re_action R) (returns (re_handler R)) (ActionData (re_action R) (fst x) (snd x)) =
            Ok \<lparr>im_rtti = ac_response_type (re_action R), im_members = response_members (fst x) err v\<rparr> \<and>
         ipc_ok (re_ipc R) \<lparr>im_rtti = ac_response_type (re_action R), im_members = response_members (fst x) err v\<rparr> \<and>
         ipc_tid (re_ipc R) \<lparr>im_rtti = ac_response_type (re_action R), im_members = response_members (fst x) err v\<rparr> =
            ac_name (re_action R) @ ''_response'' \<and>
         (if er_set err then Either_u err else Either_v v) = caller_view (re_action R) (re_handler R (snd x) (fst x))"
proof -
  obtain F where F: "Internals (ie_throw (re_ipc R)) (re_action R) F = Ok (ie_factory (re_ipc R))"
      "ac_action_type (re_action R) \<noteq> ac_response_type (re_action R)" "json_library (ie_json (re_ipc R))"
    using assms(1) by (auto simp: remote_setting_def)
  note reg = Internals_registers [OF F(1,2)]
  obtain err v where r: "serve_action (re_action R) (returns (re_handler R)) (ActionData (re_action R) (fst x) (snd x)) =
            Ok \<lparr>im_rtti = ac_response_type (re_action R), im_members = response_members (fst x) err v\<rparr>"
      "struct_value (ac_response (re_action R)) v"
      "(if er_set err then Either_u err else Either_v v) = caller_view (re_action R) (re_handler R (snd x) (fst x))"
    using serve_reply [of "re_action R" "re_handler R" "snd x" "fst x"] assms
    by (auto simp: good_call_def remote_setting_def)
  have "ipc_ok (re_ipc R) \<lparr>im_rtti = ac_response_type (re_action R), im_members = response_members (fst x) err v\<rparr>"
    using F(3) reg response_instance [OF r(2), of "fst x" err] by (auto simp: ipc_ok_def)
  then show ?thesis using r reg by (intro exI [of _ err] exI [of _ v]) (simp add: ipc_tid_def)
qed

section \<open>One direction of the conversation\<close>

text \<open>
  A direction whose endpoint lives and which carries only messages that satisfy \<open>Q\<close>, in the hands of its senders or
  written.
\<close>

definition carries :: "(ipc_message \<Rightarrow> bool) \<Rightarrow> 's channel \<Rightarrow> bool" where
  "carries Q c \<longleftrightarrow>
     (\<forall>m. S_Entered m \<in> set (ch_senders c) \<or> S_Writing m \<in> set (ch_senders c) \<or> m \<in> set (ch_msgs c) \<longrightarrow> Q m)"

definition direction_inv ::
  "('s \<Rightarrow> nat) \<Rightarrow> 'n ipc_env \<Rightarrow> (ipc_message \<Rightarrow> bool) \<Rightarrow> 's channel \<Rightarrow> bool" where
  "direction_inv cnt V Q c \<longleftrightarrow>
     chan_inv cnt c \<and> ch_destructor c = D_None \<and> ch_posts c = 0 \<and> carries Q c \<and>
     list_all2 (\<lambda>m s. \<exists>json. ipc_ser V m = Ok json \<and> s = c_str json) (ch_msgs c) (ch_sent c)"

fun living_event :: "(ipc_message \<Rightarrow> bool) \<Rightarrow> channel_event \<Rightarrow> bool" where
  "living_event Q (WaitEmpty i m) = Q m"
| "living_event Q ShutdownFlag = False"
| "living_event Q ShutdownPost = False"
| "living_event Q Join = False"
| "living_event Q Reopen = False"
| "living_event Q _ = True"

lemma carries_mono: "carries Q c \<Longrightarrow> (\<And>m. Q m \<Longrightarrow> Q' m) \<Longrightarrow> carries Q' c"
  by (auto simp: carries_def)

lemma direction_mono: "direction_inv cnt V Q c \<Longrightarrow> (\<And>m. Q m \<Longrightarrow> Q' m) \<Longrightarrow> direction_inv cnt V Q' c"
  by (auto simp: direction_inv_def elim: carries_mono)

lemma carries_update:
  "carries Q c \<Longrightarrow> set (ch_msgs d) \<subseteq> set (ch_msgs c) \<union> {m. Q m} \<Longrightarrow> ch_senders d = (ch_senders c)[i := v] \<Longrightarrow>
   (\<forall>m. v = S_Entered m \<or> v = S_Writing m \<longrightarrow> Q m) \<Longrightarrow> carries Q d"
  unfolding carries_def using set_update_subset_insert [of "ch_senders c" i v] by (auto; blast)

lemma carries_step:
  assumes "carries Q c" and "channel_step P c e = Some d" and "living_event Q e"
  shows "carries Q d"
proof -
  have member: "sender_at c i = Some v \<Longrightarrow> v \<in> set (ch_senders c)" for i v by (auto simp: sender_at_Some)
  show ?thesis
  proof (cases e)
    case (WaitEmpty i m)
    then show ?thesis using assms carries_update [OF assms(1), of d i "S_Entered m"]
      by (auto simp: channel_step_def channel_steps split: if_splits)
  next
    case (LockSend i)
    then obtain m where "sender_at c i = Some (S_Entered m)" "ch_senders d = (ch_senders c)[i := S_Writing m]"
        "ch_msgs d = ch_msgs c"
      using assms(2) by (auto simp: channel_step_def channel_steps split: if_splits)
    then show ?thesis using assms(1) member carries_update [OF assms(1), of d i "S_Writing m"] by (auto simp: carries_def)
  next
    case (Write i)
    then have "channel_step P c (Write i) = Some d" using assms(2) by simp
    then show ?thesis
    proof (cases rule: write_step)
      case (written m str b)
      then have "Q m" using assms(1) member by (auto simp: carries_def)
      with written(3) show ?thesis using carries_update [OF assms(1), of d i S_Written] by simp
    next
      case (threw m e)
      then show ?thesis using carries_update [OF assms(1), of d i S_Idle] by simp
    qed
  next
    case (UnlockSend i)
    then show ?thesis using assms(2) carries_update [OF assms(1), of d i S_Unlocked]
      by (auto simp: channel_step_def channel_steps split: if_splits)
  next
    case (PostFull i)
    then show ?thesis using assms(2) carries_update [OF assms(1), of d i S_Idle]
      by (auto simp: channel_step_def channel_steps split: if_splits)
  qed (use assms in \<open>auto simp: channel_step_def channel_steps carries_def split: if_splits\<close>)
qed

lemma living_frame:
  assumes "channel_step P c e = Some d" and "living_event Q e"
  shows "ch_destructor d = ch_destructor c" and "ch_posts d = ch_posts c"
  using assms by (cases e; auto simp: channel_step_def channel_steps split: if_splits)+

lemma texts_step:
  assumes "list_all2 (\<lambda>m s. \<exists>json. ipc_ser (pe_send P) m = Ok json \<and> s = c_str json) (ch_msgs c) (ch_sent c)"
    and "channel_step P c e = Some d" and "living_event Q e"
  shows "list_all2 (\<lambda>m s. \<exists>json. ipc_ser (pe_send P) m = Ok json \<and> s = c_str json) (ch_msgs d) (ch_sent d)"
proof (cases "\<exists>i. e = Write i")
  case True
  then obtain i where "channel_step P c (Write i) = Some d" using assms(2) by blast
  then show ?thesis using assms(1)
    by (cases rule: write_step) (auto dest!: write_message_Ok intro!: list_all2_appendI)
next
  case False
  then have "ch_msgs d = ch_msgs c" "ch_sent d = ch_sent c"
    using assms(2,3) by (cases e; auto simp: channel_step_def channel_steps split: if_splits)+
  then show ?thesis using assms(1) by simp
qed

context semaphore
begin

lemma direction_step:
  assumes "direction_inv cnt V Q c" and "pe_sem P = L" and "pe_send P = V"
    and "channel_step P c e = Some d" and "living_event Q e"
  shows "direction_inv cnt V Q d"
  using assms chan_inv_step [OF assms(2) _ assms(4)] living_frame [OF assms(4,5)] carries_step [OF _ assms(4,5)]
    texts_step [OF _ assms(4,5)]
  unfolding direction_inv_def by simp

lemma direction_new: "length mem = MaxMessageSize \<Longrightarrow> direction_inv cnt V Q (new_channel L mem n)"
  using chan_inv_new [of mem n]
  by (auto simp: direction_inv_def carries_def new_channel_def)

text \<open>What the receive thread finds in the buffer is the one message that was written and not yet received.\<close>

lemma direction_text:
  assumes "direction_inv cnt V Q c" and "ch_receiver c = R_Handling"
  shows "\<exists>m json. drop (length (ch_received c)) (ch_msgs c) = [m] \<and> Q m \<and> ipc_ser V m = Ok json \<and>
           c_str (sb_buffer (ch_buf c)) = c_str json"
proof -
  have fl: "flight cnt c = 1"
    using handling_flight(1) [of c] assms by (simp add: direction_inv_def chan_inv_def)
  then have sent: "ch_sent c = ch_received c @ [c_str (sb_buffer (ch_buf c))]"
    using assms(1) by (simp add: direction_inv_def chan_inv_def data_inv_def)
  have all: "list_all2 (\<lambda>m s. \<exists>json. ipc_ser V m = Ok json \<and> s = c_str json) (ch_msgs c) (ch_received c @ [c_str (sb_buffer (ch_buf c))])"
    using assms(1) sent by (simp add: direction_inv_def)
  then obtain ms m where ms: "ch_msgs c = ms @ [m]" "length ms = length (ch_received c)"
      "\<exists>json. ipc_ser V m = Ok json \<and> c_str (sb_buffer (ch_buf c)) = c_str json"
    by (auto simp: list_all2_append2 list_all2_Cons2 dest: list_all2_lengthD)
  then have "Q m" using assms(1) by (auto simp: direction_inv_def carries_def)
  then show ?thesis using ms by auto
qed

end

section \<open>Nobody gets the answer to another call\<close>

lemma server_slots:
  assumes "remote_setting R"
  shows "pe_slots (server_peers R) =
     [ac_name (re_action R) @ ''_action'' \<mapsto> \<lparr>sl_rtti = ac_action_type (re_action R), sl_handler = (\<lambda>_. Ok ())\<rparr>]"
  using setting_registers(1) [OF assms]
  by (simp add: server_peers_def registerAction_def registerSlot_def typeIdentifier_def slots_of_def)

lemma client_slots:
  assumes "remote_setting R" and "ai_endpoints cl \<noteq> {}"
  shows "pe_slots (client_peers R cl) =
     [ac_name (re_action R) @ ''_response'' \<mapsto> \<lparr>sl_rtti = ac_response_type (re_action R),
        sl_handler = (\<lambda>m. snd (M_responseHandler (ie_throw (re_ipc R)) (re_action R) m cl))\<rparr>]"
  using setting_registers(2) [OF assms(1)] assms(2)
  by (simp add: client_peers_def response_slot_def registerSlot_def typeIdentifier_def slots_of_def)

lemma response_slot_ok: "remote_setting R \<Longrightarrow> \<exists>m. response_slot (re_ipc R) (re_action R) cl = Ok m"
  using setting_registers(2) [of R] by (simp add: response_slot_def registerSlot_def typeIdentifier_def)

lemma peers_sel [simp]:
  "pe_sem (server_peers R) = re_sem R" "pe_send (server_peers R) = re_ipc R" "pe_recv (server_peers R) = re_ipc R"
  "pe_sem (client_peers R cl) = re_sem R" "pe_send (client_peers R cl) = re_ipc R" "pe_recv (client_peers R cl) = re_ipc R"
  "pe_exc (server_peers R) = None" "pe_exc (client_peers R cl) = None"
  by (simp_all add: server_peers_def client_peers_def)

context semaphore
begin

lemma server_hears:
  assumes set: "remote_setting R" and good: "\<forall>x \<in> set calls. good_call R x"
    and dir: "direction_inv cnt (re_ipc R) (is_request R calls) c" "ch_receiver c = R_Handling"
  shows "\<exists>m. drop (length (ch_received c)) (ch_msgs c) = [m] \<and> is_request R calls m \<and>
     handed (server_peers R) c = Some m \<and>
     receive_message (re_ipc R) (pe_slots (server_peers R)) None (c_str (sb_buffer (ch_buf c))) =
       Ok (Delivered (ac_name (re_action R) @ ''_action'') m)"
proof -
  obtain m json where m: "drop (length (ch_received c)) (ch_msgs c) = [m]" "is_request R calls m"
      "ipc_ser (re_ipc R) m = Ok json" "c_str (sb_buffer (ch_buf c)) = c_str json"
    using direction_text [OF dir] by blast
  obtain x where x: "x \<in> set calls" "m = ActionData (re_action R) (fst x) (snd x)"
    using m(2) by (auto simp: is_request_def)
  have g: "good_call R x" using good x(1) by blast
  then have "nul \<notin> set json" using m(3) x(2) by (auto simp: good_call_def call_texts_def)
  then have c: "ipc_con (re_ipc R) (c_str (sb_buffer (ch_buf c))) = Ok (ac_name (re_action R) @ ''_action'', m)"
    using m(3,4) ipc.con_ser [OF request_ok(1) [OF set g]] request_ok(2) [OF set g] x(2) by (simp add: c_str_no_nul)
  have "im_rtti m = ac_action_type (re_action R)" using x(2) by (simp add: ActionData_def)
  then show ?thesis
    using m(1,2) c receive_delivers [OF c, of "pe_slots (server_peers R)"] by (simp add: handed_def server_slots [OF set])
qed

lemma client_hears:
  assumes set: "remote_setting R" and good: "\<forall>x \<in> set calls. good_call R x" and ep: "ai_endpoints cl \<noteq> {}"
    and dir: "direction_inv cnt (re_ipc R) (is_reply R calls) c" "ch_receiver c = R_Handling"
  shows "\<exists>m. drop (length (ch_received c)) (ch_msgs c) = [m] \<and> is_reply R calls m \<and>
     handed (client_peers R cl) c = Some m \<and>
     ipc_con (re_ipc R) (c_str (sb_buffer (ch_buf c))) = Ok (ac_name (re_action R) @ ''_response'', m) \<and>
     im_rtti m = ac_response_type (re_action R)"
proof -
  obtain m json where m: "drop (length (ch_received c)) (ch_msgs c) = [m]" "is_reply R calls m"
      "ipc_ser (re_ipc R) m = Ok json" "c_str (sb_buffer (ch_buf c)) = c_str json"
    using direction_text [OF dir] by blast
  obtain x where x: "x \<in> set calls"
      "serve_action (re_action R) (returns (re_handler R)) (ActionData (re_action R) (fst x) (snd x)) = Ok m"
    using m(2) by (auto simp: is_reply_def)
  have g: "good_call R x" using good x(1) by blast
  then have "nul \<notin> set json" using m(3) x(2) by (auto simp: good_call_def call_texts_def)
  moreover have ok: "ipc_ok (re_ipc R) m" "ipc_tid (re_ipc R) m = ac_name (re_action R) @ ''_response''"
      "im_rtti m = ac_response_type (re_action R)"
    using reply_ok [OF set g] x(2) by auto
  ultimately have c: "ipc_con (re_ipc R) (c_str (sb_buffer (ch_buf c))) = Ok (ac_name (re_action R) @ ''_response'', m)"
    using m(3,4) ipc.con_ser [OF ok(1)] by (simp add: c_str_no_nul)
  then show ?thesis using m(1,2) ok(3) by (simp add: handed_def client_slots [OF set ep])
qed

end

text \<open>The recorded calls of response handlers agree with what the server's handler returned for the call.\<close>

definition answers_match :: "('s, 'n) remote_env \<Rightarrow> (string \<times> tpl) list \<Rightarrow> (string \<times> response_or_error) list \<Rightarrow> bool" where
  "answers_match R calls answers \<longleftrightarrow>
     (\<forall>(ident, r) \<in> set answers. \<exists>p. (ident, p) \<in> set calls \<and> r = caller_view (re_action R) (re_handler R p ident))"

definition remote_inv :: "('s \<Rightarrow> nat) \<Rightarrow> ('s, 'n) remote_env \<Rightarrow> 's remote \<Rightarrow> bool" where
  "remote_inv cnt R s \<longleftrightarrow>
     direction_inv cnt (re_ipc R) (is_request R (rm_issued s)) (rm_req s) \<and>
     direction_inv cnt (re_ipc R) (is_reply R (rm_issued s)) (rm_rsp s) \<and>
     (\<forall>i m. rm_mutex s = Some (i, m) \<longrightarrow> is_request R (rm_issued s) m) \<and>
     (\<forall>m \<in> set (rm_threads s). is_request R (rm_issued s) m) \<and>
     answers_match R (rm_issued s) (ai_calls (rm_client s))"

lemma answers_match_snoc [simp]:
  "answers_match R calls (a @ [(ident, r)]) \<longleftrightarrow>
     answers_match R calls a \<and> (\<exists>p. (ident, p) \<in> set calls \<and> r = caller_view (re_action R) (re_handler R p ident))"
  by (auto simp: answers_match_def)

lemma M_responseHandler_calls:
  "ai_calls (fst (M_responseHandler E A m s)) = ai_calls s \<or>
   ai_calls (fst (M_responseHandler E A m s)) =
     ai_calls s @ [(msg_id m, if er_set (response_error m) then Either_u (response_error m) else Either_v (response_data m))]"
  by (auto simp: M_responseHandler_def Let_def split: option.splits handler_effect.splits)

lemma M_responseHandler_endpoints: "ai_endpoints (fst (M_responseHandler E A m s)) = ai_endpoints s"
  by (auto simp: M_responseHandler_def Let_def split: option.splits handler_effect.splits)

lemma answer_added:
  assumes "remote_setting R" and "\<forall>x \<in> set calls. good_call R x" and "answers_match R calls (ai_calls cl)"
    and "is_reply R calls m"
  shows "answers_match R calls (ai_calls (fst (M_responseHandler E (re_action R) m cl)))"
proof -
  obtain x where x: "x \<in> set calls" and
    m: "serve_action (re_action R) (returns (re_handler R)) (ActionData (re_action R) (fst x) (snd x)) = Ok m"
    using assms(4) by (auto simp: is_reply_def)
  obtain err v where r: "m = \<lparr>im_rtti = ac_response_type (re_action R), im_members = response_members (fst x) err v\<rparr>"
      "(if er_set err then Either_u err else Either_v v) = caller_view (re_action R) (re_handler R (snd x) (fst x))"
    using reply_ok [OF assms(1), of x] assms(2) x m by auto
  then have f: "msg_id m = fst x" "response_error m = err" "response_data m = v" by simp_all
  then have "ai_calls (fst (M_responseHandler E (re_action R) m cl)) \<in>
      {ai_calls cl, ai_calls cl @ [(fst x, caller_view (re_action R) (re_handler R (snd x) (fst x)))]}"
    using M_responseHandler_calls [of E "re_action R" m cl] unfolding f r(2) by simp
  moreover have "\<exists>p. (fst x, p) \<in> set calls \<and>
      caller_view (re_action R) (re_handler R (snd x) (fst x)) = caller_view (re_action R) (re_handler R p (fst x))"
    using x by (intro exI [of _ "snd x"]) simp
  ultimately show ?thesis using assms(3) by auto
qed

lemma answers_match_mono: "answers_match R calls a \<Longrightarrow> answers_match R (calls @ cs) a"
  by (fastforce simp: answers_match_def)

text \<open>Every step is a step of one of the channels, or of the client.\<close>

lemma request_stepE:
  assumes "request_step R ev s = Some t"
  obtains c where "channel_step (server_peers R) (rm_req s) ev = Some c" "rm_req t = c" "rm_rsp t = rm_rsp s"
    "rm_client t = rm_client s" "rm_issued t = rm_issued s" "rm_mutex t = rm_mutex s \<or> rm_mutex t = None"
    "rm_threads t = rm_threads s @ (if ev = Handle then case handed (server_peers R) (rm_req s) of None \<Rightarrow> [] | Some m \<Rightarrow> [m] else [])"
    "living_event (\<lambda>m. \<exists>i. rm_mutex s = Some (i, m)) ev"
  using assms that
  by (cases ev) (auto simp: request_step_def after_send_def Let_def split: option.splits if_splits)

lemma response_stepE:
  assumes "response_step R ev s = Some t"
  obtains c where "channel_step (client_peers R (rm_client s)) (rm_rsp s) ev = Some c" "rm_rsp t = c" "rm_req t = rm_req s"
    "rm_issued t = rm_issued s" "rm_mutex t = rm_mutex s" "rm_threads t = rm_threads s" "living_event (\<lambda>_. False) ev"
    "rm_client t = (case (ev, handed (client_peers R (rm_client s)) (rm_rsp s)) of
        (Handle, Some m) \<Rightarrow> fst (M_responseHandler (ie_throw (re_ipc R)) (re_action R) m (rm_client s))
      | _ \<Rightarrow> rm_client s)"
  using assms that
  by (cases ev) (auto simp: response_step_def Let_def split: option.splits if_splits)

lemma reply_stepE:
  assumes "reply_step R i k s = Some t" and "\<not> rm_down t"
  obtains c r where "k < length (rm_threads s)" "serve_action (re_action R) (returns (re_handler R)) (rm_threads s ! k) = Ok r"
    "channel_step (client_peers R (rm_client s)) (rm_rsp s) (WaitEmpty i r) = Some c"
    "t = s\<lparr>rm_rsp := c, rm_threads := take k (rm_threads s) @ drop (Suc k) (rm_threads s)\<rparr>"
  using assms by (auto simp: reply_step_def split: if_splits outcome.splits)

lemma reply_step_down:
  "reply_step R i k s = Some t \<Longrightarrow> rm_down t \<Longrightarrow> \<not> rm_down s \<Longrightarrow> t = s\<lparr>rm_down := True\<rparr>"
  by (auto simp: reply_step_def split: if_splits outcome.splits)

context semaphore
begin

lemma remote_inv_call:
  assumes set: "remote_setting R" and inv: "remote_inv cnt R s" and st: "remote_call R i ident p k s = Some t"
  shows "remote_inv cnt R t"
proof -
  obtain m where "response_slot (re_ipc R) (re_action R) (rm_client s) = Ok m" using response_slot_ok [OF set] by blast
  then obtain cl where cl: "t = s\<lparr>rm_client := cl, rm_mutex := Some (i, ActionData (re_action R) ident p),
        rm_issued := rm_issued s @ [(ident, p)]\<rparr>" "ai_calls cl = ai_calls (rm_client s)"
    using st by (auto simp: remote_call_def async_def Let_def split: if_splits)
  have "is_request R (rm_issued s @ [(ident, p)]) (ActionData (re_action R) ident p)"
    by (simp add: is_request_def)
  then show ?thesis
    using inv is_request_mono [of R "rm_issued s"] is_reply_mono [of R "rm_issued s"]
      answers_match_mono [of R "rm_issued s"] cl(2)
    by (auto simp: remote_inv_def cl(1) intro: direction_mono)
qed

lemma remote_inv_request:
  assumes set: "remote_setting R" and L: "re_sem R = L" and good: "\<forall>x \<in> set (rm_issued s). good_call R x"
    and inv: "remote_inv cnt R s" and st: "request_step R ev s = Some t"
  shows "remote_inv cnt R t"
  using st
proof (rule request_stepE)
  fix c
  assume c: "channel_step (server_peers R) (rm_req s) ev = Some c" "rm_req t = c" "rm_rsp t = rm_rsp s"
    "rm_client t = rm_client s" "rm_issued t = rm_issued s" "rm_mutex t = rm_mutex s \<or> rm_mutex t = None"
    and th: "rm_threads t = rm_threads s @
      (if ev = Handle then case handed (server_peers R) (rm_req s) of None \<Rightarrow> [] | Some m \<Rightarrow> [m] else [])"
    and ev: "living_event (\<lambda>m. \<exists>i. rm_mutex s = Some (i, m)) ev"
  have dir: "direction_inv cnt (re_ipc R) (is_request R (rm_issued s)) (rm_req s)" using inv by (simp add: remote_inv_def)
  have "living_event (is_request R (rm_issued s)) ev" using ev inv by (cases ev) (auto simp: remote_inv_def)
  then have "direction_inv cnt (re_ipc R) (is_request R (rm_issued s)) c" using direction_step [OF dir _ _ c(1)] L by simp
  moreover have "\<forall>m \<in> set (rm_threads t). is_request R (rm_issued s) m"
  proof (cases "ev = Handle")
    case True
    then have "ch_receiver (rm_req s) = R_Handling" using c(1) by (auto elim: handle_step)
    from server_hears [OF set good dir this] show ?thesis using inv th True by (auto simp: remote_inv_def)
  qed (use inv th in \<open>auto simp: remote_inv_def\<close>)
  ultimately show ?thesis using inv c by (auto simp: remote_inv_def)
qed

lemma remote_inv_reply:
  assumes L: "re_sem R = L" and inv: "remote_inv cnt R s" and st: "reply_step R i k s = Some t" and up: "\<not> rm_down t"
  shows "remote_inv cnt R t"
  using st up
proof (rule reply_stepE)
  fix c r
  assume k: "k < length (rm_threads s)" "serve_action (re_action R) (returns (re_handler R)) (rm_threads s ! k) = Ok r"
    and c: "channel_step (client_peers R (rm_client s)) (rm_rsp s) (WaitEmpty i r) = Some c"
    and t: "t = s\<lparr>rm_rsp := c, rm_threads := take k (rm_threads s) @ drop (Suc k) (rm_threads s)\<rparr>"
  have dir: "direction_inv cnt (re_ipc R) (is_reply R (rm_issued s)) (rm_rsp s)" using inv by (simp add: remote_inv_def)
  have "is_request R (rm_issued s) (rm_threads s ! k)" using inv k(1) by (simp add: remote_inv_def)
  then have "is_reply R (rm_issued s) r" using k(2) by (force simp: is_request_def is_reply_def)
  then have "direction_inv cnt (re_ipc R) (is_reply R (rm_issued s)) c"
    using direction_step [OF dir _ _ c] L by simp
  then show ?thesis using inv by (auto simp: t remote_inv_def dest: in_set_takeD in_set_dropD)
qed

lemma remote_inv_response:
  assumes set: "remote_setting R" and L: "re_sem R = L" and good: "\<forall>x \<in> set (rm_issued s). good_call R x"
    and inv: "remote_inv cnt R s" and st: "response_step R ev s = Some t"
  shows "remote_inv cnt R t"
  using st
proof (rule response_stepE)
  fix c
  assume c: "channel_step (client_peers R (rm_client s)) (rm_rsp s) ev = Some c" "rm_rsp t = c" "rm_req t = rm_req s"
    "rm_issued t = rm_issued s" "rm_mutex t = rm_mutex s" "rm_threads t = rm_threads s" and ev: "living_event (\<lambda>_. False) ev"
    and cl: "rm_client t = (case (ev, handed (client_peers R (rm_client s)) (rm_rsp s)) of
        (Handle, Some m) \<Rightarrow> fst (M_responseHandler (ie_throw (re_ipc R)) (re_action R) m (rm_client s))
      | _ \<Rightarrow> rm_client s)"
  have dir: "direction_inv cnt (re_ipc R) (is_reply R (rm_issued s)) (rm_rsp s)" using inv by (simp add: remote_inv_def)
  have "living_event (is_reply R (rm_issued s)) ev" using ev by (cases ev) auto
  then have d: "direction_inv cnt (re_ipc R) (is_reply R (rm_issued s)) c" using direction_step [OF dir _ _ c(1)] L by simp
  have old: "answers_match R (rm_issued s) (ai_calls (rm_client s))" using inv by (simp add: remote_inv_def)
  have "answers_match R (rm_issued s) (ai_calls (rm_client t))"
  proof (cases "ev = Handle \<and> handed (client_peers R (rm_client s)) (rm_rsp s) \<noteq> None")
    case True
    then have h: "ch_receiver (rm_rsp s) = R_Handling" using c(1) by (auto elim: handle_step)
    have "ai_endpoints (rm_client s) \<noteq> {}" using True by (auto simp: handed_def client_peers_def split: outcome.splits)
    from client_hears [OF set good this dir h] obtain m where
      "handed (client_peers R (rm_client s)) (rm_rsp s) = Some m" "is_reply R (rm_issued s) m" by blast
    then show ?thesis using True cl answer_added [OF set good old] by simp
  qed (use cl old in \<open>auto split: channel_event.splits\<close>)
  then show ?thesis using inv c d by (auto simp: remote_inv_def)
qed

lemma remote_inv_step:
  assumes set: "remote_setting R" and L: "re_sem R = L" and good: "\<forall>x \<in> set (rm_issued t). good_call R x"
    and inv: "remote_inv cnt R s" and st: "actions_step R s e = Some t"
  shows "remote_inv cnt R t"
proof (cases e)
  case (Call i ident p k)
  then show ?thesis using remote_inv_call [OF set inv] st by (simp add: actions_step_def split: if_splits)
next
  case (Request ev)
  then have r: "request_step R ev s = Some t" using st by (simp add: actions_step_def split: if_splits)
  then have "rm_issued t = rm_issued s" by (rule request_stepE)
  then show ?thesis using remote_inv_request [OF set L _ inv r] good by simp
next
  case (Reply i k)
  then have r: "reply_step R i k s = Some t" "\<not> rm_down s" using st by (auto simp: actions_step_def split: if_splits)
  show ?thesis
  proof (cases "rm_down t")
    case True
    then show ?thesis using reply_step_down [OF r(1) True r(2)] inv by (simp add: remote_inv_def)
  qed (use remote_inv_reply [OF L inv r(1)] in simp)
next
  case (Response ev)
  then have r: "response_step R ev s = Some t" using st by (simp add: actions_step_def split: if_splits)
  then have "rm_issued t = rm_issued s" by (rule response_stepE)
  then show ?thesis using remote_inv_response [OF set L _ inv r] good by simp
qed

lemma remote_inv_new:
  "re_sem R = L \<Longrightarrow> length mem = MaxMessageSize \<Longrightarrow> length mem' = MaxMessageSize \<Longrightarrow> remote_inv cnt R (new_remote R mem mem' n k)"
  by (simp add: direction_new remote_inv_def new_remote_def answers_match_def new_action_state_def)

end

lemma remote_issued_mono:
  assumes "actions_step R s e = Some t"
  shows "\<exists>cs. rm_issued t = rm_issued s @ cs"
proof (cases e)
  case (Call i ident p k)
  then show ?thesis using assms
    by (auto simp: actions_step_def remote_call_def async_def Let_def split: if_splits outcome.splits)
next
  case (Reply i k)
  then show ?thesis using assms by (auto simp: actions_step_def reply_step_def split: if_splits outcome.splits)
qed (use assms in \<open>auto simp: actions_step_def elim!: request_stepE response_stepE split: if_splits\<close>)

lemma remote_exec_issued: "exec (actions_step R) s es = Some t \<Longrightarrow> set (rm_issued s) \<subseteq> set (rm_issued t)"
proof (induction es arbitrary: s)
  case (Cons e es)
  then obtain u where "actions_step R s e = Some u" "exec (actions_step R) u es = Some t" by (auto split: option.splits)
  then show ?case using Cons.IH remote_issued_mono by fastforce
qed simp

lemma remote_exec_inv:
  assumes "remote_setting R" and sem: "semaphore (re_sem R) cnt" and "remote_inv cnt R s"
    and "exec (actions_step R) s es = Some t" and "\<forall>x \<in> set (rm_issued t). good_call R x"
  shows "remote_inv cnt R t"
  using assms(3,4)
proof (induction es arbitrary: s)
  case (Cons e es)
  then obtain u where u: "actions_step R s e = Some u" "exec (actions_step R) u es = Some t" by (auto split: option.splits)
  have "\<forall>x \<in> set (rm_issued u). good_call R x" using remote_exec_issued [OF u(2)] assms(5) by blast
  then have "remote_inv cnt R u" using semaphore.remote_inv_step [OF sem assms(1) refl _ Cons.prems(1) u(1)] by blast
  then show ?case using Cons.IH u(2) by blast
qed simp

section \<open>An example\<close>

definition add_handler :: "tpl \<Rightarrow> string \<Rightarrow> response_or_error" where
  "add_handler p ident = Either_v [(''sum'', EInt (tpl_int p ''a'' 0 + tpl_int p ''b'' 0))]"

definition add_env :: "jnode ipc_env" where
  "add_env = demo_env\<lparr>ie_factory := (case Internals no_throw_env add_action new_factory of Ok F \<Rightarrow> F | _ \<Rightarrow> new_factory)\<rparr>"

definition add_remote :: "(nat, jnode) remote_env" where
  "add_remote = \<lparr>re_sem = nat_sem, re_ipc = add_env, re_action = add_action, re_handler = add_handler\<rparr>"

definition add_call :: "string \<times> tpl" where
  "add_call = (''7F'', [(''a'', EInt 2), (''b'', EInt 3)])"

lemma add_remote_sel [simp]:
  "re_sem add_remote = nat_sem" "re_ipc add_remote = add_env" "re_action add_remote = add_action"
  "re_handler add_remote = add_handler"
  by (simp_all add: add_remote_def)

lemma add_setting: "remote_setting add_remote"
proof -
  obtain F where F: "Internals no_throw_env add_action new_factory = Ok F"
    by (simp add: Internals_def registerMessageType_def new_factory_def add_action_def)
  have "json_library (ie_json add_env)" "ie_throw add_env = no_throw_env" "ie_factory add_env = F"
    using ref.json_library_axioms F by (simp_all add: add_env_def demo_env_def)
  then show ?thesis using F by (auto simp: remote_setting_def add_action_def struct_value_def)
qed

definition text_ok :: "(string \<Rightarrow> bool) \<Rightarrow> string res \<Rightarrow> bool" where
  "text_ok good r = (case r of Ok s \<Rightarrow> good s | _ \<Rightarrow> True)"

lemma text_okD: "text_ok good r \<Longrightarrow> r = Ok s \<Longrightarrow> good s"
  by (simp add: text_ok_def)

lemma add_texts:
  "text_ok (\<lambda>s. list_all (\<lambda>c. c \<noteq> nul) s \<and> length s < 1000) (ipc_ser add_env (ActionData add_action (fst add_call) (snd add_call)))"
  "text_ok (\<lambda>s. list_all (\<lambda>c. c \<noteq> nul) s \<and> length s < 1000)
     (obind (serve_action add_action (returns add_handler) (ActionData add_action (fst add_call) (snd add_call))) (ipc_ser add_env))"
  by code_simp+

lemma add_call_texts:
  assumes "\<And>s. list_all (\<lambda>c. c \<noteq> nul) s \<Longrightarrow> length s < 1000 \<Longrightarrow> good s"
  shows "call_texts add_remote add_call good"
proof -
  have "good s" if "m = ActionData add_action (fst add_call) (snd add_call) \<or>
      serve_action add_action (returns add_handler) (ActionData add_action (fst add_call) (snd add_call)) = Ok m"
    "ipc_ser add_env m = Ok s" for m s
    using that(1)
  proof
    assume "m = ActionData add_action (fst add_call) (snd add_call)"
    then show ?thesis using text_okD [OF add_texts(1)] that(2) assms by blast
  next
    assume "serve_action add_action (returns add_handler) (ActionData add_action (fst add_call) (snd add_call)) = Ok m"
    then have "obind (serve_action add_action (returns add_handler) (ActionData add_action (fst add_call) (snd add_call))) (ipc_ser add_env) = Ok s"
      using that(2) by simp
    then show ?thesis using text_okD [OF add_texts(2)] assms by blast
  qed
  then show ?thesis unfolding call_texts_def by auto
qed

lemma add_good: "good_call add_remote add_call"
proof -
  have "call_texts add_remote add_call (\<lambda>s. nul \<notin> set s)"
    by (rule add_call_texts) (auto simp: list_all_iff)
  moreover have "good_result add_action (add_handler (snd add_call) (fst add_call))"
    by (auto simp: good_result_def add_handler_def add_action_def struct_value_def)
  moreover have "struct_value (ac_params add_action) (snd add_call)"
    by (simp add: add_action_def struct_value_def add_call_def)
  ultimately show ?thesis by (simp add: good_call_def)
qed

lemma add_view: "caller_view add_action (add_handler (snd add_call) (fst add_call)) = Either_v [(''sum'', EInt 5)]"
  by (simp add: add_handler_def add_call_def tpl_int_def)

text \<open>The first step of a run: one call.\<close>

lemma add_call_step:
  "\<exists>s. actions_step add_remote (new_remote add_remote zeros zeros 1 1) (Call 0 (fst add_call) (snd add_call) (\<lambda>_ _. H_Returns)) = Some s \<and>
     rm_issued s = [add_call]"
proof -
  obtain m where m: "response_slot add_env add_action new_action_state = Ok m"
    using response_slot_ok [OF add_setting] by auto
  show ?thesis
    by (simp add: actions_step_def remote_call_def new_remote_def sender_at_def new_channel_def async_def m Let_def)
qed

end
