(* ===== verification/Ipc_Progress.thy ===== *)
theory Ipc_Progress
  imports Ipc_Remote
begin

text \<open>
  Actions between two processes come to an end (\<^verbatim>\<open>Ipc_Remote\<close>): from every state that calls with fitting messages and
  returning handlers reach, every call made can be answered, although callers hold the mutex of the action
  class while they wait for the buffer. The proof is a rank of the work left that some enabled step lowers.
\<close>

section \<open>Work left in one direction\<close>

text \<open>\<open>w\<close> is the work that a message causes after it was handled.\<close>

fun s_rank :: "nat \<Rightarrow> sender \<Rightarrow> nat" where
  "s_rank w S_Idle = 0"
| "s_rank w (S_Entered m) = w + 9"
| "s_rank w (S_Writing m) = w + 8"
| "s_rank w S_Written = w + 7"
| "s_rank w S_Unlocked = w + 6"

fun r_rank :: "nat \<Rightarrow> receiver \<Rightarrow> nat" where
  "r_rank w R_Locking = w + 4"
| "r_rank w R_Handling = w + 3"
| "r_rank w (R_Posting b) = 2"
| "r_rank w (R_Signalling b) = 1"
| "r_rank w _ = 0"

definition chan_rank :: "('s \<Rightarrow> nat) \<Rightarrow> nat \<Rightarrow> 's channel \<Rightarrow> nat" where
  "chan_rank cnt w c = weight (s_rank w) (ch_senders c) + (w + 5) * cnt (sb_full (ch_buf c)) + r_rank w (ch_receiver c)"

fun internal_event :: "channel_event \<Rightarrow> bool" where
  "internal_event (WaitEmpty i m) = False"
| "internal_event ShutdownFlag = False"
| "internal_event ShutdownPost = False"
| "internal_event Join = False"
| "internal_event Reopen = False"
| "internal_event _ = True"

lemma weight_0: "weight f xs = 0 \<longleftrightarrow> (\<forall>x \<in> set xs. f x = 0)"
  by (auto simp: weight_def)

lemma s_rank_0 [simp]: "s_rank w x = 0 \<longleftrightarrow> x = S_Idle"
  by (cases x) auto

lemma senders_length: "channel_step P c e = Some d \<Longrightarrow> length (ch_senders d) = length (ch_senders c)"
  by (cases e) (auto simp: channel_step_def channel_steps split: if_splits)

lemma living_internal: "internal_event e \<Longrightarrow> living_event Q e"
  by (cases e) auto

context semaphore
begin

lemma sender_rank:
  assumes "sender_at c i = Some v" and "ch_senders d = (ch_senders c)[i := v']"
    and "sb_full (ch_buf d) = sb_full (ch_buf c)" and "ch_receiver d = ch_receiver c"
  shows "chan_rank cnt w d + s_rank w v = chan_rank cnt w c + s_rank w v'"
  using weight_update [of i "ch_senders c" "s_rank w" v'] assms by (simp add: chan_rank_def sender_at_Some)

lemma rank_WaitEmpty:
  assumes "channel_step P c (WaitEmpty i m) = Some d"
  shows "chan_rank cnt w d = chan_rank cnt w c + w + 9"
proof -
  have "sender_at c i = Some S_Idle" "ch_senders d = (ch_senders c)[i := S_Entered m]"
      "sb_full (ch_buf d) = sb_full (ch_buf c)" "ch_receiver d = ch_receiver c"
    using assms by (auto simp: channel_step_def channel_steps split: if_splits)
  from sender_rank [OF this, of w] show ?thesis by simp
qed

lemma rank_Handle:
  assumes "channel_step P c Handle = Some d" and "\<not> ch_terminated d" and "flag_inv c" and "ch_destructor c = D_None"
  shows "chan_rank cnt w d + w + 1 = chan_rank cnt w c"
  using assms(1)
  by (cases rule: handle_step) (use assms(2-4) in \<open>auto simp: chan_rank_def flag_inv_def\<close>)

lemma rank_internal:
  assumes L: "pe_sem P = L" and step: "channel_step P c e = Some d" and e: "internal_event e" "e \<noteq> Handle"
    and ok: "ch_errors d = ch_errors c"
  shows "chan_rank cnt w d < chan_rank cnt w c"
proof (cases e)
  case (LockSend i)
  then obtain m where "sender_at c i = Some (S_Entered m)" "ch_senders d = (ch_senders c)[i := S_Writing m]"
      "sb_full (ch_buf d) = sb_full (ch_buf c)" "ch_receiver d = ch_receiver c"
    using step by (auto simp: channel_step_def channel_steps split: if_splits)
  from sender_rank [OF this, of w] show ?thesis by simp
next
  case (Write i)
  then have "channel_step P c (Write i) = Some d" using step by simp
  then show ?thesis
  proof (cases rule: write_step)
    case (written m str b)
    then have "ch_senders d = (ch_senders c)[i := S_Written]"
        "sb_full (ch_buf d) = sb_full (ch_buf c)" "ch_receiver d = ch_receiver c" by simp_all
    from sender_rank [OF written(1) this, of w] show ?thesis by simp
  qed (use ok in simp)
next
  case (UnlockSend i)
  then have "sender_at c i = Some S_Written" "ch_senders d = (ch_senders c)[i := S_Unlocked]"
      "sb_full (ch_buf d) = sb_full (ch_buf c)" "ch_receiver d = ch_receiver c"
    using step by (auto simp: channel_step_def channel_steps split: if_splits)
  from sender_rank [OF this, of w] show ?thesis by simp
next
  case (PostFull i)
  then show ?thesis using step weight_update [of i "ch_senders c" "s_rank w" S_Idle]
    by (auto simp: channel_step_def channel_steps chan_rank_def sender_at_Some L cnt_post split: if_splits)
qed (use step e in \<open>auto simp: channel_step_def channel_steps chan_rank_def L dest!: wait_Some split: if_splits\<close>)

text \<open>A direction with work left has a step to make.\<close>

lemma sender_active:
  assumes L: "pe_sem P = L" and inv: "chan_inv cnt c" "ch_posts c = 0" "ch_errors c = []" "\<not> ch_terminated c"
    and i: "sender_at c i = Some v" "v \<noteq> S_Idle"
    and wr: "\<And>m. v = S_Writing m \<Longrightarrow> \<exists>t b. write_message (pe_send P) m (sb_buffer (ch_buf c)) = Ok (t, b)"
  shows "\<exists>e d. channel_step P c e = Some d \<and> internal_event e"
proof (cases v)
  case (S_Entered m)
  have one: "weight s_slot (ch_senders c) \<le> 1" "r_slot (ch_receiver c) + weight s_slot (ch_senders c) \<le> 1"
    using inv unfolding chan_inv_def slot_inv_def by (simp_all add: lost_tokens_def)
  have "weight s_slot ((ch_senders c)[i := S_Idle]) = 0" and r: "r_slot (ch_receiver c) = 0"
    using weight_update [of i "ch_senders c" s_slot S_Idle] i S_Entered one
      weight_member [of "S_Entered m" "ch_senders c" s_slot]
    by (auto simp: sender_at_Some in_set_conv_nth)
  then have "weight s_mutex ((ch_senders c)[i := S_Idle]) = 0"
    using weight_mono [of s_mutex s_slot "(ch_senders c)[i := S_Idle]", OF s_mutex_slot] by simp
  then have "weight s_mutex (ch_senders c) = 0"
    using weight_update [of i "ch_senders c" s_mutex S_Idle] i S_Entered by (simp add: sender_at_Some)
  moreover have "r_mutex (ch_receiver c) = 0" using r r_mutex_slot [of "ch_receiver c"] by simp
  ultimately have "0 < cnt (sb_mutex (ch_buf c))"
    using inv unfolding chan_inv_def lock_inv_def by (simp add: lost_tokens_def)
  then obtain t where "sl_wait L (sb_mutex (ch_buf c)) = Some t" using wait_pos by blast
  then show ?thesis using L inv(4) i S_Entered
    by (intro exI [of _ "LockSend i"]) (simp add: channel_step_def send_wait_mutex_def)
next
  case (S_Writing m)
  then obtain t b where "write_message (pe_send P) m (sb_buffer (ch_buf c)) = Ok (t, b)" using wr by blast
  then show ?thesis using inv(4) i S_Writing
    by (intro exI [of _ "Write i"]) (simp add: channel_step_def send_write_def)
next
  case S_Written
  then show ?thesis using inv(4) i by (intro exI [of _ "UnlockSend i"]) (simp add: channel_step_def send_post_mutex_def)
next
  case S_Unlocked
  then show ?thesis using inv(4) i by (intro exI [of _ "PostFull i"]) (simp add: channel_step_def send_post_full_def)
qed (use i in simp)

lemma receiver_active:
  assumes L: "pe_sem P = L" and inv: "chan_inv cnt c" "ch_posts c = 0" "ch_errors c = []" "\<not> ch_terminated c"
    "ch_destructor c = D_None"
    and r: "ch_receiver c \<noteq> R_Waiting \<or> 0 < cnt (sb_full (ch_buf c))"
  shows "\<exists>e d. channel_step P c e = Some d \<and> internal_event e"
proof (cases "ch_receiver c")
  case R_Waiting
  then obtain t where "sl_wait L (sb_full (ch_buf c)) = Some t" using r wait_pos by blast
  then show ?thesis using L inv(4) R_Waiting by (intro exI [of _ WaitFull]) (simp add: channel_step_def recv_wait_full_def)
next
  case R_Locking
  have "weight s_slot (ch_senders c) = 0" using inv R_Locking unfolding chan_inv_def slot_inv_def by simp
  then have "weight s_mutex (ch_senders c) = 0"
    using weight_mono [of s_mutex s_slot "ch_senders c", OF s_mutex_slot] by simp
  then have "0 < cnt (sb_mutex (ch_buf c))" using inv R_Locking unfolding chan_inv_def lock_inv_def by simp
  then obtain t where "sl_wait L (sb_mutex (ch_buf c)) = Some t" using wait_pos by blast
  then show ?thesis using L inv(4) R_Locking
    by (intro exI [of _ LockReceive]) (simp add: channel_step_def recv_wait_mutex_def)
next
  case R_Handling
  have "\<exists>d. recv_handle P c = Some d" using R_Handling by (auto simp: recv_handle_def Let_def split: outcome.split)
  then show ?thesis using inv(4) by (intro exI [of _ Handle]) (simp add: channel_step_def)
next
  case (R_Posting b)
  then show ?thesis using inv(4) by (intro exI [of _ UnlockReceive]) (simp add: channel_step_def recv_post_mutex_def)
next
  case (R_Signalling b)
  then show ?thesis using inv(4) by (intro exI [of _ PostEmpty]) (simp add: channel_step_def recv_post_empty_def)
next
  case R_Done
  then show ?thesis using inv unfolding chan_inv_def flag_inv_def by simp
qed

lemma channel_active:
  assumes L: "pe_sem P = L" and inv: "chan_inv cnt c" "ch_posts c = 0" "ch_errors c = []" "\<not> ch_terminated c"
    "ch_destructor c = D_None"
    and wr: "\<And>m. S_Writing m \<in> set (ch_senders c) \<Longrightarrow>
      \<exists>t b. write_message (pe_send P) m (sb_buffer (ch_buf c)) = Ok (t, b)"
    and rank: "0 < chan_rank cnt w c"
  shows "\<exists>e d. channel_step P c e = Some d \<and> internal_event e"
proof (cases "\<exists>v \<in> set (ch_senders c). v \<noteq> S_Idle")
  case True
  then obtain v where v: "v \<in> set (ch_senders c)" "v \<noteq> S_Idle" by blast
  then obtain i where i: "sender_at c i = Some v" by (auto simp: sender_at_Some in_set_conv_nth)
  then show ?thesis using sender_active [OF L inv(1-4) i v(2)] wr v(1) by blast
next
  case False
  then have "weight (s_rank w) (ch_senders c) = 0" by (simp add: weight_0)
  then have "ch_receiver c \<noteq> R_Waiting \<or> 0 < cnt (sb_full (ch_buf c))"
    using rank by (auto simp: chan_rank_def)
  then show ?thesis using receiver_active [OF L inv] by blast
qed

text \<open>A direction without work left can take the next message.\<close>

lemma channel_free:
  assumes L: "pe_sem P = L" and inv: "chan_inv cnt c" "ch_posts c = 0" "ch_errors c = []" "\<not> ch_terminated c"
    "ch_destructor c = D_None"
    and rank: "chan_rank cnt w c = 0" and i: "i < length (ch_senders c)"
  shows "sender_at c i = Some S_Idle \<and> (\<exists>d. channel_step P c (WaitEmpty i m) = Some d)"
proof -
  have idle: "\<forall>v \<in> set (ch_senders c). v = S_Idle" using rank by (simp add: chan_rank_def weight_0)
  then have at: "sender_at c i = Some S_Idle" using i by (simp add: sender_at_Some)
  have "r_slot (ch_receiver c) = 0"
    using rank inv(1,5) by (cases "ch_receiver c") (auto simp: chan_rank_def chan_inv_def flag_inv_def)
  moreover have "weight s_slot (ch_senders c) = 0" using idle by (simp add: weight_slot_0)
  moreover have "cnt (sb_full (ch_buf c)) = 0" using rank by (simp add: chan_rank_def)
  ultimately have "0 < cnt (sb_empty (ch_buf c))"
    using inv unfolding chan_inv_def slot_inv_def by (simp add: lost_tokens_def)
  then obtain t where "sl_wait L (sb_empty (ch_buf c)) = Some t" using wait_pos by blast
  then show ?thesis using at inv(4) L by (simp add: channel_step_def send_wait_empty_def)
qed

end

section \<open>Where a message is\<close>

definition under_way :: "'s channel \<Rightarrow> ipc_message \<Rightarrow> bool" where
  "under_way c m \<longleftrightarrow>
     S_Entered m \<in> set (ch_senders c) \<or> S_Writing m \<in> set (ch_senders c) \<or>
     m \<in> set (drop (length (ch_received c)) (ch_msgs c))"

lemma set_update_keep: "x \<in> set xs \<Longrightarrow> x \<noteq> xs ! i \<Longrightarrow> x \<in> set (xs[i := v])"
  by (metis in_set_conv_nth length_list_update nth_list_update_neq)

lemma set_drop_append: "x \<in> set (drop n xs) \<Longrightarrow> x \<in> set (drop n (xs @ ys))"
  by simp

lemma under_way_step:
  assumes "channel_step P c e = Some d" and "internal_event e" and "e \<noteq> Handle" and "ch_errors d = ch_errors c"
    and "length (ch_received c) \<le> length (ch_msgs c)" and "under_way c m"
  shows "under_way d m"
proof (cases e)
  case (LockSend i)
  then obtain m' where "sender_at c i = Some (S_Entered m')" "ch_senders d = (ch_senders c)[i := S_Writing m']"
      "ch_msgs d = ch_msgs c" "ch_received d = ch_received c"
    using assms(1) by (auto simp: channel_step_def channel_steps split: if_splits)
  then show ?thesis using assms(6) set_update_keep [of _ "ch_senders c" i "S_Writing m'"] set_update_memI [of i "ch_senders c"]
    by (cases "m = m'") (auto simp: under_way_def sender_at_Some)
next
  case (Write i)
  then have "channel_step P c (Write i) = Some d" using assms(1) by simp
  then show ?thesis
  proof (cases rule: write_step)
    case (written m' str b)
    then have d: "ch_senders d = (ch_senders c)[i := S_Written]" "ch_msgs d = ch_msgs c @ [m']" "ch_received d = ch_received c"
      by simp_all
    then show ?thesis using assms(5,6) written(1) set_update_keep [of _ "ch_senders c" i S_Written]
      by (cases "m = m'") (auto simp: under_way_def sender_at_Some)
  qed (use assms(4) in simp)
next
  case (UnlockSend i)
  then show ?thesis using assms(1,6) set_update_keep [of _ "ch_senders c" i S_Unlocked]
    by (auto simp: channel_step_def channel_steps under_way_def sender_at_Some split: if_splits)
next
  case (PostFull i)
  then show ?thesis using assms(1,6) set_update_keep [of _ "ch_senders c" i S_Idle]
    by (auto simp: channel_step_def channel_steps under_way_def sender_at_Some split: if_splits)
qed (use assms in \<open>auto simp: channel_step_def channel_steps under_way_def split: if_splits\<close>)

lemma under_way_enter:
  assumes "channel_step P c (WaitEmpty i m) = Some d"
  shows "under_way d m" and "under_way c m' \<Longrightarrow> under_way d m'"
proof -
  have d: "sender_at c i = Some S_Idle" "ch_senders d = (ch_senders c)[i := S_Entered m]" "ch_msgs d = ch_msgs c"
      "ch_received d = ch_received c"
    using assms by (auto simp: channel_step_def channel_steps split: if_splits)
  then show "under_way d m" by (auto simp: under_way_def sender_at_Some intro: set_update_memI)
  show "under_way c m' \<Longrightarrow> under_way d m'"
    using d set_update_keep [of _ "ch_senders c" i "S_Entered m"] by (auto simp: under_way_def sender_at_Some)
qed

lemma under_way_handle:
  assumes "channel_step P c Handle = Some d" and "drop (length (ch_received c)) (ch_msgs c) = [m0]"
    and "\<not> ch_terminated d" and "flag_inv c" and "ch_destructor c = D_None" and "under_way c m"
  shows "m = m0 \<or> under_way d m"
  using assms(1)
  by (cases rule: handle_step) (use assms(2-6) in \<open>auto simp: under_way_def flag_inv_def\<close>)

text \<open>Nothing is under way in a direction without work left.\<close>

context semaphore
begin

lemma idle_nothing_under_way:
  assumes "direction_inv cnt V Q c" and "chan_rank cnt w c = 0"
  shows "\<not> under_way c m"
proof -
  have idle: "\<forall>v \<in> set (ch_senders c). v = S_Idle" and full: "cnt (sb_full (ch_buf c)) = 0"
    and r: "r_rank w (ch_receiver c) = 0"
    using assms(2) by (auto simp: chan_rank_def weight_0)
  have "s_flight S_Idle = 0" by simp
  then have "weight s_flight (ch_senders c) = 0" using idle unfolding weight_0 by metis
  moreover have "r_flight (ch_receiver c) = 0" using r by (cases "ch_receiver c") auto
  ultimately have "ch_sent c = ch_received c"
    using assms(1) full by (simp add: direction_inv_def chan_inv_def data_inv_def flight_def)
  moreover have "length (ch_msgs c) = length (ch_sent c)"
    using assms(1) by (auto simp: direction_inv_def dest: list_all2_lengthD)
  ultimately show ?thesis using idle by (auto simp: under_way_def)
qed

lemma direction_received: "direction_inv cnt V Q c \<Longrightarrow> length (ch_received c) \<le> length (ch_msgs c)"
  by (auto simp: direction_inv_def chan_inv_def data_inv_def dest!: list_all2_lengthD split: if_splits)

end

section \<open>Calls that can be answered\<close>

text \<open>The messages of a call fit into the buffer.\<close>

definition fitting_call :: "('s, 'n) remote_env \<Rightarrow> string \<times> tpl \<Rightarrow> bool" where
  "fitting_call R x \<longleftrightarrow> good_call R x \<and> call_texts R x (\<lambda>s. length s < MaxMessageSize)"

fun fitting_event :: "('s, 'n) remote_env \<Rightarrow> remote_event \<Rightarrow> bool" where
  "fitting_event R (Call i ident p k) = (fitting_call R (ident, p) \<and> (\<forall>r j. k r j = H_Returns))"
| "fitting_event R _ = True"

definition located :: "('s, 'n) remote_env \<Rightarrow> 's remote \<Rightarrow> string \<Rightarrow> bool" where
  "located R s ident \<longleftrightarrow>
     ident \<in> fst ` set (ai_calls (rm_client s)) \<or>
     (\<exists>i m. rm_mutex s = Some (i, m) \<and> sender_at (rm_req s) i = Some S_Idle \<and> msg_id m = ident) \<or>
     (\<exists>m. under_way (rm_req s) m \<and> msg_id m = ident) \<or>
     (\<exists>m \<in> set (rm_threads s). msg_id m = ident) \<or>
     (\<exists>m. under_way (rm_rsp s) m \<and> msg_id m = ident)"

lemma locatedI:
  "ident \<in> fst ` set (ai_calls (rm_client s)) \<Longrightarrow> located R s ident"
  "rm_mutex s = Some (i, m) \<Longrightarrow> sender_at (rm_req s) i = Some S_Idle \<Longrightarrow> located R s (msg_id m)"
  "under_way (rm_req s) m \<Longrightarrow> located R s (msg_id m)"
  "m \<in> set (rm_threads s) \<Longrightarrow> located R s (msg_id m)"
  "under_way (rm_rsp s) m \<Longrightarrow> located R s (msg_id m)"
  unfolding located_def by blast+

lemma located_transfer:
  assumes "located R s ident"
    and "\<And>j. j \<in> fst ` set (ai_calls (rm_client s)) \<Longrightarrow> located R t j"
    and "\<And>i m. rm_mutex s = Some (i, m) \<Longrightarrow> sender_at (rm_req s) i = Some S_Idle \<Longrightarrow> located R t (msg_id m)"
    and "\<And>m. under_way (rm_req s) m \<Longrightarrow> located R t (msg_id m)"
    and "\<And>m. m \<in> set (rm_threads s) \<Longrightarrow> located R t (msg_id m)"
    and "\<And>m. under_way (rm_rsp s) m \<Longrightarrow> located R t (msg_id m)"
  shows "located R t ident"
  using assms(1) unfolding located_def [of R s] by (elim disjE exE conjE bexE) (use assms(2-6) in blast)+

definition client_ready :: "(string \<times> tpl) list \<Rightarrow> action_state \<Rightarrow> bool" where
  "client_ready calls cl \<longleftrightarrow>
     (calls \<noteq> [] \<longrightarrow> ai_endpoints cl \<noteq> {}) \<and>
     (\<forall>i h. ai_active_handlers cl i = Some h \<longrightarrow> (\<forall>r j. h r j = H_Returns)) \<and>
     (\<forall>x \<in> set calls. ai_active_handlers cl (fst x) \<noteq> None \<or> fst x \<in> fst ` set (ai_calls cl))"

definition answerable :: "('s \<Rightarrow> nat) \<Rightarrow> ('s, 'n) remote_env \<Rightarrow> 's remote \<Rightarrow> bool" where
  "answerable cnt R s \<longleftrightarrow>
     remote_inv cnt R s \<and> \<not> rm_down s \<and> ch_errors (rm_req s) = [] \<and> ch_errors (rm_rsp s) = [] \<and>
     \<not> ch_terminated (rm_req s) \<and> \<not> ch_terminated (rm_rsp s) \<and> ch_senders (rm_rsp s) \<noteq> [] \<and>
     (\<forall>i m. rm_mutex s = Some (i, m) \<longrightarrow> i < length (ch_senders (rm_req s))) \<and>
     (\<forall>x \<in> set (rm_issued s). fitting_call R x) \<and> client_ready (rm_issued s) (rm_client s) \<and>
     (\<forall>x \<in> set (rm_issued s). located R s (fst x))"

lemma answerable_good: "answerable cnt R s \<Longrightarrow> \<forall>x \<in> set (rm_issued s). good_call R x"
  by (simp add: answerable_def fitting_call_def)

lemma fitting_good: "fitting_call R x \<Longrightarrow> good_call R x"
  by (simp add: fitting_call_def)

text \<open>A response handler that returns: the identifier is answered, whether it was waited for or not.\<close>

lemma M_responseHandler_ready:
  assumes "client_ready calls cl" and "x \<in> set calls" and "msg_id m = fst x"
  shows "client_ready calls (fst (M_responseHandler E A m cl))"
    and "fst x \<in> fst ` set (ai_calls (fst (M_responseHandler E A m cl)))"
    and "ident \<in> fst ` set (ai_calls cl) \<Longrightarrow> ident \<in> fst ` set (ai_calls (fst (M_responseHandler E A m cl)))"
    and "snd (M_responseHandler E A m cl) = Ok () \<or>
      (\<exists>e. snd (M_responseHandler E A m cl) = Throw (CoreExc e) \<and> exc_cls e = BadActionId)"
proof -
  have "client_ready calls (fst (M_responseHandler E A m cl)) \<and>
      fst x \<in> fst ` set (ai_calls (fst (M_responseHandler E A m cl))) \<and>
      (ident \<in> fst ` set (ai_calls cl) \<longrightarrow> ident \<in> fst ` set (ai_calls (fst (M_responseHandler E A m cl)))) \<and>
      (snd (M_responseHandler E A m cl) = Ok () \<or>
      (\<exists>e. snd (M_responseHandler E A m cl) = Throw (CoreExc e) \<and> exc_cls e = BadActionId))"
  proof (cases "ai_active_handlers cl (fst x)")
    case None
    then have "fst x \<in> fst ` set (ai_calls cl)" using assms(1,2) by (auto simp: client_ready_def)
    then show ?thesis using None assms by (simp add: M_responseHandler_def outcome_simps)
  next
    case (Some h)
    then have ret: "h r j = H_Returns" for r j using assms(1) by (auto simp: client_ready_def)
    obtain roe where "M_responseHandler E A m cl = (cl\<lparr>ai_calls := ai_calls cl @ [(fst x, roe)],
        ai_active_handlers := (ai_active_handlers cl)(fst x := None)\<rparr>, Ok ())"
      using Some assms(3) by (simp add: M_responseHandler_def Let_def ret)
    then show ?thesis using assms(1,2) by (auto simp: client_ready_def)
  qed
  then show "client_ready calls (fst (M_responseHandler E A m cl))"
    and "fst x \<in> fst ` set (ai_calls (fst (M_responseHandler E A m cl)))"
    and "ident \<in> fst ` set (ai_calls cl) \<Longrightarrow> ident \<in> fst ` set (ai_calls (fst (M_responseHandler E A m cl)))"
    and "snd (M_responseHandler E A m cl) = Ok () \<or>
      (\<exists>e. snd (M_responseHandler E A m cl) = Throw (CoreExc e) \<and> exc_cls e = BadActionId)"
    by blast+
qed

lemma client_round_returns:
  assumes "remote_setting R" and "ai_endpoints cl \<noteq> {}"
    and "ipc_con (re_ipc R) t = Ok (ac_name (re_action R) @ ''_response'', m)" and "im_rtti m = ac_response_type (re_action R)"
    and "snd (M_responseHandler (ie_throw (re_ipc R)) (re_action R) m cl) = Ok () \<or>
      (\<exists>e. snd (M_responseHandler (ie_throw (re_ipc R)) (re_action R) m cl) = Throw (CoreExc e) \<and> exc_cls e = BadActionId)"
  shows "\<exists>r. receive_message (re_ipc R) (pe_slots (client_peers R cl)) None t = Ok r"
  using assms(3-5)
  by (auto simp: receive_message_def client_slots [OF assms(1,2)] call_slot_def outcome_simps is_a_def)

section \<open>Steps keep calls answerable\<close>

lemma idle_stays:
  assumes "channel_step P c e = Some d" and "sender_at c i = Some S_Idle" and "\<nexists>m. e = WaitEmpty i m"
  shows "sender_at d i = Some S_Idle"
  using assms
  by (cases e)
    (auto simp: channel_step_def channel_steps sender_at_Some nth_list_update split: if_splits)

lemma request_mutex:
  assumes "request_step R ev s = Some t" and "rm_mutex s = Some (i, m)" and "sender_at (rm_req s) i = Some S_Idle"
  shows "ev = WaitEmpty i m \<or> (rm_mutex t = Some (i, m) \<and> sender_at (rm_req t) i = Some S_Idle)"
proof (cases "\<exists>m. ev = WaitEmpty i m")
  case True
  then show ?thesis using assms(1,2) by (auto simp: request_step_def Let_def split: option.splits if_splits)
next
  case False
  obtain c where c: "channel_step (server_peers R) (rm_req s) ev = Some c" "rm_req t = c"
    using assms(1) by (rule request_stepE)
  have "sender_at c i = Some S_Idle" using idle_stays [OF c(1) assms(3)] False by blast
  moreover have "rm_mutex t = Some (i, m)"
  proof -
    have "ev \<noteq> Write i" "ev \<noteq> PostFull i"
      using c(1) assms(3) by (auto simp: channel_step_def send_write_def send_post_full_def split: if_splits)
    then show ?thesis using assms(1,2) by (cases ev) (auto simp: request_step_def after_send_def Let_def split: option.splits if_splits)
  qed
  ultimately show ?thesis using c(2) by simp
qed

lemma request_down:
  assumes "request_step R ev s = Some t" and "\<not> rm_down s"
  shows "rm_down t \<longleftrightarrow> ev = Handle \<and> ch_terminated (rm_req t)"
  using assms by (cases ev) (auto simp: request_step_def after_send_def Let_def split: option.splits if_splits)

lemma response_down:
  assumes "response_step R ev s = Some t" and "\<not> rm_down s"
  shows "rm_down t \<longleftrightarrow> (ev = Handle \<and> ch_terminated (rm_rsp t)) \<or>
    ((\<exists>i. ev = Write i) \<and> ch_errors (rm_rsp t) \<noteq> ch_errors (rm_rsp s))"
  using assms by (cases ev) (auto simp: response_step_def Let_def split: option.splits if_splits)

lemma errors_step:
  assumes "channel_step P c e = Some d" and "\<And>m i. sender_at c i = Some (S_Writing m) \<Longrightarrow>
      \<exists>t b. write_message (pe_send P) m (sb_buffer (ch_buf c)) = Ok (t, b)"
  shows "ch_errors d = ch_errors c"
proof (cases "\<exists>i. e = Write i")
  case True
  then obtain i where "channel_step P c (Write i) = Some d" using assms(1) by blast
  then show ?thesis using assms(2) by (cases rule: write_step) fastforce+
qed (use assms(1) in \<open>cases e; auto simp: channel_step_def channel_steps split: if_splits\<close>)

lemma terminated_step:
  assumes "channel_step P c e = Some d"
    and "e = Handle \<Longrightarrow> \<exists>r. receive_message (pe_recv P) (pe_slots P) (pe_exc P) (c_str (sb_buffer (ch_buf c))) = Ok r"
  shows "\<not> ch_terminated d"
  using assms by (cases e) (auto simp: channel_step_def channel_steps split: if_splits)

context semaphore
begin

lemma request_fits:
  assumes "remote_setting R" and "answerable cnt R s" and "S_Writing m \<in> set (ch_senders (rm_req s))"
  shows "\<exists>t b. write_message (re_ipc R) m (sb_buffer (ch_buf (rm_req s))) = Ok (t, b)"
proof -
  have dir: "direction_inv cnt (re_ipc R) (is_request R (rm_issued s)) (rm_req s)"
    and fit: "\<forall>x \<in> set (rm_issued s). fitting_call R x"
    using assms(2) by (auto simp: answerable_def remote_inv_def)
  obtain x where x: "x \<in> set (rm_issued s)" "m = ActionData (re_action R) (fst x) (snd x)"
    using dir assms(3) by (auto simp: direction_inv_def carries_def is_request_def)
  obtain json where json: "ipc_ser (re_ipc R) m = Ok json"
    using ipc.ser_ok request_ok(1) [OF assms(1)] fit x fitting_good by blast
  moreover have "length json < length (sb_buffer (ch_buf (rm_req s)))"
    using fit x json dir by (auto simp: fitting_call_def call_texts_def direction_inv_def chan_inv_def flag_inv_def)
  ultimately show ?thesis using write_fits by blast
qed

lemma reply_fits:
  assumes "remote_setting R" and "answerable cnt R s" and "S_Writing m \<in> set (ch_senders (rm_rsp s))"
  shows "\<exists>t b. write_message (re_ipc R) m (sb_buffer (ch_buf (rm_rsp s))) = Ok (t, b)"
proof -
  have dir: "direction_inv cnt (re_ipc R) (is_reply R (rm_issued s)) (rm_rsp s)"
    and fit: "\<forall>x \<in> set (rm_issued s). fitting_call R x"
    using assms(2) by (auto simp: answerable_def remote_inv_def)
  obtain x where x: "x \<in> set (rm_issued s)"
      "serve_action (re_action R) (returns (re_handler R)) (ActionData (re_action R) (fst x) (snd x)) = Ok m"
    using dir assms(3) by (auto simp: direction_inv_def carries_def is_reply_def)
  have g: "good_call R x" using fit x(1) fitting_good by blast
  obtain json where json: "ipc_ser (re_ipc R) m = Ok json"
    using ipc.ser_ok reply_ok [OF assms(1) g] x(2) by fastforce
  moreover have "length json < length (sb_buffer (ch_buf (rm_rsp s)))"
    using fit x json dir by (auto simp: fitting_call_def call_texts_def direction_inv_def chan_inv_def flag_inv_def)
  ultimately show ?thesis using write_fits by blast
qed

lemma answerable_call:
  assumes set: "remote_setting R" and inv: "answerable cnt R s" and st: "remote_call R i ident p k s = Some t"
    and fit: "fitting_event R (Call i ident p k)"
  shows "answerable cnt R t"
proof -
  obtain m where "response_slot (re_ipc R) (re_action R) (rm_client s) = Ok m" using response_slot_ok [OF set] by blast
  then have free: "rm_mutex s = None" "sender_at (rm_req s) i = Some S_Idle" and
    t: "t = s\<lparr>rm_client := (rm_client s)\<lparr>ai_endpoints := insert 0 (ai_endpoints (rm_client s)),
           ai_active_handlers := (ai_active_handlers (rm_client s))(ident \<mapsto> k)\<rparr>,
         rm_mutex := Some (i, ActionData (re_action R) ident p), rm_issued := rm_issued s @ [(ident, p)]\<rparr>"
    using st by (auto simp: remote_call_def async_def Let_def split: if_splits)
  have "client_ready (rm_issued t) (rm_client t)" using inv fit by (auto simp: t client_ready_def answerable_def)
  moreover have "\<forall>x \<in> set (rm_issued t). located R t (fst x)"
    using inv free by (auto simp: t located_def answerable_def)
  moreover have "remote_inv cnt R t" using remote_inv_call [OF set _ st] inv by (simp add: answerable_def)
  ultimately show ?thesis using inv free(2) fit by (auto simp: t answerable_def sender_at_Some)
qed

lemma located_request:
  assumes set: "remote_setting R" and inv: "answerable cnt R s" and st: "request_step R ev s = Some t"
    and err: "ch_errors (rm_req t) = ch_errors (rm_req s)" and up: "\<not> ch_terminated (rm_req t)" and loc: "located R s ident"
  shows "located R t ident"
proof -
  obtain c where c: "channel_step (server_peers R) (rm_req s) ev = Some c" "rm_req t = c" "rm_rsp t = rm_rsp s"
      "rm_client t = rm_client s"
    and th: "rm_threads t = rm_threads s @
      (if ev = Handle then case handed (server_peers R) (rm_req s) of None \<Rightarrow> [] | Some m \<Rightarrow> [m] else [])"
    and ev: "living_event (\<lambda>m. \<exists>i. rm_mutex s = Some (i, m)) ev"
    using st by (rule request_stepE)
  have dir: "direction_inv cnt (re_ipc R) (is_request R (rm_issued s)) (rm_req s)"
    and good: "\<forall>x \<in> set (rm_issued s). good_call R x"
    using inv answerable_good [OF inv] by (simp_all add: answerable_def remote_inv_def)
  have moved: "under_way c m \<or> m \<in> set (rm_threads t)" if "under_way (rm_req s) m" for m
  proof (cases ev)
    case (WaitEmpty j m')
    then show ?thesis using under_way_enter(2) c(1) that by blast
  next
    case Handle
    then have h: "ch_receiver (rm_req s) = R_Handling" "channel_step (server_peers R) (rm_req s) Handle = Some c"
      using c(1) by (auto elim: handle_step)
    obtain m0 where m0: "drop (length (ch_received (rm_req s))) (ch_msgs (rm_req s)) = [m0]"
        "handed (server_peers R) (rm_req s) = Some m0"
      using server_hears [OF set good dir h(1)] by blast
    have "m = m0 \<or> under_way c m"
      using under_way_handle [OF h(2) m0(1) _ _ _ that] up c(2) dir by (simp add: direction_inv_def chan_inv_def)
    then show ?thesis using th Handle m0(2) by auto
  qed (use under_way_step [OF c(1) _ _ _ direction_received [OF dir] that] err c(2) ev in auto)
  have first: "located R t (msg_id m)" if "rm_mutex s = Some (i, m)" "sender_at (rm_req s) i = Some S_Idle" for i m
  proof (cases "ev = WaitEmpty i m")
    case True
    then have "under_way (rm_req t) m" using c(1,2) under_way_enter(1) by blast
    then show ?thesis by (rule locatedI)
  next
    case False
    then show ?thesis using request_mutex [OF st that] locatedI(2) by blast
  qed
  have under: "located R t (msg_id m)" if "under_way (rm_req s) m" for m
    using moved [OF that] locatedI(3,4) c(2) by blast
  show ?thesis
  proof (rule located_transfer [OF loc])
    show "located R t j" if "j \<in> fst ` set (ai_calls (rm_client s))" for j
      using that c(4) by (intro locatedI(1)) simp
    show "located R t (msg_id m)" if "m \<in> set (rm_threads s)" for m
      using that by (intro locatedI(4)) (simp only: th set_append Un_iff simp_thms)
    show "located R t (msg_id m)" if "under_way (rm_rsp s) m" for m
      using that c(3) by (intro locatedI(5)) simp
  qed (use first under in blast)+
qed

lemma answerable_request:
  assumes set: "remote_setting R" and L: "re_sem R = L" and inv: "answerable cnt R s" and st: "request_step R ev s = Some t"
  shows "answerable cnt R t"
proof -
  have good: "\<forall>x \<in> set (rm_issued s). good_call R x" and rinv: "remote_inv cnt R s"
    and dir: "direction_inv cnt (re_ipc R) (is_request R (rm_issued s)) (rm_req s)"
    using inv answerable_good [OF inv] by (simp_all add: answerable_def remote_inv_def)
  obtain c where c: "channel_step (server_peers R) (rm_req s) ev = Some c" "rm_req t = c" "rm_rsp t = rm_rsp s"
    "rm_client t = rm_client s" "rm_issued t = rm_issued s" "rm_mutex t = rm_mutex s \<or> rm_mutex t = None"
    using st by (rule request_stepE)
  have err: "ch_errors c = ch_errors (rm_req s)"
    using errors_step [OF c(1)] request_fits [OF set inv] by (simp add: sender_at_Some) (metis nth_mem)
  have up: "\<not> ch_terminated c"
  proof (rule terminated_step [OF c(1)])
    assume "ev = Handle"
    then have "ch_receiver (rm_req s) = R_Handling" using c(1) by (auto elim: handle_step)
    from server_hears [OF set good dir this]
    show "\<exists>r. receive_message (pe_recv (server_peers R)) (pe_slots (server_peers R)) (pe_exc (server_peers R))
        (c_str (sb_buffer (ch_buf (rm_req s)))) = Ok r" by auto
  qed
  have "\<not> rm_down t" using request_down [OF st] up c(2) inv by (simp add: answerable_def)
  moreover have "remote_inv cnt R t" by (rule remote_inv_request [OF set L good rinv st])
  moreover have "located R t ident" if "located R s ident" for ident
    using located_request [OF set inv st _ _ that] err up c(2) by simp
  ultimately show ?thesis using inv c err up senders_length [OF c(1)] by (auto simp: answerable_def)
qed

lemma answerable_reply:
  assumes set: "remote_setting R" and L: "re_sem R = L" and inv: "answerable cnt R s" and st: "reply_step R i k s = Some t"
  shows "answerable cnt R t"
proof -
  have good: "\<forall>x \<in> set (rm_issued s). good_call R x" and rinv: "remote_inv cnt R s" and up: "\<not> rm_down s"
    using inv answerable_good [OF inv] by (simp_all add: answerable_def)
  have req: "k < length (rm_threads s) \<Longrightarrow> is_request R (rm_issued s) (rm_threads s ! k)"
    using rinv by (simp add: remote_inv_def)
  have serves: "\<exists>r. serve_action (re_action R) (returns (re_handler R)) (rm_threads s ! k) = Ok r \<and> msg_id r = msg_id (rm_threads s ! k)"
    if k: "k < length (rm_threads s)"
  proof -
    obtain x where "x \<in> set (rm_issued s)" "rm_threads s ! k = ActionData (re_action R) (fst x) (snd x)"
      using req [OF k] by (auto simp: is_request_def)
    then show ?thesis using reply_ok [OF set, of x] good by fastforce
  qed
  have nd: "\<not> rm_down t"
    using st up serves by (auto simp: reply_step_def split: if_splits outcome.splits)
  from st nd show ?thesis
  proof (rule reply_stepE)
    fix c r
    assume k: "k < length (rm_threads s)" "serve_action (re_action R) (returns (re_handler R)) (rm_threads s ! k) = Ok r"
      and c: "channel_step (client_peers R (rm_client s)) (rm_rsp s) (WaitEmpty i r) = Some c"
      and t: "t = s\<lparr>rm_rsp := c, rm_threads := take k (rm_threads s) @ drop (Suc k) (rm_threads s)\<rparr>"
    have r: "msg_id r = msg_id (rm_threads s ! k)" using serves [OF k(1)] k(2) by auto
    have split: "set (rm_threads s) = insert (rm_threads s ! k) (set (take k (rm_threads s) @ drop (Suc k) (rm_threads s)))"
      by (subst id_take_nth_drop [OF k(1)]) simp
    have entered: "located R t (msg_id m)" if "m \<in> set (rm_threads s)" for m
    proof (cases "m = rm_threads s ! k")
      case True
      have "under_way (rm_rsp t) r" using under_way_enter(1) [OF c] by (simp add: t)
      then show ?thesis using locatedI(5) r True by metis
    next
      case False
      then show ?thesis using that split by (intro locatedI(4)) (auto simp: t)
    qed
    have "under_way (rm_rsp t) m" if "under_way (rm_rsp s) m" for m
      using under_way_enter(2) [OF c that] by (simp add: t)
    then have loc: "located R t ident" if "located R s ident" for ident
      using located_transfer [OF that _ _ _ entered] locatedI [where s = t and R = R] by (simp add: t)
    have ch: "ch_errors c = ch_errors (rm_rsp s)" "\<not> ch_terminated c" "length (ch_senders c) = length (ch_senders (rm_rsp s))"
      using c senders_length [OF c] by (auto simp: channel_step_def channel_steps split: if_splits)
    then have "ch_senders c \<noteq> []" using inv by (auto simp: answerable_def)
    moreover have "remote_inv cnt R t" by (rule remote_inv_reply [OF L rinv st nd])
    ultimately show ?thesis using inv ch loc nd by (auto simp: t answerable_def)
  qed
qed

lemma answerable_response:
  assumes set: "remote_setting R" and L: "re_sem R = L" and inv: "answerable cnt R s" and st: "response_step R ev s = Some t"
  shows "answerable cnt R t"
proof -
  have good: "\<forall>x \<in> set (rm_issued s). good_call R x" and rinv: "remote_inv cnt R s" and ready: "client_ready (rm_issued s) (rm_client s)"
    and dir: "direction_inv cnt (re_ipc R) (is_reply R (rm_issued s)) (rm_rsp s)"
    using inv answerable_good [OF inv] by (simp_all add: answerable_def remote_inv_def)
  obtain c where c: "channel_step (client_peers R (rm_client s)) (rm_rsp s) ev = Some c" "rm_rsp t = c" "rm_req t = rm_req s"
    "rm_issued t = rm_issued s" "rm_mutex t = rm_mutex s" "rm_threads t = rm_threads s" "living_event (\<lambda>_. False) ev"
    "rm_client t = (case (ev, handed (client_peers R (rm_client s)) (rm_rsp s)) of
        (Handle, Some m) \<Rightarrow> fst (M_responseHandler (ie_throw (re_ipc R)) (re_action R) m (rm_client s))
      | _ \<Rightarrow> rm_client s)"
    using st by (rule response_stepE)
  have err: "ch_errors c = ch_errors (rm_rsp s)"
    using errors_step [OF c(1)] reply_fits [OF set inv] by (simp add: sender_at_Some) (metis nth_mem)
  show ?thesis
  proof (cases "ev = Handle")
    case False
    then have same: "rm_client t = rm_client s" using c(8) by (auto split: channel_event.splits)
    have int: "internal_event ev" using c(7) by (cases ev) auto
    have up: "\<not> ch_terminated c" using terminated_step [OF c(1)] False by simp
    have keep: "under_way (rm_rsp t) m" if "under_way (rm_rsp s) m" for m
      using under_way_step [OF c(1) int False err direction_received [OF dir] that] c(2) by simp
    have "located R t ident" if "located R s ident" for ident
      by (rule located_transfer [OF that]) (use keep c(3,5,6) same locatedI [where s = t and R = R] in auto)
    moreover have "\<not> rm_down t" using response_down [OF st] False err c(2) inv by (auto simp: answerable_def)
    moreover have "remote_inv cnt R t" by (rule remote_inv_response [OF set L good rinv st])
    moreover have "ch_senders c \<noteq> []" using senders_length [OF c(1)] inv by (auto simp: answerable_def)
    ultimately show ?thesis using inv c(2-6) err up same by (auto simp: answerable_def)
  next
    case True
    then have h: "ch_receiver (rm_rsp s) = R_Handling" "channel_step (client_peers R (rm_client s)) (rm_rsp s) Handle = Some c"
      using c(1) by (auto elim: handle_step)
    obtain m0 json where "drop (length (ch_received (rm_rsp s))) (ch_msgs (rm_rsp s)) = [m0]" "is_reply R (rm_issued s) m0"
      using direction_text [OF dir h(1)] by blast
    then have ep: "ai_endpoints (rm_client s) \<noteq> {}" using ready by (auto simp: client_ready_def is_reply_def)
    obtain m where m: "drop (length (ch_received (rm_rsp s))) (ch_msgs (rm_rsp s)) = [m]" "is_reply R (rm_issued s) m"
        "handed (client_peers R (rm_client s)) (rm_rsp s) = Some m"
        "ipc_con (re_ipc R) (c_str (sb_buffer (ch_buf (rm_rsp s)))) = Ok (ac_name (re_action R) @ ''_response'', m)"
        "im_rtti m = ac_response_type (re_action R)"
      using client_hears [OF set good ep dir h(1)] by blast
    obtain x where x: "x \<in> set (rm_issued s)" "msg_id m = fst x"
      using m(2) reply_ok [OF set] good by (fastforce simp: is_reply_def)
    note resp = M_responseHandler_ready [OF ready x, where E = "ie_throw (re_ipc R)" and A = "re_action R"]
    have cl: "rm_client t = fst (M_responseHandler (ie_throw (re_ipc R)) (re_action R) m (rm_client s))"
      using c(8) True m(3) by simp
    have up: "\<not> ch_terminated c"
      using terminated_step [OF c(1)] client_round_returns [OF set ep m(4,5) resp(4)] by simp
    have moved: "m' = m \<or> under_way c m'" if "under_way (rm_rsp s) m'" for m'
      using under_way_handle [OF h(2) m(1) up _ _ that] dir by (simp add: direction_inv_def chan_inv_def)
    have answered: "located R t (fst x)" using resp(2) cl by (intro locatedI(1)) simp
    have under: "located R t (msg_id m')" if "under_way (rm_rsp s) m'" for m'
      using moved [OF that] answered x(2) c(2) locatedI(5) by metis
    have "located R t ident" if "located R s ident" for ident
      by (rule located_transfer [OF that]) (use under c(3,5,6) cl resp(3) locatedI [where s = t and R = R] in auto)
    moreover have "\<not> rm_down t" using response_down [OF st] err up c(2) inv by (auto simp: answerable_def)
    moreover have "remote_inv cnt R t" by (rule remote_inv_response [OF set L good rinv st])
    moreover have "ch_senders c \<noteq> []" using senders_length [OF c(1)] inv by (auto simp: answerable_def)
    ultimately show ?thesis using inv c(2-6) err up cl resp(1) by (auto simp: answerable_def)
  qed
qed

lemma answerable_step:
  assumes "remote_setting R" and "re_sem R = L" and "answerable cnt R s" and "actions_step R s e = Some t"
    and "fitting_event R e"
  shows "answerable cnt R t"
  using assms answerable_call [OF assms(1,3)] answerable_request [OF assms(1-3)] answerable_reply [OF assms(1-3)]
    answerable_response [OF assms(1-3)]
  by (cases e) (simp_all add: actions_step_def split: if_splits)

end

section \<open>Some step lowers the rank\<close>

definition caller_rank :: "'s remote \<Rightarrow> nat" where
  "caller_rank s =
     (case rm_mutex s of None \<Rightarrow> 0 | Some (i, m) \<Rightarrow> if sender_at (rm_req s) i = Some S_Idle then 30 else 0)"

definition remote_rank :: "('s \<Rightarrow> nat) \<Rightarrow> 's remote \<Rightarrow> nat" where
  "remote_rank cnt s =
     caller_rank s + chan_rank cnt 11 (rm_req s) + 10 * length (rm_threads s) + chan_rank cnt 0 (rm_rsp s)"

lemma request_defined:
  "channel_step (server_peers R) (rm_req s) e = Some c \<Longrightarrow> internal_event e \<Longrightarrow> \<exists>t. request_step R e s = Some t"
  by (cases e) (simp_all add: request_step_def Let_def)

lemma response_defined:
  "channel_step (client_peers R (rm_client s)) (rm_rsp s) e = Some c \<Longrightarrow> internal_event e \<Longrightarrow> rm_mutex s = None \<Longrightarrow>
   \<exists>t. response_step R e s = Some t"
  by (cases e) (simp_all add: response_step_def Let_def split: option.split)

text \<open>A step does not bring a caller back to the start of \<^verbatim>\<open>send\<close>.\<close>

lemma request_idle:
  assumes "request_step R e s = Some t" and "internal_event e"
    and "rm_mutex t = Some (i, m)" and "sender_at (rm_req t) i = Some S_Idle"
  shows "rm_mutex s = Some (i, m) \<and> sender_at (rm_req s) i = Some S_Idle"
proof -
  obtain c where c: "channel_step (server_peers R) (rm_req s) e = Some c" "rm_req t = c" "rm_mutex t = rm_mutex s \<or> rm_mutex t = None"
    using assms(1) by (rule request_stepE)
  have ms: "rm_mutex s = Some (i, m)" using assms(3) c(3) by auto
  then show ?thesis
    using assms c(1,2)
    by (cases e)
      (auto simp: request_step_def after_send_def Let_def channel_step_def channel_steps sender_at_Some nth_list_update
        split: if_splits)
qed

lemma caller_rank_request:
  assumes "request_step R e s = Some t" and "internal_event e"
  shows "caller_rank t \<le> caller_rank s"
proof (cases "rm_mutex t")
  case None
  then show ?thesis by (simp add: caller_rank_def)
next
  case (Some im)
  then obtain i m where "rm_mutex t = Some (i, m)" by (cases im) auto
  then show ?thesis using request_idle [OF assms, of i m] by (auto simp: caller_rank_def)
qed

context semaphore
begin

lemma request_progress:
  assumes set: "remote_setting R" and L: "re_sem R = L" and inv: "answerable cnt R s" and work: "0 < chan_rank cnt 11 (rm_req s)"
  shows "\<exists>e t. request_step R e s = Some t \<and> remote_rank cnt t < remote_rank cnt s"
proof -
  have dir: "chan_inv cnt (rm_req s)" "ch_posts (rm_req s) = 0" "ch_errors (rm_req s) = []" "\<not> ch_terminated (rm_req s)"
      "ch_destructor (rm_req s) = D_None"
    using inv by (simp_all add: answerable_def remote_inv_def direction_inv_def)
  obtain e c where c: "channel_step (server_peers R) (rm_req s) e = Some c" "internal_event e"
    using channel_active [OF _ dir _ work, of "server_peers R"] request_fits [OF set inv] L by auto
  obtain t where t: "request_step R e s = Some t" using request_defined [OF c] by blast
  obtain c' where c': "channel_step (server_peers R) (rm_req s) e = Some c'" "rm_req t = c'" "rm_rsp t = rm_rsp s"
    "rm_threads t = rm_threads s @ (if e = Handle then case handed (server_peers R) (rm_req s) of None \<Rightarrow> [] | Some m \<Rightarrow> [m] else [])"
    using t by (rule request_stepE)
  then have rc: "rm_req t = c" using c(1) by simp
  have "answerable cnt R t" by (rule answerable_request [OF set L inv t])
  then have after: "ch_errors c = []" "\<not> ch_terminated c" by (simp_all add: answerable_def rc)
  have "chan_rank cnt 11 c + 10 * length (rm_threads t) < chan_rank cnt 11 (rm_req s) + 10 * length (rm_threads s)"
  proof (cases "e = Handle")
    case True
    have "length (rm_threads t) \<le> length (rm_threads s) + 1" using c'(4) by (auto split: option.splits)
    then show ?thesis using rank_Handle [of _ _ c 11] c(1) True after(2) dir by (fastforce simp: chan_inv_def)
  next
    case False
    then show ?thesis using rank_internal [OF _ c(1) c(2) False, of 11] L after(1) dir(3) c'(4) by simp
  qed
  then have "remote_rank cnt t < remote_rank cnt s"
    using caller_rank_request [OF t c(2)] rc c'(3) by (simp add: remote_rank_def)
  then show ?thesis using t by blast
qed

lemma call_progress:
  assumes L: "re_sem R = L" and inv: "answerable cnt R s" and idle: "chan_rank cnt 11 (rm_req s) = 0"
    and call: "rm_mutex s = Some (i, m)"
  shows "\<exists>e t. request_step R e s = Some t \<and> remote_rank cnt t < remote_rank cnt s"
proof -
  have dir: "chan_inv cnt (rm_req s)" "ch_posts (rm_req s) = 0" "ch_errors (rm_req s) = []" "\<not> ch_terminated (rm_req s)"
      "ch_destructor (rm_req s) = D_None" "i < length (ch_senders (rm_req s))"
    using inv call by (simp_all add: answerable_def remote_inv_def direction_inv_def)
  obtain c where c: "sender_at (rm_req s) i = Some S_Idle" "channel_step (server_peers R) (rm_req s) (WaitEmpty i m) = Some c"
    using channel_free [OF _ dir(1-5) idle dir(6), of "server_peers R" m] L by auto
  have t: "request_step R (WaitEmpty i m) s = Some (s\<lparr>rm_req := c\<rparr>)" using c(2) call by (simp add: request_step_def)
  have "sender_at c i \<noteq> Some S_Idle"
    using c(2) by (auto simp: channel_step_def channel_steps sender_at_Some split: if_splits)
  then have "remote_rank cnt (s\<lparr>rm_req := c\<rparr>) < remote_rank cnt s"
    using rank_WaitEmpty [OF c(2), of 11] c(1) call idle by (simp add: remote_rank_def caller_rank_def)
  then show ?thesis using t by blast
qed

lemma response_progress:
  assumes set: "remote_setting R" and L: "re_sem R = L" and inv: "answerable cnt R s" and work: "0 < chan_rank cnt 0 (rm_rsp s)"
    and free: "rm_mutex s = None"
  shows "\<exists>e t. response_step R e s = Some t \<and> remote_rank cnt t < remote_rank cnt s"
proof -
  have dir: "chan_inv cnt (rm_rsp s)" "ch_posts (rm_rsp s) = 0" "ch_errors (rm_rsp s) = []" "\<not> ch_terminated (rm_rsp s)"
      "ch_destructor (rm_rsp s) = D_None"
    using inv by (simp_all add: answerable_def remote_inv_def direction_inv_def)
  obtain e c where c: "channel_step (client_peers R (rm_client s)) (rm_rsp s) e = Some c" "internal_event e"
    using channel_active [OF _ dir _ work, of "client_peers R (rm_client s)"] reply_fits [OF set inv] L by auto
  obtain t where t: "response_step R e s = Some t" using response_defined [OF c free] by blast
  obtain c' where c': "channel_step (client_peers R (rm_client s)) (rm_rsp s) e = Some c'" "rm_rsp t = c'" "rm_req t = rm_req s"
    "rm_mutex t = rm_mutex s" "rm_threads t = rm_threads s"
    using t by (rule response_stepE)
  then have rc: "rm_rsp t = c" using c(1) by simp
  have "answerable cnt R t" by (rule answerable_response [OF set L inv t])
  then have after: "ch_errors c = []" "\<not> ch_terminated c" by (simp_all add: answerable_def rc)
  have "chan_rank cnt 0 c < chan_rank cnt 0 (rm_rsp s)"
  proof (cases "e = Handle")
    case True
    then show ?thesis using rank_Handle [of _ _ c 0] c(1) after(2) dir by (fastforce simp: chan_inv_def)
  next
    case False
    then show ?thesis using rank_internal [OF _ c(1) c(2) False, of 0] L after(1) dir(3) by simp
  qed
  then have "remote_rank cnt t < remote_rank cnt s"
    using rc c'(3-5) free by (simp add: remote_rank_def caller_rank_def)
  then show ?thesis using t by blast
qed

lemma reply_progress:
  assumes set: "remote_setting R" and L: "re_sem R = L" and inv: "answerable cnt R s" and idle: "chan_rank cnt 0 (rm_rsp s) = 0"
    and work: "rm_threads s \<noteq> []"
  shows "\<exists>t. reply_step R 0 0 s = Some t \<and> rm_issued t = rm_issued s \<and> remote_rank cnt t < remote_rank cnt s"
proof -
  have dir: "chan_inv cnt (rm_rsp s)" "ch_posts (rm_rsp s) = 0" "ch_errors (rm_rsp s) = []" "\<not> ch_terminated (rm_rsp s)"
      "ch_destructor (rm_rsp s) = D_None" "0 < length (ch_senders (rm_rsp s))"
    using inv by (simp_all add: answerable_def remote_inv_def direction_inv_def)
  have "is_request R (rm_issued s) (rm_threads s ! 0)" using inv work by (simp add: answerable_def remote_inv_def)
  then obtain x where "x \<in> set (rm_issued s)" "rm_threads s ! 0 = ActionData (re_action R) (fst x) (snd x)"
    by (auto simp: is_request_def)
  then obtain r where r: "serve_action (re_action R) (returns (re_handler R)) (rm_threads s ! 0) = Ok r"
    using reply_ok [OF set, of x] answerable_good [OF inv] by fastforce
  obtain c where c: "channel_step (client_peers R (rm_client s)) (rm_rsp s) (WaitEmpty 0 r) = Some c"
    using channel_free [OF _ dir(1-5) idle dir(6), of "client_peers R (rm_client s)" r] L by auto
  let ?t = "s\<lparr>rm_rsp := c, rm_threads := drop (Suc 0) (rm_threads s)\<rparr>"
  have "reply_step R 0 0 s = Some ?t" using work r c by (simp add: reply_step_def)
  moreover have "remote_rank cnt ?t < remote_rank cnt s"
  proof -
    have "caller_rank ?t = caller_rank s" by (cases "rm_mutex s") (auto simp: caller_rank_def)
    then show ?thesis using rank_WaitEmpty [OF c, of 0] idle work
      by (cases "rm_threads s") (simp_all add: remote_rank_def)
  qed
  ultimately show ?thesis by (intro exI [of _ ?t]) simp
qed

lemma remote_progress:
  assumes set: "remote_setting R" and L: "re_sem R = L" and inv: "answerable cnt R s" and work: "0 < remote_rank cnt s"
  shows "\<exists>e t. actions_step R s e = Some t \<and> answerable cnt R t \<and> rm_issued t = rm_issued s \<and>
           remote_rank cnt t < remote_rank cnt s"
proof -
  have up: "\<not> rm_down s" using inv by (simp add: answerable_def)
  consider (req) e t where "request_step R e s = Some t" "remote_rank cnt t < remote_rank cnt s"
    | (rsp) e t where "response_step R e s = Some t" "remote_rank cnt t < remote_rank cnt s"
    | (rep) t where "reply_step R 0 0 s = Some t" "rm_issued t = rm_issued s" "remote_rank cnt t < remote_rank cnt s"
  proof (cases "0 < chan_rank cnt 11 (rm_req s)")
    case True
    then show ?thesis using request_progress [OF set L inv] that(1) by blast
  next
    case idle: False
    show ?thesis
    proof (cases "rm_mutex s")
      case (Some im)
      then show ?thesis using call_progress [OF L inv] idle that(1) by (cases im) blast
    next
      case None
      show ?thesis
      proof (cases "0 < chan_rank cnt 0 (rm_rsp s)")
        case True
        then show ?thesis using response_progress [OF set L inv _ None] that(2) by blast
      next
        case False
        then have "rm_threads s \<noteq> []" using work idle None by (auto simp: remote_rank_def caller_rank_def)
        then show ?thesis using reply_progress [OF set L inv] False that(3) by blast
      qed
    qed
  qed
  then show ?thesis
  proof cases
    case req
    have "rm_issued t = rm_issued s" using req(1) by (rule request_stepE)
    then show ?thesis using req up answerable_request [OF set L inv req(1)]
      by (intro exI [of _ "Request e"] exI [of _ t]) (simp add: actions_step_def)
  next
    case rsp
    have "rm_issued t = rm_issued s" using rsp(1) by (rule response_stepE)
    then show ?thesis using rsp up answerable_response [OF set L inv rsp(1)]
      by (intro exI [of _ "Response e"] exI [of _ t]) (simp add: actions_step_def)
  next
    case rep
    then show ?thesis using up answerable_reply [OF set L inv rep(1)]
      by (intro exI [of _ "Reply 0 0"] exI [of _ t]) (simp add: actions_step_def)
  qed
qed

lemma remote_finishes:
  assumes set: "remote_setting R" and L: "re_sem R = L" and inv: "answerable cnt R s"
  shows "\<exists>fs t. exec (actions_step R) s fs = Some t \<and> answerable cnt R t \<and> rm_issued t = rm_issued s \<and> remote_rank cnt t = 0"
  using inv
proof (induction "remote_rank cnt s" arbitrary: s rule: less_induct)
  case less
  show ?case
  proof (cases "remote_rank cnt s = 0")
    case True
    then show ?thesis using less.prems by (intro exI [of _ "[]"] exI [of _ s]) simp
  next
    case False
    then obtain e u where u: "actions_step R s e = Some u" "answerable cnt R u" "rm_issued u = rm_issued s"
        "remote_rank cnt u < remote_rank cnt s"
      using remote_progress [OF set L less.prems] by blast
    then obtain fs t where "exec (actions_step R) u fs = Some t" "answerable cnt R t" "rm_issued t = rm_issued u"
        "remote_rank cnt t = 0"
      using less.hyps by blast
    then show ?thesis using u by (intro exI [of _ "e # fs"] exI [of _ t]) simp
  qed
qed

lemma finished_answered:
  assumes "answerable cnt R s" and "remote_rank cnt s = 0" and "x \<in> set (rm_issued s)"
  shows "fst x \<in> fst ` set (ai_calls (rm_client s))"
proof -
  have dir: "direction_inv cnt (re_ipc R) (is_request R (rm_issued s)) (rm_req s)"
      "direction_inv cnt (re_ipc R) (is_reply R (rm_issued s)) (rm_rsp s)" and loc: "located R s (fst x)"
    using assms(1,3) by (auto simp: answerable_def remote_inv_def)
  have zero: "chan_rank cnt 11 (rm_req s) = 0" "chan_rank cnt 0 (rm_rsp s) = 0" "rm_threads s = []" "caller_rank s = 0"
    using assms(2) by (simp_all add: remote_rank_def)
  have "\<not> under_way (rm_req s) m" "\<not> under_way (rm_rsp s) m" for m
    using idle_nothing_under_way [OF dir(1) zero(1)] idle_nothing_under_way [OF dir(2) zero(2)] by blast+
  then show ?thesis using loc zero(3,4) by (auto simp: located_def caller_rank_def)
qed

end

lemma answerable_exec:
  assumes "remote_setting R" and sem: "semaphore (re_sem R) cnt" and "answerable cnt R s"
    and "exec (actions_step R) s es = Some t" and "\<forall>e \<in> set es. fitting_event R e"
  shows "answerable cnt R t"
  using assms(3-5)
proof (induction es arbitrary: s)
  case (Cons e es)
  then obtain u where u: "actions_step R s e = Some u" "exec (actions_step R) u es = Some t" by (auto split: option.splits)
  then have "answerable cnt R u"
    using semaphore.answerable_step [OF sem assms(1) refl Cons.prems(1) u(1)] Cons.prems(3) by simp
  then show ?case using Cons.IH u(2) Cons.prems(3) by simp
qed simp

lemma answerable_new:
  assumes "semaphore (re_sem R) cnt" and "length mem = MaxMessageSize" and "length mem' = MaxMessageSize"
  shows "answerable cnt R (new_remote R mem mem' n (Suc k))"
  using semaphore.remote_inv_new [OF assms(1) refl assms(2,3)]
  by (simp add: answerable_def) (simp add: new_remote_def new_channel_def client_ready_def new_action_state_def)

section \<open>Properties\<close>

text \<open>
  C16. Every call can be answered. From every state that a run reaches, in which the messages of the calls fit into the
  buffer and the response handlers return, some continuation without new calls brings every call made so far its
  answer: the response handler is called with what the server's handler returned for it, except that an error that was
  default constructed arrives as a default response (\<open>caller_view\<close>). Neither the mutex
  that callers keep while they wait, nor the buffers with one place, nor the order of the threads gets in the way.
\<close>

theorem remote_calls_answered:
  assumes "remote_setting R" and "semaphore (re_sem R) cnt" and "length mem = MaxMessageSize" and "length mem' = MaxMessageSize"
    and "exec (actions_step R) (new_remote R mem mem' n (Suc k)) es = Some s" and "\<forall>e \<in> set es. fitting_event R e"
  shows "\<exists>fs t. exec (actions_step R) s fs = Some t \<and> rm_issued t = rm_issued s \<and>
     fst ` set (rm_issued s) = fst ` set (ai_calls (rm_client t)) \<and>
     set (ai_calls (rm_client t)) \<subseteq>
       (\<lambda>(ident, p). (ident, caller_view (re_action R) (re_handler R p ident))) ` set (rm_issued s)"
proof -
  have "answerable cnt R s"
    using answerable_exec [OF assms(1,2) answerable_new [OF assms(2-4)] assms(5,6)] .
  then obtain fs t where t: "exec (actions_step R) s fs = Some t" "answerable cnt R t" "rm_issued t = rm_issued s"
      "remote_rank cnt t = 0"
    using semaphore.remote_finishes [OF assms(2,1) refl] by blast
  have "fst ` set (rm_issued s) \<subseteq> fst ` set (ai_calls (rm_client t))"
    using semaphore.finished_answered [OF assms(2) t(2,4)] t(3) by auto
  moreover have "set (ai_calls (rm_client t)) \<subseteq>
       (\<lambda>(ident, p). (ident, caller_view (re_action R) (re_handler R p ident))) ` set (rm_issued s)"
    using t(2,3) by (force simp: answerable_def remote_inv_def answers_match_def)
  ultimately show ?thesis using t(1,3) by (intro exI [of _ fs] exI [of _ t]) force
qed

lemma add_fits: "fitting_event add_remote (Call 0 (fst add_call) (snd add_call) (\<lambda>_ _. H_Returns))"
proof -
  have "call_texts add_remote add_call (\<lambda>s. length s < MaxMessageSize)"
    by (rule add_call_texts) (simp add: MaxMessageSize_def)
  then show ?thesis using add_good by (simp add: fitting_call_def)
qed

theorem remote_calls_answered_witness:
  "\<exists>s fs t. actions_step add_remote (new_remote add_remote zeros zeros 1 1)
       (Call 0 (fst add_call) (snd add_call) (\<lambda>_ _. H_Returns)) = Some s \<and>
     exec (actions_step add_remote) s fs = Some t \<and> set (ai_calls (rm_client t)) = {(''7F'', Either_v [(''sum'', EInt 5)])}"
proof -
  let ?e = "Call 0 (fst add_call) (snd add_call) (\<lambda>_ _. H_Returns)"
  obtain s where s: "actions_step add_remote (new_remote add_remote zeros zeros 1 1) ?e = Some s" "rm_issued s = [add_call]"
    using add_call_step by blast
  have run: "exec (actions_step add_remote) (new_remote add_remote zeros zeros 1 (Suc 0)) [?e] = Some s" using s(1) by simp
  obtain fs t where t: "exec (actions_step add_remote) s fs = Some t"
      "fst ` set [add_call] = fst ` set (ai_calls (rm_client t))"
      "set (ai_calls (rm_client t)) \<subseteq> (\<lambda>(ident, p). (ident, caller_view add_action (add_handler p ident))) ` set [add_call]"
    using remote_calls_answered [OF add_setting _ zeros_length zeros_length run, of "\<lambda>n. n"] nat_sem.semaphore_axioms add_fits s(2)
    by auto
  have "set (ai_calls (rm_client t)) \<subseteq> {(''7F'', Either_v [(''sum'', EInt 5)])}"
    using t(3) add_view by (simp add: add_call_def)
  moreover have "set (ai_calls (rm_client t)) \<noteq> {}" using t(2) by auto
  ultimately have "set (ai_calls (rm_client t)) = {(''7F'', Either_v [(''sum'', EInt 5)])}"
    by (metis subset_singletonD)
  with s(1) t(1) show ?thesis by (intro exI conjI)
qed

text \<open>
  C17. No caller gets the answer to another call. Over both channels, whatever the interleaving of the calling threads,
  the receive threads and the threads of the server, and whatever the response handlers do, each call of a response
  handler is for an identifier that was issued, with what the server's handler returned for the parameters
  issued with it, as \<open>caller_view\<close> describes it.
\<close>

theorem remote_answers_match:
  assumes "remote_setting R" and "semaphore (re_sem R) cnt" and "length mem = MaxMessageSize" and "length mem' = MaxMessageSize"
    and "exec (actions_step R) (new_remote R mem mem' n k) es = Some s" and "\<forall>x \<in> set (rm_issued s). good_call R x"
  shows "set (ai_calls (rm_client s)) \<subseteq>
     (\<lambda>(ident, p). (ident, caller_view (re_action R) (re_handler R p ident))) ` set (rm_issued s)"
proof -
  have "remote_inv cnt R s"
    using remote_exec_inv [OF assms(1,2) _ assms(5,6)] semaphore.remote_inv_new [OF assms(2) refl assms(3,4)] by blast
  then show ?thesis by (force simp: remote_inv_def answers_match_def)
qed

theorem remote_answers_match_witness:
  "\<exists>es s. exec (actions_step add_remote) (new_remote add_remote zeros zeros 1 1) es = Some s \<and> ai_calls (rm_client s) \<noteq> [] \<and>
     set (ai_calls (rm_client s)) \<subseteq> {(''7F'', Either_v [(''sum'', EInt 5)])}"
proof -
  let ?e = "Call 0 (fst add_call) (snd add_call) (\<lambda>_ _. H_Returns)"
  have sem: "semaphore (re_sem add_remote) (\<lambda>n. n)" using nat_sem.semaphore_axioms by simp
  obtain s where s: "actions_step add_remote (new_remote add_remote zeros zeros 1 1) ?e = Some s" "rm_issued s = [add_call]"
    using add_call_step by blast
  have "answerable (\<lambda>n. n) add_remote s"
    using answerable_exec [OF add_setting sem answerable_new [OF sem zeros_length zeros_length], of 1 0 "[?e]" s] s(1) add_fits
    by simp
  then obtain fs t where t: "exec (actions_step add_remote) s fs = Some t" "answerable (\<lambda>n. n) add_remote t"
      "rm_issued t = [add_call]" "remote_rank (\<lambda>n. n) t = 0"
    using semaphore.remote_finishes [OF sem add_setting refl] s(2) by (metis (no_types))
  have run: "exec (actions_step add_remote) (new_remote add_remote zeros zeros 1 1) (?e # fs) = Some t" using s(1) t(1) by simp
  have "set (ai_calls (rm_client t)) \<subseteq> (\<lambda>(ident, p). (ident, caller_view add_action (add_handler p ident))) ` set [add_call]"
    using remote_answers_match [OF add_setting sem zeros_length zeros_length run] add_good t(3) by simp
  then have "set (ai_calls (rm_client t)) \<subseteq> {(''7F'', Either_v [(''sum'', EInt 5)])}"
    using add_view by (simp add: add_call_def)
  moreover have "ai_calls (rm_client t) \<noteq> []"
    using semaphore.finished_answered [OF sem t(2,4), of add_call] t(3) by auto
  ultimately show ?thesis using run by blast
qed

text \<open>
  The bound on the messages is needed on the way back too: the exception of \<^verbatim>\<open>send\<close> for a response that does not fit
  leaves the detached thread of the server, which ends the server.
\<close>

theorem failed_reply_ends_server:
  assumes "sender_at (rm_rsp s) i = Some (S_Writing m)" and "\<not> ch_terminated (rm_rsp s)" and "\<not> rm_down s"
    and "write_message (re_ipc R) m (sb_buffer (ch_buf (rm_rsp s))) = Throw e"
  shows "\<exists>t. actions_step R s (Response (Write i)) = Some t \<and> rm_down t"
  using assms by (simp add: actions_step_def response_step_def channel_step_def send_write_def Let_def)

end
