(* ===== verification/Ipc_Once.thy ===== *)
theory Ipc_Once
  imports Ipc_Progress "HOL-Library.Multiset"
begin

text \<open>
  Remote calls happen once: an account of the identifiers that are on their way in \<^verbatim>\<open>Ipc_Remote\<close>. What one station of a call
  hands on, from \<^verbatim>\<open>async\<close> over the request channel and the threads of the server to the response channel, the station
  before it has got, counted as multisets of identifiers.
\<close>

section \<open>What a channel carries\<close>

definition held_msgs :: "sender \<Rightarrow> ipc_message multiset" where
  "held_msgs x = (case x of S_Entered m \<Rightarrow> {#m#} | S_Writing m \<Rightarrow> {#m#} | _ \<Rightarrow> {#})"

lemma held_msgs_simps [simp]:
  "held_msgs S_Idle = {#}" "held_msgs (S_Entered m) = {#m#}" "held_msgs (S_Writing m) = {#m#}" "held_msgs S_Written = {#}"
  "held_msgs S_Unlocked = {#}"
  by (simp_all add: held_msgs_def)

definition held :: "'s channel \<Rightarrow> ipc_message multiset" where
  "held c = sum_list (map held_msgs (ch_senders c))"

text \<open>Everything that entered the channel: in the hands of senders, or written.\<close>

definition entered :: "'s channel \<Rightarrow> ipc_message multiset" where
  "entered c = held c + mset (ch_msgs c)"

lemma sum_list_update_add:
  "i < length xs \<Longrightarrow> sum_list (xs[i := y]) + xs ! i = sum_list xs + (y :: 'a multiset)"
  by (induction xs arbitrary: i) (auto simp: nth_Cons' ac_simps split: nat.splits)

lemma held_update:
  assumes "sender_at c i = Some x" and "ch_senders d = (ch_senders c)[i := y]"
  shows "held d + held_msgs x = held c + held_msgs y"
  using assms sum_list_update_add [of i "map held_msgs (ch_senders c)" "held_msgs y"]
  by (simp add: held_def sender_at_Some map_update)

definition enters :: "channel_event \<Rightarrow> ipc_message multiset" where
  "enters e = (case e of WaitEmpty i m \<Rightarrow> {#m#} | _ \<Rightarrow> {#})"

text \<open>A step of a channel makes no copies.\<close>

lemma entered_step:
  assumes "channel_step P c e = Some d"
  shows "entered d \<subseteq># entered c + enters e"
proof (cases e)
  case (WaitEmpty i m)
  then have "sender_at c i = Some S_Idle" "ch_senders d = (ch_senders c)[i := S_Entered m]" "ch_msgs d = ch_msgs c"
    using assms by (auto simp: channel_step_def channel_steps split: if_splits)
  then show ?thesis using held_update [of c i S_Idle d "S_Entered m"] WaitEmpty by (simp add: entered_def enters_def)
next
  case (LockSend i)
  then obtain m where "sender_at c i = Some (S_Entered m)" "ch_senders d = (ch_senders c)[i := S_Writing m]"
      "ch_msgs d = ch_msgs c"
    using assms by (auto simp: channel_step_def channel_steps split: if_splits)
  then show ?thesis using held_update [of c i "S_Entered m" d "S_Writing m"] LockSend by (simp add: entered_def enters_def)
next
  case (Write i)
  then have "channel_step P c (Write i) = Some d" using assms by simp
  then show ?thesis
  proof (cases rule: write_step)
    case (written m str b)
    then show ?thesis using held_update [of c i "S_Writing m" d S_Written] Write
      by (simp add: entered_def enters_def set_sender_def)
  next
    case (threw m x)
    then have "held c = held d + {#m#}" "ch_msgs d = ch_msgs c"
      using held_update [of c i "S_Writing m" d S_Idle] by (simp_all add: set_sender_def)
    then show ?thesis using Write by (simp add: entered_def enters_def)
  qed
next
  case (UnlockSend i)
  then have "sender_at c i = Some S_Written" "ch_senders d = (ch_senders c)[i := S_Unlocked]" "ch_msgs d = ch_msgs c"
    using assms by (auto simp: channel_step_def channel_steps split: if_splits)
  then show ?thesis using held_update [of c i S_Written d S_Unlocked] UnlockSend by (simp add: entered_def enters_def)
next
  case (PostFull i)
  then have "sender_at c i = Some S_Unlocked" "ch_senders d = (ch_senders c)[i := S_Idle]" "ch_msgs d = ch_msgs c"
    using assms by (auto simp: channel_step_def channel_steps split: if_splits)
  then show ?thesis using held_update [of c i S_Unlocked d S_Idle] PostFull by (simp add: entered_def enters_def)
qed (use assms in \<open>auto simp: channel_step_def channel_steps entered_def enters_def held_def split: if_splits\<close>)

lemma msgs_step:
  assumes "channel_step P c e = Some d"
  shows "\<exists>ms. ch_msgs d = ch_msgs c @ ms"
proof (cases "\<exists>i. e = Write i")
  case True
  then obtain i where "channel_step P c (Write i) = Some d" using assms by blast
  then show ?thesis by (cases rule: write_step) simp_all
qed (use assms in \<open>cases e; auto simp: channel_step_def channel_steps split: if_splits\<close>)

lemma received_step:
  assumes "channel_step P c e = Some d" and "e \<noteq> Handle"
  shows "ch_received d = ch_received c"
proof (cases "\<exists>i. e = Write i")
  case True
  then obtain i where "channel_step P c (Write i) = Some d" using assms by blast
  then show ?thesis by (cases rule: write_step) simp_all
qed (use assms in \<open>cases e; auto simp: channel_step_def channel_steps split: if_splits\<close>)

section \<open>The account\<close>

definition ids :: "ipc_message multiset \<Rightarrow> string multiset" where
  "ids = image_mset msg_id"

lemma ids_simps [simp]:
  "ids {#} = {#}" "ids (A + B) = ids A + ids B" "ids (add_mset m A) = add_mset (msg_id m) (ids A)"
  by (simp_all add: ids_def)

lemma ids_mono: "A \<subseteq># B \<Longrightarrow> ids A \<subseteq># ids B"
  by (simp add: ids_def image_mset_subseteq_mono)

lemma ids_mset: "ids (mset ms) = mset (map msg_id ms)"
  by (simp add: ids_def)

text \<open>A caller inside \<^verbatim>\<open>async\<close> whose message has not entered the channel.\<close>

definition waiting :: "'s remote \<Rightarrow> ipc_message multiset" where
  "waiting s =
     (case rm_mutex s of None \<Rightarrow> {#} | Some (i, m) \<Rightarrow> if sender_at (rm_req s) i = Some S_Idle then {#m#} else {#})"

definition handed_over :: "'s channel \<Rightarrow> ipc_message list" where
  "handed_over c = take (length (ch_received c)) (ch_msgs c)"

definition once_inv :: "'s remote \<Rightarrow> bool" where
  "once_inv s \<longleftrightarrow>
     ids (waiting s) + ids (entered (rm_req s)) \<subseteq># mset (map fst (rm_issued s)) \<and>
     ids (mset (rm_threads s)) + ids (entered (rm_rsp s)) \<subseteq># mset (map msg_id (handed_over (rm_req s)))"

lemma ids_sub: "A \<subseteq># B + C \<Longrightarrow> ids A \<subseteq># ids B + ids C"
  using ids_mono [of A "B + C"] by simp

lemma handed_over_step:
  assumes "channel_step P c e = Some d" and "e \<noteq> Handle" and "length (ch_received c) \<le> length (ch_msgs c)"
  shows "handed_over d = handed_over c"
  using msgs_step [OF assms(1)] received_step [OF assms(1,2)] assms(3) by (auto simp: handed_over_def)

lemma handed_over_Handle:
  assumes "channel_step P c Handle = Some d" and "drop (length (ch_received c)) (ch_msgs c) = [m]"
    and "\<not> ch_terminated d" and "flag_inv c" and "ch_destructor c = D_None"
  shows "handed_over d = handed_over c @ [m]"
proof -
  have "ch_msgs d = ch_msgs c" "length (ch_received d) = Suc (length (ch_received c))"
    using assms(1) by (cases rule: handle_step; use assms(3-5) in \<open>simp add: flag_inv_def\<close>)+
  moreover have "length (ch_msgs c) = Suc (length (ch_received c))"
    using arg_cong [OF assms(2), of length] by simp
  moreover have "take (length (ch_received c)) (ch_msgs c) @ [m] = ch_msgs c"
    using append_take_drop_id [of "length (ch_received c)" "ch_msgs c"] by (simp only: assms(2))
  ultimately show ?thesis by (simp add: handed_over_def)
qed

lemma waiting_mono:
  assumes "rm_mutex t = rm_mutex s \<or> rm_mutex t = None"
    and "\<And>i m. rm_mutex t = Some (i, m) \<Longrightarrow> sender_at (rm_req t) i = Some S_Idle \<Longrightarrow> sender_at (rm_req s) i = Some S_Idle"
  shows "waiting t \<subseteq># waiting s"
  using assms by (auto simp: waiting_def split: option.splits)

lemma waiting_same: "rm_mutex t = rm_mutex s \<Longrightarrow> rm_req t = rm_req s \<Longrightarrow> waiting t = waiting s"
  by (cases "rm_mutex s") (auto simp: waiting_def)

lemma add_sub: "A \<subseteq># A' \<Longrightarrow> B \<subseteq># B' \<Longrightarrow> A' + B' \<subseteq># C \<Longrightarrow> A + B \<subseteq># (C :: 'a multiset)"
  by (meson subset_mset.add_mono subset_mset.order_trans)

context semaphore
begin

lemma once_call:
  assumes set: "remote_setting R" and inv: "once_inv s" and st: "remote_call R i ident p k s = Some t"
  shows "once_inv t"
proof -
  obtain m where "response_slot (re_ipc R) (re_action R) (rm_client s) = Ok m" using response_slot_ok [OF set] by blast
  then obtain cl where free: "rm_mutex s = None" and
    t: "rm_mutex t = Some (i, ActionData (re_action R) ident p)" "rm_issued t = rm_issued s @ [(ident, p)]"
      "rm_req t = rm_req s" "rm_rsp t = rm_rsp s" "rm_threads t = rm_threads s"
    using st by (auto simp: remote_call_def async_def Let_def split: if_splits)
  have "ids (waiting t) \<subseteq># {#ident#}" using t(1) by (simp add: waiting_def)
  moreover have "ids (entered (rm_req s)) \<subseteq># mset (map fst (rm_issued s))"
    using inv by (auto simp: once_inv_def intro: add_sub [of "{#}" _ "ids (entered (rm_req s))", simplified])
  ultimately have "ids (waiting t) + ids (entered (rm_req s)) \<subseteq># {#ident#} + mset (map fst (rm_issued s))"
    by (rule subset_mset.add_mono)
  then show ?thesis using inv by (simp add: once_inv_def t(2-5))
qed

lemma served_id:
  assumes "remote_setting R" and inv: "answerable cnt R s" and "m \<in> set (rm_threads s)"
    and "serve_action (re_action R) (returns (re_handler R)) m = Ok r"
  shows "msg_id r = msg_id m"
proof -
  obtain x where x: "x \<in> set (rm_issued s)" "m = ActionData (re_action R) (fst x) (snd x)"
    using inv assms(3) by (auto simp: answerable_def remote_inv_def is_request_def)
  then show ?thesis using reply_ok [OF assms(1), of x] answerable_good [OF inv] assms(4) by auto
qed

text \<open>A thread is started for a message that is handed over, and only then.\<close>

lemma request_handed:
  assumes set: "remote_setting R" and L: "re_sem R = L" and inv: "answerable cnt R s" and st: "request_step R ev s = Some t"
  shows "\<exists>ms. rm_threads t = rm_threads s @ ms \<and> handed_over (rm_req t) = handed_over (rm_req s) @ ms \<and> length ms \<le> 1"
proof -
  have good: "\<forall>x \<in> set (rm_issued s). good_call R x"
    and dir: "direction_inv cnt (re_ipc R) (is_request R (rm_issued s)) (rm_req s)"
    using inv answerable_good [OF inv] by (simp_all add: answerable_def remote_inv_def)
  obtain c where c: "channel_step (server_peers R) (rm_req s) ev = Some c" "rm_req t = c"
    and th: "rm_threads t = rm_threads s @
      (if ev = Handle then case handed (server_peers R) (rm_req s) of None \<Rightarrow> [] | Some m \<Rightarrow> [m] else [])"
    using st by (rule request_stepE)
  have up: "\<not> ch_terminated c" using answerable_request [OF set L inv st] c(2) by (simp add: answerable_def)
  show ?thesis
  proof (cases "ev = Handle")
    case True
    then have h: "ch_receiver (rm_req s) = R_Handling" "channel_step (server_peers R) (rm_req s) Handle = Some c"
      using c(1) by (auto elim: handle_step)
    obtain m where m: "drop (length (ch_received (rm_req s))) (ch_msgs (rm_req s)) = [m]"
        "handed (server_peers R) (rm_req s) = Some m"
      using server_hears [OF set good dir h(1)] by blast
    have "handed_over c = handed_over (rm_req s) @ [m]"
      using handed_over_Handle [OF h(2) m(1) up] dir by (simp add: direction_inv_def chan_inv_def)
    then show ?thesis using th True m(2) c(2) by simp
  next
    case False
    then show ?thesis
      using th c(2) handed_over_step [OF c(1) False direction_received [OF dir]] by simp
  qed
qed

lemma once_request:
  assumes set: "remote_setting R" and L: "re_sem R = L" and inv: "answerable cnt R s" and once: "once_inv s"
    and st: "request_step R ev s = Some t"
  shows "once_inv t"
proof -
  obtain c where c: "channel_step (server_peers R) (rm_req s) ev = Some c" "rm_req t = c" "rm_rsp t = rm_rsp s"
      "rm_issued t = rm_issued s" "rm_mutex t = rm_mutex s \<or> rm_mutex t = None"
    and ev: "living_event (\<lambda>m. \<exists>i. rm_mutex s = Some (i, m)) ev"
    using st by (rule request_stepE)
  have "ids (waiting t) + ids (entered c) \<subseteq># ids (waiting s) + ids (entered (rm_req s))"
  proof (cases "internal_event ev")
    case True
    then have "waiting t \<subseteq># waiting s"
      using request_idle [OF st] c(5) by (intro waiting_mono) blast+
    moreover have "entered c \<subseteq># entered (rm_req s)"
      using entered_step [OF c(1)] True by (cases ev) (simp_all add: enters_def)
    ultimately show ?thesis by (intro subset_mset.add_mono ids_mono)
  next
    case False
    then obtain i m where im: "ev = WaitEmpty i m" using ev by (cases ev) auto
    then have "rm_mutex s = Some (i, m)" "sender_at (rm_req s) i = Some S_Idle" "sender_at c i \<noteq> Some S_Idle"
      using st c(1) by (auto simp: request_step_def Let_def channel_step_def channel_steps sender_at_Some split: option.splits if_splits)
    then have "waiting s = {#m#}" "waiting t = {#}" using c(2,5) by (auto simp: waiting_def)
    then show ?thesis using ids_sub [OF entered_step [OF c(1)]] im by (simp add: enters_def)
  qed
  then have "ids (waiting t) + ids (entered c) \<subseteq># mset (map fst (rm_issued s))"
    using once unfolding once_inv_def by (blast intro: subset_mset.order_trans)
  moreover have "ids (mset (rm_threads t)) + ids (entered (rm_rsp s)) \<subseteq># mset (map msg_id (handed_over c))"
  proof -
    obtain ms where "rm_threads t = rm_threads s @ ms" "handed_over c = handed_over (rm_req s) @ ms"
      using request_handed [OF set L inv st] c(2) by blast
    then show ?thesis using once by (simp add: once_inv_def ids_def)
  qed
  ultimately show ?thesis using c(2-4) by (simp add: once_inv_def)
qed

lemma once_reply:
  assumes set: "remote_setting R" and L: "re_sem R = L" and inv: "answerable cnt R s" and once: "once_inv s"
    and st: "reply_step R i k s = Some t"
  shows "once_inv t"
proof -
  have "\<not> rm_down t" using answerable_reply [OF set L inv st] by (simp add: answerable_def)
  with st show ?thesis
  proof (rule reply_stepE)
    fix c r
    assume k: "k < length (rm_threads s)" "serve_action (re_action R) (returns (re_handler R)) (rm_threads s ! k) = Ok r"
      and c: "channel_step (client_peers R (rm_client s)) (rm_rsp s) (WaitEmpty i r) = Some c"
      and t: "t = s\<lparr>rm_rsp := c, rm_threads := take k (rm_threads s) @ drop (Suc k) (rm_threads s)\<rparr>"
    have r: "msg_id r = msg_id (rm_threads s ! k)"
      using served_id [OF set inv _ k(2)] k(1) by simp
    have "mset (rm_threads s) = add_mset (rm_threads s ! k) (mset (rm_threads t))"
      by (subst id_take_nth_drop [OF k(1)]) (simp add: t)
    then have "ids (mset (rm_threads t)) + ids (entered c) \<subseteq># ids (mset (rm_threads s)) + ids (entered (rm_rsp s))"
      using ids_sub [OF entered_step [OF c]] r by (simp add: enters_def)
    then have "ids (mset (rm_threads t)) + ids (entered c) \<subseteq># mset (map msg_id (handed_over (rm_req s)))"
      using once unfolding once_inv_def by (blast intro: subset_mset.order_trans)
    then show ?thesis using once waiting_same [of t s] by (simp add: once_inv_def t)
  qed
qed

lemma once_response:
  assumes once: "once_inv s" and st: "response_step R ev s = Some t"
  shows "once_inv t"
proof -
  obtain c where c: "channel_step (client_peers R (rm_client s)) (rm_rsp s) ev = Some c" "rm_rsp t = c" "rm_req t = rm_req s"
    "rm_issued t = rm_issued s" "rm_mutex t = rm_mutex s" "rm_threads t = rm_threads s" "living_event (\<lambda>_. False) ev"
    using st by (rule response_stepE)
  have "ids (entered c) \<subseteq># ids (entered (rm_rsp s))"
    using entered_step [OF c(1)] c(7) by (cases ev) (auto simp: enters_def intro: ids_mono)
  then have "ids (mset (rm_threads s)) + ids (entered c) \<subseteq># mset (map msg_id (handed_over (rm_req s)))"
    using once by (auto simp: once_inv_def intro: add_sub)
  then show ?thesis using once c waiting_same [of t s] by (simp add: once_inv_def)
qed

text \<open>A response handler is called for a response that was written.\<close>

lemma response_calls:
  assumes set: "remote_setting R" and inv: "answerable cnt R s" and st: "response_step R ev s = Some t"
  shows "\<exists>xs. ai_calls (rm_client t) = ai_calls (rm_client s) @ xs \<and> fst ` set xs \<subseteq> msg_id ` set (ch_msgs (rm_rsp s))"
proof -
  obtain c where c: "channel_step (client_peers R (rm_client s)) (rm_rsp s) ev = Some c"
    and cl: "rm_client t = (case (ev, handed (client_peers R (rm_client s)) (rm_rsp s)) of
        (Handle, Some m) \<Rightarrow> fst (M_responseHandler (ie_throw (re_ipc R)) (re_action R) m (rm_client s))
      | _ \<Rightarrow> rm_client s)"
    using st by (rule response_stepE)
  show ?thesis
  proof (cases "ev = Handle \<and> handed (client_peers R (rm_client s)) (rm_rsp s) \<noteq> None")
    case True
    then have h: "ch_receiver (rm_rsp s) = R_Handling" using c by (auto elim: handle_step)
    have ep: "ai_endpoints (rm_client s) \<noteq> {}" using True by (auto simp: handed_def client_peers_def split: outcome.splits)
    have dir: "direction_inv cnt (re_ipc R) (is_reply R (rm_issued s)) (rm_rsp s)"
      using inv by (simp add: answerable_def remote_inv_def)
    obtain m where m: "drop (length (ch_received (rm_rsp s))) (ch_msgs (rm_rsp s)) = [m]"
        "handed (client_peers R (rm_client s)) (rm_rsp s) = Some m"
      using client_hears [OF set answerable_good [OF inv] ep dir h] by blast
    have "m \<in> set (ch_msgs (rm_rsp s))" using m(1) by (metis in_set_dropD list.set_intros(1))
    then show ?thesis
      using True cl m(2) M_responseHandler_calls [of "ie_throw (re_ipc R)" "re_action R" m "rm_client s"] by auto
  qed (use cl in \<open>auto split: channel_event.splits\<close>)
qed

lemma once_step:
  assumes "remote_setting R" and "re_sem R = L" and "answerable cnt R s" and "once_inv s" and "actions_step R s e = Some t"
  shows "once_inv t"
  using assms once_call [OF assms(1,4)] once_request [OF assms(1-4)] once_reply [OF assms(1-4)] once_response [OF assms(4)]
  by (cases e) (simp_all add: actions_step_def split: if_splits)

end

section \<open>Handlers and identifiers\<close>

text \<open>The client keeps handlers only for identifiers that were issued.\<close>

definition client_once :: "'s remote \<Rightarrow> bool" where
  "client_once s \<longleftrightarrow> calls_inv (rm_client s) \<and> (\<forall>i. i \<notin> fst ` set (rm_issued s) \<longrightarrow> free_id (rm_client s) i)"

lemma response_free:
  assumes "calls_inv cl"
  shows "calls_inv (fst (M_responseHandler E A m cl))" and "free_id cl i \<Longrightarrow> free_id (fst (M_responseHandler E A m cl)) i"
proof -
  have "action_step E A cl (A_Response m) = Some (fst (M_responseHandler E A m cl))"
  proof (cases "ai_active_handlers cl (msg_id m)")
    case (Some h)
    then have "h r j = H_Returns" for r j using assms by (auto simp: calls_inv_def)
    then show ?thesis using Some by (simp add: action_step_def M_responseHandler_def Let_def)
  qed (simp add: action_step_def M_responseHandler_def outcome_simps)
  from response_event [OF assms this] show "calls_inv (fst (M_responseHandler E A m cl))"
    and "free_id cl i \<Longrightarrow> free_id (fst (M_responseHandler E A m cl)) i" by blast+
qed

lemma client_call:
  assumes set: "remote_setting R" and inv: "client_once s" and st: "remote_call R i ident p k s = Some t"
    and k: "\<forall>r j. k r j = H_Returns" and fresh: "ident \<notin> fst ` set (rm_issued s)"
  shows "client_once t"
proof -
  obtain m where "response_slot (re_ipc R) (re_action R) (rm_client s) = Ok m" using response_slot_ok [OF set] by blast
  then have t: "rm_issued t = rm_issued s @ [(ident, p)]" "ai_calls (rm_client t) = ai_calls (rm_client s)"
      "ai_active_handlers (rm_client t) = (ai_active_handlers (rm_client s))(ident \<mapsto> k)"
    using st by (auto simp: remote_call_def async_def Let_def split: if_splits)
  have "free_id (rm_client s) ident" using inv fresh by (simp add: client_once_def)
  then show ?thesis using inv k by (auto simp: client_once_def calls_inv_def free_id_def t)
qed

lemma client_response:
  assumes inv: "client_once s" and st: "response_step R ev s = Some t"
  shows "client_once t"
proof -
  have "rm_issued t = rm_issued s" using st by (rule response_stepE)
  moreover have "rm_client t \<in> insert (rm_client s)
      (range (\<lambda>m. fst (M_responseHandler (ie_throw (re_ipc R)) (re_action R) m (rm_client s))))"
    using st by (rule response_stepE) (auto split: channel_event.splits option.splits)
  ultimately show ?thesis using inv response_free by (auto simp: client_once_def)
qed

lemma client_once_step:
  assumes "remote_setting R" and "client_once s" and "actions_step R s e = Some t" and "fitting_event R e"
    and "distinct (map fst (rm_issued t))"
  shows "client_once t"
proof (cases e)
  case (Call i ident p k)
  have st: "remote_call R i ident p k s = Some t" using assms(3) Call by (simp add: actions_step_def split: if_splits)
  obtain m where "response_slot (re_ipc R) (re_action R) (rm_client s) = Ok m" using response_slot_ok [OF assms(1)] by blast
  then have "rm_issued t = rm_issued s @ [(ident, p)]"
    using st by (auto simp: remote_call_def async_def Let_def split: if_splits)
  then have "ident \<notin> fst ` set (rm_issued s)" using assms(5) by simp
  then show ?thesis using client_call [OF assms(1,2) st] assms(4) Call by simp
next
  case (Request ev)
  then have "request_step R ev s = Some t" using assms(3) by (simp add: actions_step_def split: if_splits)
  then have "rm_issued t = rm_issued s" "rm_client t = rm_client s" by (auto elim: request_stepE)
  then show ?thesis using assms(2) by (simp add: client_once_def)
next
  case (Reply i k)
  then have "rm_issued t = rm_issued s" "rm_client t = rm_client s"
    using assms(3) by (auto simp: actions_step_def reply_step_def split: if_splits outcome.splits)
  then show ?thesis using assms(2) by (simp add: client_once_def)
next
  case (Response ev)
  then have "response_step R ev s = Some t" using assms(3) by (simp add: actions_step_def split: if_splits)
  then show ?thesis by (rule client_response [OF assms(2)])
qed

section \<open>Runs\<close>

lemma remote_exec_prefix: "exec (actions_step R) s es = Some t \<Longrightarrow> \<exists>cs. rm_issued t = rm_issued s @ cs"
proof (induction es arbitrary: s)
  case (Cons e es)
  then obtain u where "actions_step R s e = Some u" "exec (actions_step R) u es = Some t" by (auto split: option.splits)
  then show ?case using Cons.IH [of u] remote_issued_mono [of R s e u] by auto
qed simp

lemma once_exec:
  assumes "remote_setting R" and sem: "semaphore (re_sem R) cnt" and "answerable cnt R s" "once_inv s" "client_once s"
    and "exec (actions_step R) s es = Some t" and "\<forall>e \<in> set es. fitting_event R e" and "distinct (map fst (rm_issued t))"
  shows "once_inv t \<and> client_once t"
  using assms(3-7)
proof (induction es arbitrary: s)
  case (Cons e es)
  then obtain u where u: "actions_step R s e = Some u" "exec (actions_step R) u es = Some t" by (auto split: option.splits)
  have e: "fitting_event R e" using Cons.prems(5) by simp
  obtain cs where "rm_issued t = rm_issued u @ cs" using remote_exec_prefix [OF u(2)] by blast
  then have d: "distinct (map fst (rm_issued u))" using assms(8) by simp
  have "answerable cnt R u" "once_inv u" "client_once u"
    using semaphore.answerable_step [OF sem assms(1) refl Cons.prems(1) u(1) e]
      semaphore.once_step [OF sem assms(1) refl Cons.prems(1,2) u(1)]
      client_once_step [OF assms(1) Cons.prems(3) u(1) e d] by blast+
  then show ?case using Cons.IH u(2) Cons.prems(5) by simp
qed simp

lemma held_new: "sum_list (replicate n {#}) = {#}"
  by (induction n) simp_all

lemma once_new: "once_inv (new_remote R mem mem' n k)" and client_once_new: "client_once (new_remote R mem mem' n k)"
  by (simp_all add: once_inv_def client_once_def new_remote_def waiting_def entered_def held_def new_channel_def held_new
      new_action_state_def calls_inv_def free_id_def)

lemma distinct_sub:
  assumes "mset xs \<subseteq># mset ys" and "distinct ys"
  shows "distinct xs"
proof -
  have "count (mset xs) a \<le> count (mset ys) a" for a using assms(1) by (rule mset_subset_eq_count)
  moreover have "count (mset ys) a \<le> 1" for a using assms(2) by (simp add: distinct_count_atmost_1)
  ultimately have "count (mset xs) a \<le> 1" for a using order_trans by blast
  moreover have "a \<in> set xs \<Longrightarrow> 1 \<le> count (mset xs) a" for a by (metis count_greater_eq_one_iff set_mset_mset)
  moreover have "a \<notin> set xs \<Longrightarrow> count (mset xs) a = 0" for a by (metis count_inI set_mset_mset)
  ultimately show ?thesis unfolding distinct_count_atmost_1 by (metis le_antisym)
qed

lemma distinct_singleton: "distinct xs \<Longrightarrow> set xs = {x} \<Longrightarrow> xs = [x]"
  by (cases xs; cases "tl xs") auto

text \<open>A run that makes no new calls has no calls among its events.\<close>

lemma no_new_calls:
  assumes set: "remote_setting R" and "exec (actions_step R) s es = Some t" and "rm_issued t = rm_issued s"
  shows "\<forall>e \<in> set es. fitting_event R e"
  using assms(2,3)
proof (induction es arbitrary: s)
  case (Cons e es)
  then obtain u where u: "actions_step R s e = Some u" "exec (actions_step R) u es = Some t" by (auto split: option.splits)
  obtain cs ds where mono: "rm_issued u = rm_issued s @ cs" "rm_issued t = rm_issued u @ ds"
    using remote_issued_mono [OF u(1)] remote_exec_prefix [OF u(2)] by blast
  then have same: "rm_issued u = rm_issued s" "rm_issued t = rm_issued u" using Cons.prems(2) by simp_all
  have "fitting_event R e"
  proof (cases e)
    case (Call i ident p k)
    obtain m where "response_slot (re_ipc R) (re_action R) (rm_client s) = Ok m" using response_slot_ok [OF set] by blast
    then show ?thesis using u(1) same(1) Call
      by (auto simp: actions_step_def remote_call_def async_def Let_def split: if_splits)
  qed simp_all
  then show ?case using Cons.IH [OF u(2) same(2)] by simp
qed simp

lemma once_distinct:
  assumes "once_inv s" and "distinct (map fst (rm_issued s))"
  shows "distinct (map msg_id (ch_msgs (rm_req s)))" and "distinct (map msg_id (rm_threads s @ ch_msgs (rm_rsp s)))"
    and "msg_id ` set (rm_threads s) \<subseteq> msg_id ` set (handed_over (rm_req s))"
proof -
  have "ids (mset (ch_msgs (rm_req s))) \<subseteq># ids (waiting s) + ids (entered (rm_req s))"
    by (simp add: entered_def add.commute add.left_commute)
  then have "mset (map msg_id (ch_msgs (rm_req s))) \<subseteq># mset (map fst (rm_issued s))"
    using assms(1) unfolding once_inv_def ids_mset by (blast intro: subset_mset.order_trans)
  then show req: "distinct (map msg_id (ch_msgs (rm_req s)))" using assms(2) by (rule distinct_sub)
  then have "distinct (map msg_id (handed_over (rm_req s)))"
    unfolding handed_over_def by (simp add: take_map [symmetric])
  moreover have sub: "mset (map msg_id (rm_threads s @ ch_msgs (rm_rsp s))) \<subseteq># mset (map msg_id (handed_over (rm_req s)))"
  proof -
    have "mset (map msg_id (rm_threads s @ ch_msgs (rm_rsp s))) \<subseteq># ids (mset (rm_threads s)) + ids (entered (rm_rsp s))"
      by (simp add: entered_def ids_def)
    then show ?thesis using assms(1) unfolding once_inv_def by (blast intro: subset_mset.order_trans)
  qed
  ultimately show "distinct (map msg_id (rm_threads s @ ch_msgs (rm_rsp s)))" by (rule distinct_sub [rotated])
  show "msg_id ` set (rm_threads s) \<subseteq> msg_id ` set (handed_over (rm_req s))"
    using set_mset_mono [OF sub] by auto
qed

section \<open>Property\<close>

text \<open>
  C18. A remote call is carried out at most once. When the identifiers are distinct, as random ones are, no run in which the
  messages fit and the handlers return, whatever the order of the threads of both processes, writes two requests
  for one identifier, starts two threads for one, sends two responses for one (the threads at work and the responses written are of
  different calls), or calls the response handler for one twice.
\<close>

theorem remote_calls_once:
  assumes "remote_setting R" and "semaphore (re_sem R) cnt" and "length mem = MaxMessageSize" and "length mem' = MaxMessageSize"
    and "exec (actions_step R) (new_remote R mem mem' n (Suc k)) es = Some s" and "\<forall>e \<in> set es. fitting_event R e"
    and "distinct (map fst (rm_issued s))"
  shows "distinct (map msg_id (ch_msgs (rm_req s))) \<and> distinct (map msg_id (rm_threads s @ ch_msgs (rm_rsp s))) \<and>
     distinct (map fst (ai_calls (rm_client s)))"
proof -
  have inv: "once_inv s" "client_once s"
    using once_exec [OF assms(1,2) answerable_new [OF assms(2-4)] once_new client_once_new assms(5-7)] by blast+
  then show ?thesis using once_distinct [OF inv(1) assms(7)] by (simp add: client_once_def calls_inv_def)
qed

theorem remote_calls_once_witness:
  "\<exists>es s. exec (actions_step add_remote) (new_remote add_remote zeros zeros 1 1) es = Some s \<and>
     map fst (ai_calls (rm_client s)) = [''7F''] \<and> distinct (map msg_id (ch_msgs (rm_req s)))"
proof -
  let ?e = "Call 0 (fst add_call) (snd add_call) (\<lambda>_ _. H_Returns)"
  have sem: "semaphore (re_sem add_remote) (\<lambda>n. n)" using nat_sem.semaphore_axioms by simp
  obtain s where s: "actions_step add_remote (new_remote add_remote zeros zeros 1 1) ?e = Some s" "rm_issued s = [add_call]"
    using add_call_step by blast
  have "answerable (\<lambda>n. n) add_remote s"
    using answerable_exec [OF add_setting sem answerable_new [OF sem zeros_length zeros_length], of 1 0 "[?e]" s] s(1) add_fits
    by simp
  then obtain fs t where t: "exec (actions_step add_remote) s fs = Some t" "answerable (\<lambda>n. n) add_remote t"
      "rm_issued t = rm_issued s" "remote_rank (\<lambda>n. n) t = 0"
    using semaphore.remote_finishes [OF sem add_setting refl] by (metis (no_types))
  have run: "exec (actions_step add_remote) (new_remote add_remote zeros zeros 1 (Suc 0)) (?e # fs) = Some t"
    using s(1) t(1) by simp
  have fits: "\<forall>e \<in> set (?e # fs). fitting_event add_remote e"
    using add_fits no_new_calls [OF add_setting t(1,3)] by simp
  have d: "distinct (map msg_id (ch_msgs (rm_req t)))" "distinct (map fst (ai_calls (rm_client t)))"
    using remote_calls_once [OF add_setting sem zeros_length zeros_length run fits] t(3) s(2) by simp_all
  have "fst ` set (ai_calls (rm_client t)) = {''7F''}"
  proof
    show "fst ` set (ai_calls (rm_client t)) \<subseteq> {''7F''}"
      using t(2,3) s(2) by (fastforce simp: answerable_def remote_inv_def answers_match_def add_call_def)
    show "{''7F''} \<subseteq> fst ` set (ai_calls (rm_client t))"
      using semaphore.finished_answered [OF sem t(2,4), of add_call] t(3) s(2) by (simp add: add_call_def)
  qed
  then have "map fst (ai_calls (rm_client t)) = [''7F'']" using distinct_singleton [OF d(2)] by simp
  with run d(1) show ?thesis unfolding One_nat_def by (intro exI [of _ "?e # fs"] exI [of _ t] conjI)
qed

end
