(* ===== verification/Ipc_Cmd.thy ===== *)
theory Ipc_Cmd
  imports Ipc_Once
begin

text \<open>
  The example program for actions, \<^verbatim>\<open>examples/ipc_cmd/src/main.cpp\<close>, with the action of its \<^verbatim>\<open>ipc_actions.def\<close>: one process
  that holds both ends of an endpoint, calls the action twice and waits in a loop until both responses were
  printed. The threads are those of \<^verbatim>\<open>Ipc_Remote\<close>, the main thread, and the threads that run the handler of the
  action, which go through its accesses to \<^verbatim>\<open>count\<close> one at a time.
\<close>

section \<open>The action\<close>

text \<open>
  The random bytes of the identifiers are parameters. So is the member \<^verbatim>\<open>bat\<close>: a \<^verbatim>\<open>float\<close>, which has no constructor
  among the elements, and whose value the program only carries to the standard output. \<open>ce_zero\<close> is its value in
  a zero initialised response, \<open>ce_bat\<close> the value the handler returns.
\<close>

record ('s, 'n) cmd_env =
  ce_sem :: "'s sem_lib"
  ce_ipc :: "'n ipc_env"
  ce_hex :: hex_lib
  ce_uuid :: "nat \<Rightarrow> string"
  ce_zero :: elem
  ce_bat :: elem
  ce_show_bat :: "elem \<Rightarrow> string"

definition SetZoom :: "elem \<Rightarrow> action" where
  "SetZoom bat =
     \<lparr>ac_name = ''camera::SetZoom'', ac_file = ''ipc_actions.def'', ac_line = 1,
      ac_action_type = ''N4lesf3ipc4user6camera7SetZoom10ActionDataE'',
      ac_response_type = ''N4lesf3ipc4user6camera7SetZoom12ResponseDataE'',
      ac_params = [(''foo'', EInt 0), (''bar'', EStr [])], ac_response = [(''baz'', EBool False), (''bat'', bat)]\<rparr>"

definition cmd_id :: "('s, 'n) cmd_env \<Rightarrow> nat \<Rightarrow> string" where
  "cmd_id E n = generateId (ce_hex E) (ce_uuid E n)"

text \<open>The parameters of the first and of the second call.\<close>

definition cmd_params :: "nat \<Rightarrow> tpl" where
  "cmd_params n =
     (if n = 0 then [(''foo'', EInt 123), (''bar'', EStr ''banana'')]
      else [(''foo'', EInt 666), (''bar'', EStr ''pineapple'')])"

text \<open>What the handler returns when it reads the count \<open>v\<close>; \<^verbatim>\<open>Error\<close> has the code \<open>-1\<close> by default.\<close>

definition zoom_result :: "('s, 'n) cmd_env \<Rightarrow> cint \<Rightarrow> response_or_error" where
  "zoom_result E v =
     (if v = 0 then Either_v [(''baz'', EBool True), (''bat'', ce_bat E)] else Either_u (Error_make ''YOLO'' (- 1)))"

definition processing_line :: "tpl \<Rightarrow> string" where
  "processing_line p =
     ''Processing action (foo='' @ int_dec (sint (tpl_int p ''foo'' 0)) @ '', bar='' @ tpl_str p ''bar'' [] @ '')''"

text \<open>The two lambdas that wait for the responses; they differ in one character.\<close>

definition response_line :: "('s, 'n) cmd_env \<Rightarrow> bool \<Rightarrow> string \<Rightarrow> response_or_error \<Rightarrow> string res" where
  "response_line E second ident roe =
     (if isError roe
      then obind (getError roe) (\<lambda>e. Ok (''['' @ ident @ (if second then '']: error: '' else ''] error: '') @ er_message e))
      else obind (getResponse roe) (\<lambda>r.
        Ok (''['' @ ident @ ''] '' @ (if tpl_bool r ''baz'' False then ''1'' else ''0'') @ '' ('' @
            ce_show_bat E (case map_of r ''bat'' of Some b \<Rightarrow> b | None \<Rightarrow> ce_zero E) @ '')'')))"

section \<open>State\<close>

datatype cmd_main =
    At_First
  | At_Second
  | In_Loop
  | Left_Loop
  | Deleting_Client
  | Deleting_Server
  | Main_Returned
  | Main_Terminated

datatype handler_thread = T_Started | T_Sleeping | T_Awake | T_Counting cint | T_Answer response_or_error

datatype cmd_source = From_Server | From_Client

text \<open>
  \<open>cm_threads\<close> says for each thread of \<open>rm_threads\<close> how far its handler is. \<open>cm_cout\<close> is what was written to \<^verbatim>\<open>std::cout\<close>,
  statement by statement, by the server's threads or by the lambdas; characters of statements of different threads
  may be interleaved. \<open>cm_log\<close> is history: what the handler returned, in the order of the stores to \<^verbatim>\<open>count\<close>.
\<close>

record 's cmd_state =
  cm_main :: cmd_main
  cm_remote :: "'s remote"
  cm_threads :: "handler_thread list"
  cm_count :: cint
  cm_done :: cint
  cm_cout :: "(cmd_source \<times> string) list"
  cm_log :: "(string \<times> response_or_error) list"

datatype cmd_event = Main | Handler nat | Remote remote_event

definition cmd_remote :: "('s, 'n) cmd_env \<Rightarrow> (tpl \<Rightarrow> string \<Rightarrow> response_or_error) \<Rightarrow> ('s, 'n) remote_env" where
  "cmd_remote E h = \<lparr>re_sem = ce_sem E, re_ipc = ce_ipc E, re_action = SetZoom (ce_zero E), re_handler = h\<rparr>"

definition cmd_start :: "('s, 'n) cmd_env \<Rightarrow> string \<Rightarrow> string \<Rightarrow> nat \<Rightarrow> 's cmd_state" where
  "cmd_start E mem mem' k =
     \<lparr>cm_main = At_First, cm_remote = new_remote (cmd_remote E (\<lambda>_ _. zoom_result E 0)) mem mem' 1 k, cm_threads = [],
      cm_count = 0, cm_done = 0, cm_cout = [], cm_log = []\<rparr>"

section \<open>Steps\<close>

text \<open>An exception of \<^verbatim>\<open>async\<close> leaves \<^verbatim>\<open>main\<close>. The lambdas return.\<close>

definition cmd_async :: "('s, 'n) cmd_env \<Rightarrow> nat \<Rightarrow> cmd_main \<Rightarrow> 's cmd_state \<Rightarrow> 's cmd_state option" where
  "cmd_async E n next_main s =
     map_option (\<lambda>r. s\<lparr>cm_remote := r, cm_main := (if rm_mutex r = None then Main_Terminated else next_main)\<rparr>)
       (actions_step (cmd_remote E (\<lambda>_ _. zoom_result E 0)) (cm_remote s)
         (Call 0 (cmd_id E n) (cmd_params n) (\<lambda>_ _. H_Returns)))"

text \<open>The destructor of an endpoint, on the direction it receives from (\<^verbatim>\<open>Ipc_Channel\<close>).\<close>

definition delete_step :: "('s, 'n) peers \<Rightarrow> 's channel \<Rightarrow> 's channel option" where
  "delete_step P c =
     (case ch_destructor c of
        D_None \<Rightarrow> channel_step P c ShutdownFlag
      | D_Flagged \<Rightarrow> channel_step P c ShutdownPost
      | D_Joining \<Rightarrow> channel_step P c Join
      | D_Gone \<Rightarrow> None)"

definition delete_client :: "('s, 'n) cmd_env \<Rightarrow> 's cmd_state \<Rightarrow> 's cmd_state option" where
  "delete_client E s =
     (let r = cm_remote s in
      map_option (\<lambda>c. s\<lparr>cm_remote := r\<lparr>rm_rsp := c\<rparr>,
          cm_main := (if ch_destructor c = D_Gone then Deleting_Server else Deleting_Client)\<rparr>)
        (delete_step (client_peers (cmd_remote E (\<lambda>_ _. zoom_result E 0)) (rm_client r)) (rm_rsp r)))"

definition delete_server :: "('s, 'n) cmd_env \<Rightarrow> 's cmd_state \<Rightarrow> 's cmd_state option" where
  "delete_server E s =
     (let r = cm_remote s in
      map_option (\<lambda>c. s\<lparr>cm_remote := r\<lparr>rm_req := c\<rparr>,
          cm_main := (if ch_destructor c = D_Gone then Main_Returned else Deleting_Server)\<rparr>)
        (delete_step (server_peers (cmd_remote E (\<lambda>_ _. zoom_result E 0))) (rm_req r)))"

text \<open>The main thread is inside \<^verbatim>\<open>async\<close> as long as the mutex of the class is locked.\<close>

definition main_step :: "('s, 'n) cmd_env \<Rightarrow> 's cmd_state \<Rightarrow> 's cmd_state option" where
  "main_step E s =
     (if rm_mutex (cm_remote s) \<noteq> None then None
      else case cm_main s of
        At_First \<Rightarrow> cmd_async E 0 At_Second s
      | At_Second \<Rightarrow> cmd_async E 1 In_Loop s
      | In_Loop \<Rightarrow> Some (if cm_done s \<noteq> 2 then s else s\<lparr>cm_main := Left_Loop\<rparr>)
      | Left_Loop \<Rightarrow> delete_client E s
      | Deleting_Client \<Rightarrow> delete_client E s
      | Deleting_Server \<Rightarrow> delete_server E s
      | _ \<Rightarrow> None)"

text \<open>
  A thread of the handler: it says what it processes, sleeps, says that it is done, reads \<^verbatim>\<open>count\<close>, stores
  the incremented value and returns.
\<close>

definition handler_step :: "('s, 'n) cmd_env \<Rightarrow> nat \<Rightarrow> 's cmd_state \<Rightarrow> 's cmd_state option" where
  "handler_step E k s =
     (if k < length (cm_threads s) \<and> k < length (rm_threads (cm_remote s)) then
        (let m = rm_threads (cm_remote s) ! k in
         case cm_threads s ! k of
           T_Started \<Rightarrow> Some (s\<lparr>cm_threads := (cm_threads s)[k := T_Sleeping],
             cm_cout := cm_cout s @ [(From_Server, processing_line (action_params m))]\<rparr>)
         | T_Sleeping \<Rightarrow> Some (s\<lparr>cm_threads := (cm_threads s)[k := T_Awake], cm_cout := cm_cout s @ [(From_Server, ''Done!'')]\<rparr>)
         | T_Awake \<Rightarrow> Some (s\<lparr>cm_threads := (cm_threads s)[k := T_Counting (cm_count s)]\<rparr>)
         | T_Counting v \<Rightarrow> Some (s\<lparr>cm_threads := (cm_threads s)[k := T_Answer (zoom_result E v)], cm_count := v + 1,
             cm_log := cm_log s @ [(msg_id m, zoom_result E v)]\<rparr>)
         | T_Answer r \<Rightarrow> None)
      else None)"

text \<open>The lambda that is called is the one registered last under the identifier.\<close>

definition second_lambda :: "'s remote \<Rightarrow> string \<Rightarrow> bool" where
  "second_lambda r ident \<longleftrightarrow> 2 \<le> length (rm_issued r) \<and> fst (rm_issued r ! 1) = ident"

fun run_lambdas :: "('s, 'n) cmd_env \<Rightarrow> (string \<times> response_or_error) list \<Rightarrow> 's cmd_state \<Rightarrow> 's cmd_state" where
  "run_lambdas E [] s = s"
| "run_lambdas E ((ident, roe) # cs) s =
     run_lambdas E cs
       (case response_line E (second_lambda (cm_remote s) ident) ident roe of
          Ok line \<Rightarrow> s\<lparr>cm_cout := cm_cout s @ [(From_Client, line)], cm_done := cm_done s + 1\<rparr>
        | _ \<Rightarrow> s\<lparr>cm_main := Main_Terminated\<rparr>)"

text \<open>
  A step of the channels, or the end of a handler's thread. What the handler returns matters to the last only. An
  exception of \<^verbatim>\<open>send\<close> in \<^verbatim>\<open>async\<close> leaves \<^verbatim>\<open>main\<close>. A receive thread that finds its endpoint shut down calls no slot.
\<close>

definition remote_events :: "('s, 'n) cmd_env \<Rightarrow> remote_event \<Rightarrow> 's cmd_state \<Rightarrow> 's cmd_state option" where
  "remote_events E e s =
     (let R = cmd_remote E (\<lambda>_ _. zoom_result E 0); r = cm_remote s in
      case e of
        Call i ident p k \<Rightarrow> None
      | Request ev \<Rightarrow>
          if ev = Handle \<and> sb_shutdown (ch_buf (rm_req r))
          then map_option (\<lambda>c. s\<lparr>cm_remote := r\<lparr>rm_req := c\<rparr>\<rparr>) (channel_step (server_peers R) (rm_req r) Handle)
          else map_option (\<lambda>t. s\<lparr>cm_remote := t,
              cm_threads := cm_threads s @ replicate (length (rm_threads t) - length (rm_threads r)) T_Started,
              cm_main := (if ch_errors (rm_req t) \<noteq> ch_errors (rm_req r) then Main_Terminated else cm_main s)\<rparr>)
            (actions_step R r e)
      | Reply i k \<Rightarrow>
          (if k < length (cm_threads s) then
             (case cm_threads s ! k of
                T_Answer res \<Rightarrow>
                  map_option (\<lambda>t. s\<lparr>cm_remote := t, cm_threads := take k (cm_threads s) @ drop (Suc k) (cm_threads s)\<rparr>)
                    (actions_step (cmd_remote E (\<lambda>_ _. res)) r e)
              | _ \<Rightarrow> None)
           else None)
      | Response ev \<Rightarrow>
          if ev = Handle \<and> sb_shutdown (ch_buf (rm_rsp r))
          then map_option (\<lambda>c. s\<lparr>cm_remote := r\<lparr>rm_rsp := c\<rparr>\<rparr>)
            (channel_step (client_peers R (rm_client r)) (rm_rsp r) Handle)
          else map_option (\<lambda>t. run_lambdas E (drop (length (ai_calls (rm_client r))) (ai_calls (rm_client t))) (s\<lparr>cm_remote := t\<rparr>))
            (actions_step R r e))"

definition cmd_step :: "('s, 'n) cmd_env \<Rightarrow> 's cmd_state \<Rightarrow> cmd_event \<Rightarrow> 's cmd_state option" where
  "cmd_step E s e =
     (if cm_main s = Main_Returned \<or> cm_main s = Main_Terminated \<or> rm_down (cm_remote s) then None
      else case e of
        Main \<Rightarrow> main_step E s
      | Handler k \<Rightarrow> handler_step E k s
      | Remote ev \<Rightarrow> remote_events E ev s)"

section \<open>What depends on the handler\<close>

lemma cmd_remote_sel [simp]:
  "re_sem (cmd_remote E h) = ce_sem E" "re_ipc (cmd_remote E h) = ce_ipc E" "re_action (cmd_remote E h) = SetZoom (ce_zero E)"
  "re_handler (cmd_remote E h) = h"
  by (simp_all add: cmd_remote_def)

lemma cmd_peers:
  "server_peers (cmd_remote E h) = server_peers (cmd_remote E h')"
  "client_peers (cmd_remote E h) = client_peers (cmd_remote E h')"
  by (simp_all add: server_peers_def client_peers_def fun_eq_iff)

lemma cmd_is_request: "is_request (cmd_remote E h) = is_request (cmd_remote E h')"
  by (simp add: is_request_def fun_eq_iff)

lemma serve_same:
  "h (action_params m) (msg_id m) = h' (action_params m) (msg_id m) \<Longrightarrow> serve_action A (returns h) m = serve_action A (returns h') m"
  by (simp add: serve_returns)

lemma cmd_steps_same:
  assumes "\<And>i k. e = Reply i k \<Longrightarrow> k < length (rm_threads s) \<Longrightarrow>
      h (action_params (rm_threads s ! k)) (msg_id (rm_threads s ! k)) =
      h' (action_params (rm_threads s ! k)) (msg_id (rm_threads s ! k))"
  shows "actions_step (cmd_remote E h) s e = actions_step (cmd_remote E h') s e"
proof (cases e)
  case (Call i ident p k)
  then show ?thesis by (simp add: actions_step_def remote_call_def)
next
  case (Request ev)
  show ?thesis unfolding Request actions_step_def request_step_def cmd_peers(1) [of E h h'] by simp
next
  case (Reply i k)
  have "k < length (rm_threads s) \<Longrightarrow>
      serve_action (SetZoom (ce_zero E)) (returns h) (rm_threads s ! k) = serve_action (SetZoom (ce_zero E)) (returns h') (rm_threads s ! k)"
    by (rule serve_same) (rule assms [OF Reply])
  then show ?thesis unfolding Reply actions_step_def reply_step_def cmd_peers(2) [of E h h'] by simp
next
  case (Response ev)
  show ?thesis unfolding Response actions_step_def response_step_def cmd_peers(2) [of E h h'] cmd_remote_sel by simp
qed

lemma fitting_same:
  assumes "h (snd x) (fst x) = h' (snd x) (fst x)"
  shows "fitting_call (cmd_remote E h) x = fitting_call (cmd_remote E h') x"
  using assms serve_same [of h "ActionData (SetZoom (ce_zero E)) (fst x) (snd x)" h' "SetZoom (ce_zero E)"]
  by (simp add: fitting_call_def good_call_def call_texts_def)

definition cmd_setting :: "('s, 'n) cmd_env \<Rightarrow> bool" where
  "cmd_setting E \<longleftrightarrow>
     remote_setting (cmd_remote E (\<lambda>_ _. zoom_result E 0)) \<and> cmd_id E 0 \<noteq> cmd_id E 1 \<and>
     list_all (\<lambda>(n, v). fitting_call (cmd_remote E (\<lambda>_ _. zoom_result E v)) (cmd_id E n, cmd_params n)) [(0, 0), (0, 1), (1, 0), (1, 1)]"

lemma cmd_setting_remote: "cmd_setting E \<Longrightarrow> remote_setting (cmd_remote E h)"
  by (simp add: cmd_setting_def remote_setting_def)

text \<open>The handler as a function of the identifier, once it is known what it returned.\<close>

definition zoom_handler :: "('s, 'n) cmd_env \<Rightarrow> (string \<times> response_or_error) list \<Rightarrow> tpl \<Rightarrow> string \<Rightarrow> response_or_error" where
  "zoom_handler E log p ident = (case map_of log ident of Some r \<Rightarrow> r | None \<Rightarrow> zoom_result E 0)"

abbreviation known_remote :: "('s, 'n) cmd_env \<Rightarrow> (string \<times> response_or_error) list \<Rightarrow> ('s, 'n) remote_env" where
  "known_remote E log \<equiv> cmd_remote E (zoom_handler E log)"

definition zoom_log :: "('s, 'n) cmd_env \<Rightarrow> (string \<times> response_or_error) list \<Rightarrow> bool" where
  "zoom_log E log \<longleftrightarrow> snd ` set log \<subseteq> {zoom_result E 0, zoom_result E 1}"

lemma zoom_result_cases: "zoom_result E v \<in> {zoom_result E 0, zoom_result E 1}"
  by (simp add: zoom_result_def)

lemma zoom_handler_cases:
  assumes "zoom_log E log"
  shows "zoom_handler E log p ident \<in> {zoom_result E 0, zoom_result E 1}"
proof (cases "map_of log ident")
  case (Some r)
  then have "r \<in> snd ` set log" by (metis image_eqI map_of_SomeD snd_conv)
  then show ?thesis using assms Some by (auto simp: zoom_log_def zoom_handler_def)
qed (simp add: zoom_handler_def)

lemma cmd_fits:
  assumes "cmd_setting E" and "zoom_log E log" and "n = 0 \<or> n = 1"
  shows "fitting_call (known_remote E log) (cmd_id E n, cmd_params n)"
proof -
  have "zoom_handler E log (cmd_params n) (cmd_id E n) \<in> {zoom_result E 0, zoom_result E 1}"
    by (rule zoom_handler_cases [OF assms(2)])
  moreover have "fitting_call (cmd_remote E (\<lambda>_ _. zoom_result E 0)) (cmd_id E n, cmd_params n)"
    "fitting_call (cmd_remote E (\<lambda>_ _. zoom_result E 1)) (cmd_id E n, cmd_params n)"
    using assms(1,3) by (auto simp: cmd_setting_def)
  ultimately show ?thesis
    using fitting_same [of "zoom_handler E log" "(cmd_id E n, cmd_params n)" "\<lambda>_ _. zoom_handler E log (cmd_params n) (cmd_id E n)" E]
    by auto
qed

lemma held_member: "S_Entered m \<in> set (ch_senders c) \<or> S_Writing m \<in> set (ch_senders c) \<Longrightarrow> m \<in># held c"
  by (force simp: held_def)

lemma sender_entered:
  "S_Entered m \<in> set (ch_senders c) \<or> S_Writing m \<in> set (ch_senders c) \<or> m \<in> set (ch_msgs c) \<Longrightarrow> m \<in># entered c"
  using held_member [of m c] by (auto simp: entered_def)

text \<open>Another handler will do, if it agrees on what was answered.\<close>

lemma answerable_handler:
  assumes set: "remote_setting (cmd_remote E h)" and inv: "answerable cnt (cmd_remote E h) s"
    and fit: "\<forall>x \<in> set (rm_issued s). fitting_call (cmd_remote E h') x"
    and sent: "\<And>m p. m \<in># entered (rm_rsp s) \<Longrightarrow> h p (msg_id m) = h' p (msg_id m)"
    and calls: "\<And>i p. i \<in> fst ` set (ai_calls (rm_client s)) \<Longrightarrow> h p i = h' p i"
  shows "answerable cnt (cmd_remote E h') s"
proof -
  have good: "\<forall>x \<in> set (rm_issued s). good_call (cmd_remote E h) x" using answerable_good [OF inv] .
  have reply: "is_reply (cmd_remote E h') (rm_issued s) m" if m: "is_reply (cmd_remote E h) (rm_issued s) m" "m \<in># entered (rm_rsp s)" for m
  proof -
    obtain x where x: "x \<in> set (rm_issued s)"
        "serve_action (SetZoom (ce_zero E)) (returns h) (ActionData (SetZoom (ce_zero E)) (fst x) (snd x)) = Ok m"
      using m(1) by (auto simp: is_reply_def)
    have "msg_id m = fst x" using reply_ok [OF set, of x] good x by auto
    then show ?thesis using x sent [OF m(2)] serve_same [of h "ActionData (SetZoom (ce_zero E)) (fst x) (snd x)" h' "SetZoom (ce_zero E)"]
      by (auto simp: is_reply_def)
  qed
  have "carries (is_reply (cmd_remote E h')  (rm_issued s)) (rm_rsp s)"
    using inv reply sender_entered [of _ "rm_rsp s"] by (auto simp: answerable_def remote_inv_def direction_inv_def carries_def)
  moreover have "answers_match (cmd_remote E h') (rm_issued s) (ai_calls (rm_client s))"
    using inv calls by (fastforce simp: answerable_def remote_inv_def answers_match_def)
  moreover have "located (cmd_remote E h') s = located (cmd_remote E h) s" by (simp add: located_def fun_eq_iff)
  ultimately show ?thesis using inv fit cmd_is_request [of E h h']
    by (simp add: answerable_def remote_inv_def direction_inv_def)
qed

section \<open>The invariant\<close>

definition thread_status :: "(string \<times> response_or_error) list \<Rightarrow> ipc_message \<Rightarrow> handler_thread \<Rightarrow> bool" where
  "thread_status log m x \<longleftrightarrow>
     (case x of T_Answer r \<Rightarrow> map_of log (msg_id m) = Some r | _ \<Rightarrow> msg_id m \<notin> fst ` set log)"

text \<open>The log knows the calls whose handlers returned: whatever was sent back is in it.\<close>

definition log_knows :: "(string \<times> response_or_error) list \<Rightarrow> 's remote \<Rightarrow> handler_thread list \<Rightarrow> bool" where
  "log_knows log r ths \<longleftrightarrow>
     list_all2 (thread_status log) (rm_threads r) ths \<and> msg_id ` set_mset (entered (rm_rsp r)) \<subseteq> fst ` set log \<and>
     fst ` set (ai_calls (rm_client r)) \<subseteq> fst ` set log \<and> fst ` set log \<subseteq> msg_id ` set (handed_over (rm_req r))"

lemma log_knowsD:
  assumes "log_knows log r ths"
  shows "list_all2 (thread_status log) (rm_threads r) ths" "msg_id ` set_mset (entered (rm_rsp r)) \<subseteq> fst ` set log"
    "fst ` set (ai_calls (rm_client r)) \<subseteq> fst ` set log" "fst ` set log \<subseteq> msg_id ` set (handed_over (rm_req r))"
  using assms by (simp_all add: log_knows_def)

definition cmd_issued :: "('s, 'n) cmd_env \<Rightarrow> cmd_main \<Rightarrow> (string \<times> tpl) list" where
  "cmd_issued E x =
     (case x of At_First \<Rightarrow> [] | At_Second \<Rightarrow> [(cmd_id E 0, cmd_params 0)]
      | _ \<Rightarrow> [(cmd_id E 0, cmd_params 0), (cmd_id E 1, cmd_params 1)])"

text \<open>Before \<^verbatim>\<open>main\<close> begins to delete the endpoints.\<close>

fun calling :: "cmd_main \<Rightarrow> bool" where
  "calling At_First = True"
| "calling At_Second = True"
| "calling In_Loop = True"
| "calling Left_Loop = True"
| "calling _ = False"

definition cmd_inv :: "('s \<Rightarrow> nat) \<Rightarrow> ('s, 'n) cmd_env \<Rightarrow> 's cmd_state \<Rightarrow> bool" where
  "cmd_inv cnt E s \<longleftrightarrow>
     answerable cnt (known_remote E (cm_log s)) (cm_remote s) \<and> once_inv (cm_remote s) \<and> client_once (cm_remote s) \<and>
     length (ch_senders (rm_req (cm_remote s))) = 1 \<and> calling (cm_main s) \<and>
     rm_issued (cm_remote s) = cmd_issued E (cm_main s) \<and> zoom_log E (cm_log s) \<and>
     log_knows (cm_log s) (cm_remote s) (cm_threads s)"

lemma cmd_invD:
  assumes "cmd_inv cnt E s"
  shows "answerable cnt (known_remote E (cm_log s)) (cm_remote s)" "once_inv (cm_remote s)" "client_once (cm_remote s)"
    "rm_issued (cm_remote s) = cmd_issued E (cm_main s)" "zoom_log E (cm_log s)" "log_knows (cm_log s) (cm_remote s) (cm_threads s)"
    "\<not> rm_down (cm_remote s)" "\<not> sb_shutdown (ch_buf (rm_req (cm_remote s)))" "\<not> sb_shutdown (ch_buf (rm_rsp (cm_remote s)))"
proof -
  show "answerable cnt (known_remote E (cm_log s)) (cm_remote s)" "once_inv (cm_remote s)" "client_once (cm_remote s)"
    "rm_issued (cm_remote s) = cmd_issued E (cm_main s)" "zoom_log E (cm_log s)" "log_knows (cm_log s) (cm_remote s) (cm_threads s)"
    using assms by (simp_all add: cmd_inv_def)
  then show "\<not> rm_down (cm_remote s)" "\<not> sb_shutdown (ch_buf (rm_req (cm_remote s)))" "\<not> sb_shutdown (ch_buf (rm_rsp (cm_remote s)))"
    by (simp_all add: answerable_def remote_inv_def direction_inv_def chan_inv_def flag_inv_def)
qed

lemma cmd_distinct: "cmd_setting E \<Longrightarrow> distinct (map fst (cmd_issued E x))"
  by (cases x) (auto simp: cmd_setting_def cmd_issued_def)

lemma call_frame:
  assumes "remote_setting R" and "remote_call R i ident p k s = Some t"
  shows "rm_mutex t = Some (i, ActionData (re_action R) ident p)" "rm_issued t = rm_issued s @ [(ident, p)]"
    "rm_req t = rm_req s" "rm_rsp t = rm_rsp s" "rm_threads t = rm_threads s"
    "ai_calls (rm_client t) = ai_calls (rm_client s)"
proof -
  obtain m where "response_slot (re_ipc R) (re_action R) (rm_client s) = Ok m" using response_slot_ok [OF assms(1)] by blast
  then show "rm_mutex t = Some (i, ActionData (re_action R) ident p)" "rm_issued t = rm_issued s @ [(ident, p)]"
    "rm_req t = rm_req s" "rm_rsp t = rm_rsp s" "rm_threads t = rm_threads s"
    "ai_calls (rm_client t) = ai_calls (rm_client s)"
    using assms(2) by (auto simp: remote_call_def async_def Let_def split: if_splits)
qed

text \<open>What the steps of \<open>Ipc_Remote\<close> keep, whichever it is.\<close>

lemma remote_part:
  assumes "cmd_setting E" and "semaphore (ce_sem E) cnt" and "cmd_inv cnt E s"
    and "actions_step (known_remote E (cm_log s)) (cm_remote s) e = Some t" and "fitting_event (known_remote E (cm_log s)) e"
    and "distinct (map fst (rm_issued t))"
  shows "answerable cnt (known_remote E (cm_log s)) t" "once_inv t" "client_once t"
proof -
  note set = cmd_setting_remote [OF assms(1)]
  show "answerable cnt (known_remote E (cm_log s)) t"
    using semaphore.answerable_step [OF assms(2) set _ cmd_invD(1) [OF assms(3)] assms(4,5)] by simp
  show "once_inv t"
    using semaphore.once_step [OF assms(2) set _ cmd_invD(1) [OF assms(3)] cmd_invD(2) [OF assms(3)] assms(4)] by simp
  show "client_once t" using client_once_step [OF set cmd_invD(3) [OF assms(3)] assms(4-6)] .
qed

lemma cmd_async_inv:
  assumes set: "cmd_setting E" and sem: "semaphore (ce_sem E) cnt" and inv: "cmd_inv cnt E s"
    and st: "cmd_async E n x s = Some t" and n: "n = 0 \<or> n = 1" and x: "calling x"
    and issued: "cmd_issued E x = cmd_issued E (cm_main s) @ [(cmd_id E n, cmd_params n)]"
  shows "cmd_inv cnt E t" and "cm_main t = x" and "cm_log t = cm_log s" and "cm_done t = cm_done s"
proof -
  let ?R = "known_remote E (cm_log s)" and ?c = "Call 0 (cmd_id E n) (cmd_params n) (\<lambda>_ _. H_Returns)"
  obtain r where r: "actions_step ?R (cm_remote s) ?c = Some r"
    and t: "t = s\<lparr>cm_remote := r, cm_main := (if rm_mutex r = None then Main_Terminated else x)\<rparr>"
    using st cmd_steps_same [of ?c "cm_remote s" "\<lambda>_ _. zoom_result E 0" "zoom_handler E (cm_log s)" E]
    by (auto simp: cmd_async_def)
  have "remote_call ?R 0 (cmd_id E n) (cmd_params n) (\<lambda>_ _. H_Returns) (cm_remote s) = Some r"
    using r by (simp add: actions_step_def split: if_splits)
  note f = call_frame [OF cmd_setting_remote [OF set] this]
  have "fitting_event ?R ?c" using cmd_fits [OF set cmd_invD(5) [OF inv] n] by simp
  moreover have ri: "rm_issued r = cmd_issued E x" using f(2) issued cmd_invD(4) [OF inv] by simp
  ultimately have keep: "answerable cnt ?R r" "once_inv r" "client_once r"
    using remote_part [OF set sem inv r] cmd_distinct [OF set, of x] by (metis (no_types, lifting))+
  show "cm_main t = x" "cm_log t = cm_log s" "cm_done t = cm_done s" using f(1) by (simp_all add: t)
  have "log_knows (cm_log s) r (cm_threads s)" using cmd_invD(6) [OF inv] f(3-6) by (simp add: log_knows_def)
  then show "cmd_inv cnt E t" using keep ri x inv f(1,3) by (simp add: t cmd_inv_def)
qed

lemma main_inv:
  assumes set: "cmd_setting E" and sem: "semaphore (ce_sem E) cnt" and inv: "cmd_inv cnt E s" and st: "main_step E s = Some t"
    and "calling (cm_main t)"
  shows "cmd_inv cnt E t"
proof (cases "cm_main s")
  case At_First
  then show ?thesis using cmd_async_inv(1) [OF set sem inv, of 0 At_Second t] st
    by (simp add: main_step_def cmd_issued_def split: if_splits)
next
  case At_Second
  then show ?thesis using cmd_async_inv(1) [OF set sem inv, of 1 In_Loop t] st
    by (simp add: main_step_def cmd_issued_def split: if_splits)
next
  case In_Loop
  then have "t = s \<or> t = s\<lparr>cm_main := Left_Loop\<rparr>" using st by (auto simp: main_step_def split: if_splits)
  then show ?thesis using inv In_Loop by (auto simp: cmd_inv_def cmd_issued_def)
next
  case Left_Loop
  then have "\<not> calling (cm_main t)" using st by (auto simp: main_step_def delete_client_def Let_def split: if_splits)
  then show ?thesis using assms(5) by simp
qed (use inv in \<open>auto simp: cmd_inv_def\<close>)

text \<open>The handler's threads.\<close>

lemma thread_at: "list_all2 P xs ys \<Longrightarrow> k < length ys \<Longrightarrow> P (xs ! k) (ys ! k)"
  by (simp add: list_all2_conv_all_nth)

lemma log_knows_move:
  assumes "log_knows log r ths" and "k < length ths" and "\<nexists>a. ths ! k = T_Answer a" and "\<nexists>a. x = T_Answer a"
  shows "log_knows log r (ths[k := x])"
proof -
  have "thread_status log (rm_threads r ! k) (ths ! k)" using assms(1,2) by (simp add: log_knows_def list_all2_conv_all_nth)
  then have "thread_status log (rm_threads r ! k) x"
    using assms(3,4) by (simp add: thread_status_def split: handler_thread.splits)
  then show ?thesis using assms(1,2)
    by (auto simp: log_knows_def list_all2_conv_all_nth nth_list_update)
qed

lemma log_knows_return:
  assumes "log_knows log r ths" and k: "k < length ths" and fresh: "msg_id (rm_threads r ! k) \<notin> fst ` set log"
    and once: "distinct (map msg_id (rm_threads r))" "msg_id ` set (rm_threads r) \<subseteq> msg_id ` set (handed_over (rm_req r))"
  shows "log_knows (log @ [(msg_id (rm_threads r ! k), a)]) r (ths[k := T_Answer a])"
proof -
  let ?l = "log @ [(msg_id (rm_threads r ! k), a)]"
  have len: "length (rm_threads r) = length ths" and st: "\<forall>j < length ths. thread_status log (rm_threads r ! j) (ths ! j)"
    using assms(1) by (auto simp: log_knows_def list_all2_conv_all_nth)
  have new: "map_of ?l (msg_id (rm_threads r ! k)) = Some a"
    using fresh by (simp add: map_add_def map_of_eq_None_iff [THEN iffD2])
  have "thread_status ?l (rm_threads r ! j) (ths[k := T_Answer a] ! j)" if j: "j < length ths" for j
  proof (cases "j = k")
    case True
    then show ?thesis using new k by (simp add: thread_status_def)
  next
    case False
    then have ne: "msg_id (rm_threads r ! j) \<noteq> msg_id (rm_threads r ! k)"
      using once(1) j k len by (simp add: distinct_conv_nth)
    have "map_of ?l (msg_id (rm_threads r ! j)) = map_of log (msg_id (rm_threads r ! j))"
      using ne by (cases "map_of log (msg_id (rm_threads r ! j))") (simp_all add: map_add_def)
    moreover have "thread_status log (rm_threads r ! j) (ths ! j)" using st j by blast
    ultimately show ?thesis using False ne by (cases "ths ! j") (simp_all add: thread_status_def)
  qed
  then have "list_all2 (thread_status ?l) (rm_threads r) (ths[k := T_Answer a])"
    using len by (simp add: list_all2_conv_all_nth)
  moreover have "msg_id (rm_threads r ! k) \<in> msg_id ` set (handed_over (rm_req r))"
    using once(2) k len by (metis image_subset_iff nth_mem)
  ultimately show ?thesis using assms(1) by (auto simp: log_knows_def)
qed

lemma handler_inv:
  assumes set: "cmd_setting E" and inv: "cmd_inv cnt E s" and st: "handler_step E k s = Some t"
  shows "cmd_inv cnt E t"
proof -
  let ?r = "cm_remote s"
  note lg = cmd_invD(6) [OF inv]
  have k: "k < length (cm_threads s)" "k < length (rm_threads ?r)" using st by (auto simp: handler_step_def split: if_splits)
  have stat: "thread_status (cm_log s) (rm_threads ?r ! k) (cm_threads s ! k)"
    using lg k(1) thread_at by (fastforce simp: log_knows_def)
  show ?thesis
  proof (cases "cm_threads s ! k")
    case (T_Counting v)
    let ?i = "msg_id (rm_threads ?r ! k)" and ?a = "zoom_result E v"
    have t: "t = s\<lparr>cm_threads := (cm_threads s)[k := T_Answer ?a], cm_count := v + 1, cm_log := cm_log s @ [(?i, ?a)]\<rparr>"
      using st k T_Counting by (simp add: handler_step_def)
    have fresh: "?i \<notin> fst ` set (cm_log s)" using stat T_Counting by (simp add: thread_status_def)
    have "distinct (map fst (rm_issued ?r))" using cmd_invD(4) [OF inv] cmd_distinct [OF set] by simp
    note once = once_distinct [OF cmd_invD(2) [OF inv] this]
    have lg': "log_knows (cm_log t) ?r (cm_threads t)"
      using log_knows_return [OF lg k(1) fresh] once(2,3) by (simp add: t)
    have zl: "zoom_log E (cm_log t)" using cmd_invD(5) [OF inv] zoom_result_cases [of E v] by (auto simp: zoom_log_def t)
    have same: "zoom_handler E (cm_log s) p j = zoom_handler E (cm_log t) p j" if "j \<in> fst ` set (cm_log s)" for p j
    proof -
      have "j \<noteq> ?i" using that fresh by blast
      then show ?thesis by (cases "map_of (cm_log s) j") (simp_all add: zoom_handler_def t map_add_def)
    qed
    have "answerable cnt (known_remote E (cm_log t)) ?r"
    proof (rule answerable_handler [OF cmd_setting_remote [OF set] cmd_invD(1) [OF inv]])
      show "\<forall>x \<in> set (rm_issued ?r). fitting_call (known_remote E (cm_log t)) x"
        using cmd_fits [OF set zl] cmd_invD(4) [OF inv] by (cases "cm_main s") (auto simp: cmd_issued_def)
      show "zoom_handler E (cm_log s) p (msg_id m) = zoom_handler E (cm_log t) p (msg_id m)"
        if "m \<in># entered (rm_rsp ?r)" for m p
        using lg that by (intro same) (auto simp: log_knows_def)
      show "zoom_handler E (cm_log s) p i = zoom_handler E (cm_log t) p i" if "i \<in> fst ` set (ai_calls (rm_client ?r))" for i p
        using lg that unfolding log_knows_def by (intro same) blast
    qed
    then show ?thesis using inv lg' zl by (simp add: cmd_inv_def) (simp add: t)
  next
    case (T_Answer r)
    then show ?thesis using st k by (simp add: handler_step_def)
  qed (use inv st k log_knows_move [OF lg k(1)] in \<open>auto simp: handler_step_def cmd_inv_def\<close>)
qed

text \<open>The channels.\<close>

lemma zoom_view: "r \<in> {zoom_result E 0, zoom_result E 1} \<Longrightarrow> caller_view A r = r"
  by (auto simp: zoom_result_def Error_make_def)

lemma zoom_answered:
  assumes "answerable cnt (known_remote E log) r" and "zoom_log E log" and "fst ` set (ai_calls (rm_client r)) \<subseteq> fst ` set log"
    and "(ident, a) \<in> set (ai_calls (rm_client r))"
  shows "map_of log ident = Some a" and "a \<in> {zoom_result E 0, zoom_result E 1}" and "ident \<in> fst ` set (rm_issued r)"
proof -
  obtain p where p: "(ident, p) \<in> set (rm_issued r)" "a = caller_view (SetZoom (ce_zero E)) (zoom_handler E log p ident)"
    using assms(1,4) by (fastforce simp: answerable_def remote_inv_def answers_match_def)
  have z: "zoom_handler E log p ident \<in> {zoom_result E 0, zoom_result E 1}" by (rule zoom_handler_cases [OF assms(2)])
  then have a: "a = zoom_handler E log p ident" using p(2) zoom_view by metis
  with z show "a \<in> {zoom_result E 0, zoom_result E 1}" by simp
  have "ident \<in> fst ` set log" using assms(3,4) by force
  then obtain b where "map_of log ident = Some b" by (metis map_of_eq_None_iff not_None_eq)
  then show "map_of log ident = Some a" using a by (simp add: zoom_handler_def)
  show "ident \<in> fst ` set (rm_issued r)" using p(1) by force
qed

text \<open>What the lambdas print for the two results.\<close>

definition client_line :: "('s, 'n) cmd_env \<Rightarrow> string \<times> response_or_error \<Rightarrow> string" where
  "client_line E x =
     (if snd x = zoom_result E 0 then ''['' @ fst x @ ''] 1 ('' @ ce_show_bat E (ce_bat E) @ '')''
      else ''['' @ fst x @ (if fst x = cmd_id E 1 then '']: error: YOLO'' else ''] error: YOLO''))"

lemma zoom_result_distinct: "zoom_result E 1 \<noteq> zoom_result E 0"
  by (simp add: zoom_result_def Either_u_def Either_v_def)

lemma response_line_Ok:
  assumes "a \<in> {zoom_result E 0, zoom_result E 1}"
  shows "response_line E (ident = cmd_id E 1) ident a = Ok (client_line E (ident, a))"
proof -
  have "response_line E b ident (zoom_result E 0) = Ok (''['' @ ident @ ''] 1 ('' @ ce_show_bat E (ce_bat E) @ '')'')" for b
    by (simp add: response_line_def zoom_result_def tpl_bool_def)
  moreover have "response_line E b ident (zoom_result E 1) = Ok (''['' @ ident @ (if b then '']: error: YOLO'' else ''] error: YOLO''))" for b
    by (simp add: response_line_def zoom_result_def Error_make_def)
  ultimately show ?thesis using assms zoom_result_distinct [of E] unfolding client_line_def by (elim insertE) simp_all
qed

lemma second_lambda_iff:
  assumes "cmd_setting E" and "rm_issued r = cmd_issued E x" and "ident \<in> fst ` set (rm_issued r)"
  shows "second_lambda r ident \<longleftrightarrow> ident = cmd_id E 1"
  using assms by (cases x) (auto simp: second_lambda_def cmd_issued_def cmd_setting_def)

lemma run_lambdas_good:
  assumes "\<And>ident a. (ident, a) \<in> set cs \<Longrightarrow>
      response_line E (second_lambda (cm_remote s) ident) ident a = Ok (client_line E (ident, a))"
  shows "run_lambdas E cs s = s\<lparr>cm_cout := cm_cout s @ map (\<lambda>c. (From_Client, client_line E c)) cs,
     cm_done := cm_done s + word_of_nat (length cs)\<rparr>"
  using assms
proof (induction cs arbitrary: s)
  case (Cons c cs)
  let ?s = "s\<lparr>cm_cout := cm_cout s @ [(From_Client, client_line E c)], cm_done := cm_done s + 1\<rparr>"
  have "run_lambdas E (c # cs) s = run_lambdas E cs ?s" using Cons.prems by (cases c) simp
  also have "\<dots> = ?s\<lparr>cm_cout := cm_cout ?s @ map (\<lambda>c. (From_Client, client_line E c)) cs,
     cm_done := cm_done ?s + word_of_nat (length cs)\<rparr>" by (rule Cons.IH) (use Cons.prems in simp)
  finally show ?case by (simp add: add.assoc)
qed simp

lemma response_part:
  assumes set: "cmd_setting E" and sem: "semaphore (ce_sem E) cnt" and inv: "cmd_inv cnt E s"
    and st: "remote_events E (Response ev) s = Some t"
  shows "\<exists>r cs. actions_step (known_remote E (cm_log s)) (cm_remote s) (Response ev) = Some r \<and>
     ai_calls (rm_client r) = ai_calls (rm_client (cm_remote s)) @ cs \<and>
     t = s\<lparr>cm_remote := r, cm_cout := cm_cout s @ map (\<lambda>c. (From_Client, client_line E c)) cs,
       cm_done := cm_done s + word_of_nat (length cs)\<rparr> \<and> cmd_inv cnt E t"
proof -
  let ?R = "known_remote E (cm_log s)"
  note rset = cmd_setting_remote [OF set] and ans = cmd_invD(1) [OF inv] and lg = cmd_invD(6) [OF inv]
  obtain r where r: "actions_step ?R (cm_remote s) (Response ev) = Some r"
    and t: "t = run_lambdas E (drop (length (ai_calls (rm_client (cm_remote s)))) (ai_calls (rm_client r))) (s\<lparr>cm_remote := r\<rparr>)"
    using st cmd_steps_same [of "Response ev" "cm_remote s" "\<lambda>_ _. zoom_result E 0" "zoom_handler E (cm_log s)" E]
    using cmd_invD(9) [OF inv] by (auto simp: remote_events_def Let_def)
  have rs: "response_step ?R ev (cm_remote s) = Some r" using r by (simp add: actions_step_def split: if_splits)
  obtain c where c: "channel_step (client_peers ?R (rm_client (cm_remote s))) (rm_rsp (cm_remote s)) ev = Some c" "rm_rsp r = c"
      "rm_req r = rm_req (cm_remote s)" "rm_issued r = rm_issued (cm_remote s)" "rm_threads r = rm_threads (cm_remote s)"
      "living_event (\<lambda>_. False) ev"
    using rs by (rule response_stepE)
  have ri: "rm_issued r = cmd_issued E (cm_main s)" using c(4) cmd_invD(4) [OF inv] by simp
  have keep: "answerable cnt ?R r" "once_inv r" "client_once r"
    using remote_part [OF set sem inv r] cmd_distinct [OF set, of "cm_main s"] ri by simp_all
  have "entered c \<subseteq># entered (rm_rsp (cm_remote s))" using entered_step [OF c(1)] c(6) by (cases ev) (auto simp: enters_def)
  then have sent: "set_mset (entered c) \<subseteq> set_mset (entered (rm_rsp (cm_remote s)))" by (rule set_mset_mono)
  obtain cs where cs: "ai_calls (rm_client r) = ai_calls (rm_client (cm_remote s)) @ cs"
      "fst ` set cs \<subseteq> msg_id ` set (ch_msgs (rm_rsp (cm_remote s)))"
    using semaphore.response_calls [OF sem [folded cmd_remote_sel(1) [of E "zoom_handler E (cm_log s)"]] rset ans rs] by blast
  have written: "set (ch_msgs (rm_rsp (cm_remote s))) \<subseteq> set_mset (entered (rm_rsp (cm_remote s)))" by (auto simp: entered_def)
  have "fst ` set cs \<subseteq> fst ` set (cm_log s)"
    by (rule subset_trans [OF cs(2) subset_trans [OF image_mono [OF written] log_knowsD(2) [OF lg]]])
  then have calls: "fst ` set (ai_calls (rm_client r)) \<subseteq> fst ` set (cm_log s)"
    using log_knowsD(3) [OF lg] by (simp add: cs(1) image_Un)
  have lg': "log_knows (cm_log s) r (cm_threads s)"
    using log_knowsD(1,4) [OF lg] subset_trans [OF image_mono [OF sent] log_knowsD(2) [OF lg]] calls c(2,3,5) by (simp add: log_knows_def)
  have line: "response_line E (second_lambda r ident) ident a = Ok (client_line E (ident, a))" if "(ident, a) \<in> set cs" for ident a
    using zoom_answered(2,3) [OF keep(1) cmd_invD(5) [OF inv] calls, of ident a] response_line_Ok [of a E ident] that cs(1)
      second_lambda_iff [OF set ri, of ident] by simp
  have t': "t = s\<lparr>cm_remote := r, cm_cout := cm_cout s @ map (\<lambda>c. (From_Client, client_line E c)) cs,
       cm_done := cm_done s + word_of_nat (length cs)\<rparr>"
    unfolding t using run_lambdas_good [of cs E "s\<lparr>cm_remote := r\<rparr>"] line cs(1) by simp
  moreover have "cmd_inv cnt E t" using inv keep ri lg' c(3) by (simp add: cmd_inv_def t')
  ultimately show ?thesis using r cs(1) by blast
qed

lemma request_part:
  assumes set: "cmd_setting E" and sem: "semaphore (ce_sem E) cnt" and inv: "cmd_inv cnt E s"
    and st: "remote_events E (Request ev) s = Some t"
  shows "\<exists>r ms. actions_step (known_remote E (cm_log s)) (cm_remote s) (Request ev) = Some r \<and>
     rm_threads r = rm_threads (cm_remote s) @ ms \<and> length ms \<le> 1 \<and>
     t = s\<lparr>cm_remote := r, cm_threads := cm_threads s @ replicate (length ms) T_Started\<rparr> \<and> cmd_inv cnt E t"
proof -
  let ?R = "known_remote E (cm_log s)"
  note rset = cmd_setting_remote [OF set] and ans = cmd_invD(1) [OF inv] and lg = cmd_invD(6) [OF inv]
  obtain r where r: "actions_step ?R (cm_remote s) (Request ev) = Some r"
    and t: "t = s\<lparr>cm_remote := r,
      cm_threads := cm_threads s @ replicate (length (rm_threads r) - length (rm_threads (cm_remote s))) T_Started,
      cm_main := (if ch_errors (rm_req r) \<noteq> ch_errors (rm_req (cm_remote s)) then Main_Terminated else cm_main s)\<rparr>"
    using st cmd_steps_same [of "Request ev" "cm_remote s" "\<lambda>_ _. zoom_result E 0" "zoom_handler E (cm_log s)" E]
    using cmd_invD(8) [OF inv] by (auto simp: remote_events_def Let_def)
  have rs: "request_step ?R ev (cm_remote s) = Some r" using r by (simp add: actions_step_def split: if_splits)
  obtain c where c: "channel_step (server_peers ?R) (rm_req (cm_remote s)) ev = Some c" "rm_req r = c"
      "rm_rsp r = rm_rsp (cm_remote s)" "rm_client r = rm_client (cm_remote s)" "rm_issued r = rm_issued (cm_remote s)"
    using rs by (rule request_stepE)
  have ri: "rm_issued r = cmd_issued E (cm_main s)" using c(5) cmd_invD(4) [OF inv] by simp
  have keep: "answerable cnt ?R r" "once_inv r" "client_once r"
    using remote_part [OF set sem inv r] cmd_distinct [OF set, of "cm_main s"] ri by simp_all
  have calm: "ch_errors (rm_req r) = ch_errors (rm_req (cm_remote s))" using keep(1) ans by (simp add: answerable_def)
  obtain ms where ms: "rm_threads r = rm_threads (cm_remote s) @ ms"
      "handed_over (rm_req r) = handed_over (rm_req (cm_remote s)) @ ms" "length ms \<le> 1"
    using semaphore.request_handed [OF sem [folded cmd_remote_sel(1) [of E "zoom_handler E (cm_log s)"]] rset refl ans rs] by blast
  have "distinct (map msg_id (ch_msgs (rm_req r)))"
    using once_distinct(1) [OF keep(2)] cmd_distinct [OF set] ri by simp
  then have "distinct (map msg_id (handed_over (rm_req r)))"
    unfolding handed_over_def by (simp add: take_map [symmetric])
  then have "msg_id ` set (handed_over (rm_req (cm_remote s))) \<inter> msg_id ` set ms = {}" unfolding ms(2) by simp
  then have "msg_id m \<notin> fst ` set (cm_log s)" if "m \<in> set ms" for m
    using that log_knowsD(4) [OF lg] by blast
  then have "list_all2 (thread_status (cm_log s)) ms (replicate (length ms) T_Started)"
    by (simp add: list_all2_conv_all_nth thread_status_def)
  then have lg': "log_knows (cm_log s) r (cm_threads s @ replicate (length ms) T_Started)"
    using lg c(2-4) ms by (auto simp: log_knows_def intro: list_all2_appendI)
  have t': "t = s\<lparr>cm_remote := r, cm_threads := cm_threads s @ replicate (length ms) T_Started\<rparr>"
    using t ms(1) calm by simp
  then have "cmd_inv cnt E t"
    using inv keep ri lg' c(2) senders_length [OF c(1)] by (simp add: cmd_inv_def)
  then show ?thesis using r ms(1,3) t' by blast
qed

lemma reply_part:
  assumes set: "cmd_setting E" and sem: "semaphore (ce_sem E) cnt" and inv: "cmd_inv cnt E s"
    and st: "remote_events E (Reply i k) s = Some t"
  shows "\<exists>r. actions_step (known_remote E (cm_log s)) (cm_remote s) (Reply i k) = Some r \<and>
     t = s\<lparr>cm_remote := r, cm_threads := take k (cm_threads s) @ drop (Suc k) (cm_threads s)\<rparr> \<and>
     ai_calls (rm_client r) = ai_calls (rm_client (cm_remote s)) \<and> cmd_inv cnt E t"
proof -
  let ?R = "known_remote E (cm_log s)" and ?m = "rm_threads (cm_remote s) ! k"
  note rset = cmd_setting_remote [OF set] and ans = cmd_invD(1) [OF inv] and lg = cmd_invD(6) [OF inv]
  obtain a where a: "k < length (cm_threads s)" "cm_threads s ! k = T_Answer a"
    using st by (auto simp: remote_events_def Let_def split: if_splits handler_thread.splits)
  have known: "map_of (cm_log s) (msg_id ?m) = Some a"
    using thread_at [of _ _ _ k] lg a by (fastforce simp: log_knows_def thread_status_def)
  then have "actions_step (cmd_remote E (\<lambda>_ _. a)) (cm_remote s) (Reply i k) = actions_step ?R (cm_remote s) (Reply i k)"
    by (intro cmd_steps_same) (simp add: zoom_handler_def)
  then obtain r where r: "actions_step ?R (cm_remote s) (Reply i k) = Some r"
    and t: "t = s\<lparr>cm_remote := r, cm_threads := take k (cm_threads s) @ drop (Suc k) (cm_threads s)\<rparr>"
    using st a by (auto simp: remote_events_def Let_def)
  have rs: "reply_step ?R i k (cm_remote s) = Some r" using r by (simp add: actions_step_def split: if_splits)
  have ri: "rm_issued r = cmd_issued E (cm_main s)"
    using rs cmd_invD(4) [OF inv] by (auto simp: reply_step_def split: if_splits outcome.splits)
  have keep: "answerable cnt ?R r" "once_inv r" "client_once r"
    using remote_part [OF set sem inv r] cmd_distinct [OF set, of "cm_main s"] ri by simp_all
  then have "\<not> rm_down r" by (simp add: answerable_def)
  with rs obtain c x where c: "serve_action (re_action ?R) (returns (re_handler ?R)) ?m = Ok x"
      "channel_step (client_peers ?R (rm_client (cm_remote s))) (rm_rsp (cm_remote s)) (WaitEmpty i x) = Some c"
      "r = (cm_remote s)\<lparr>rm_rsp := c, rm_threads := take k (rm_threads (cm_remote s)) @ drop (Suc k) (rm_threads (cm_remote s))\<rparr>"
      "k < length (rm_threads (cm_remote s))"
    by (rule reply_stepE)
  have x: "msg_id x = msg_id ?m"
    using semaphore.served_id [OF sem rset ans _ c(1)] c(4) by simp
  have "set_mset (entered c) \<subseteq> insert x (set_mset (entered (rm_rsp (cm_remote s))))"
    using set_mset_mono [OF entered_step [OF c(2)]] by (auto simp: enters_def)
  from image_mono [OF this, of msg_id]
  have "msg_id ` set_mset (entered c) \<subseteq> insert (msg_id ?m) (msg_id ` set_mset (entered (rm_rsp (cm_remote s))))"
    by (simp add: x)
  moreover have "msg_id ?m \<in> fst ` set (cm_log s)" using known by (metis image_eqI map_of_SomeD fst_conv)
  ultimately have "msg_id ` set_mset (entered c) \<subseteq> fst ` set (cm_log s)"
    using log_knowsD(2) [OF lg] by (meson insert_subset subset_trans)
  moreover have "list_all2 (thread_status (cm_log s)) (rm_threads r) (take k (cm_threads s) @ drop (Suc k) (cm_threads s))"
    unfolding c(3) using log_knowsD(1) [OF lg] by (simp add: list_all2_appendI list_all2_takeI list_all2_dropI)
  ultimately have "log_knows (cm_log s) r (take k (cm_threads s) @ drop (Suc k) (cm_threads s))"
    using log_knowsD(3,4) [OF lg] by (simp add: log_knows_def c(3))
  then have "cmd_inv cnt E t" using inv keep ri by (simp add: cmd_inv_def t c(3))
  then show ?thesis using r t c(3) by simp
qed

lemma cmd_inv_step:
  assumes "cmd_setting E" and "semaphore (ce_sem E) cnt" and "cmd_inv cnt E s" and "cmd_step E s e = Some t"
    and "calling (cm_main t)"
  shows "cmd_inv cnt E t"
proof (cases e)
  case Main
  then show ?thesis using main_inv [OF assms(1-3) _ assms(5)] assms(4) by (simp add: cmd_step_def split: if_splits)
next
  case (Handler k)
  then show ?thesis using handler_inv [OF assms(1,3)] assms(4) by (simp add: cmd_step_def split: if_splits)
next
  case (Remote ev)
  then have st: "remote_events E ev s = Some t" using assms(4) by (simp add: cmd_step_def split: if_splits)
  then show ?thesis
  proof (cases ev)
    case (Call i ident p k)
    then show ?thesis using st by (simp add: remote_events_def Let_def)
  next
    case (Request e)
    then show ?thesis using request_part [OF assms(1-3)] st by blast
  next
    case (Reply i k)
    then show ?thesis using reply_part [OF assms(1-3)] st by blast
  next
    case (Response e)
    then show ?thesis using response_part [OF assms(1-3)] st by blast
  qed
qed

lemma cmd_start_inv:
  assumes "semaphore (ce_sem E) cnt" and "length mem = MaxMessageSize" and "length mem' = MaxMessageSize"
  shows "cmd_inv cnt E (cmd_start E mem mem' (Suc k))"
proof -
  let ?r = "new_remote (cmd_remote E (\<lambda>_ _. zoom_result E 0)) mem mem' 1 (Suc k)"
  have "?r = new_remote (known_remote E []) mem mem' 1 (Suc k)" by (simp add: new_remote_def)
  then have "answerable cnt (known_remote E []) ?r" using answerable_new [of "known_remote E []" cnt mem mem' 1 k] assms by simp
  moreover have "log_knows [] ?r []" "length (ch_senders (rm_req ?r)) = 1" "rm_issued ?r = []"
    by (simp_all add: log_knows_def new_remote_def new_channel_def entered_def held_def held_new new_action_state_def)
  moreover have "once_inv ?r" "client_once ?r" by (rule once_new, rule client_once_new)
  ultimately show ?thesis by (simp add: cmd_inv_def cmd_start_def cmd_issued_def zoom_log_def)
qed

end
