(* ===== verification/Ipc_Cmd_Runs.thy ===== *)
theory Ipc_Cmd_Runs
  imports Ipc_Cmd
begin

text \<open>
  Runs of the example program of \<^verbatim>\<open>Ipc_Cmd\<close>: from every state some run leaves the loop of \<^verbatim>\<open>main\<close>, what was printed then, and how the
  race for \<^verbatim>\<open>count\<close> can go.
\<close>

text \<open>The calls of the lambdas, in their order.\<close>

abbreviation answers :: "'s cmd_state \<Rightarrow> (string \<times> response_or_error) list" where
  "answers s \<equiv> ai_calls (rm_client (cm_remote s))"

section \<open>The program comes to its end\<close>

fun t_rank :: "handler_thread \<Rightarrow> nat" where
  "t_rank T_Started = 4"
| "t_rank T_Sleeping = 3"
| "t_rank T_Awake = 2"
| "t_rank (T_Counting v) = 1"
| "t_rank (T_Answer r) = 0"

definition cmd_work :: "('s \<Rightarrow> nat) \<Rightarrow> 's cmd_state \<Rightarrow> nat" where
  "cmd_work cnt s = 5 * remote_rank cnt (cm_remote s) + weight t_rank (cm_threads s)"

lemma handler_moves:
  assumes "k < length (cm_threads s)" and "k < length (rm_threads (cm_remote s))" and "\<nexists>a. cm_threads s ! k = T_Answer a"
  shows "\<exists>t. handler_step E k s = Some t \<and> cm_remote t = cm_remote s \<and> cm_main t = cm_main s \<and>
     weight t_rank (cm_threads t) < weight t_rank (cm_threads s) \<and> (\<exists>l. cm_log t = cm_log s @ l)"
proof -
  have "weight t_rank ((cm_threads s)[k := v]) < weight t_rank (cm_threads s)" if "t_rank v < t_rank (cm_threads s ! k)" for v
    using weight_update [OF assms(1), of t_rank v] that by simp
  then show ?thesis using assms by (cases "cm_threads s ! k") (simp_all add: handler_step_def)
qed

lemma weight_remove:
  assumes "k < length xs"
  shows "weight f (take k xs @ drop (Suc k) xs) + f (xs ! k) = weight f xs"
  using id_take_nth_drop [OF assms] by (simp add: weight_def) (metis add.commute add.left_commute map_append list.simps(9) sum_list.append sum_list.Cons)

lemma cmd_step_calling:
  assumes "cmd_inv cnt E s"
  shows "cmd_step E s e = (case e of Main \<Rightarrow> main_step E s | Handler k \<Rightarrow> handler_step E k s | Remote ev \<Rightarrow> remote_events E ev s)"
  using assms cmd_invD(7) [OF assms] by (cases "cm_main s") (simp_all add: cmd_step_def cmd_inv_def)

lemma cmd_progress:
  assumes set: "cmd_setting E" and sem: "semaphore (ce_sem E) cnt" and inv: "cmd_inv cnt E s"
    and work: "0 < remote_rank cnt (cm_remote s)"
  shows "\<exists>e t. cmd_step E s e = Some t \<and> cmd_inv cnt E t \<and> cm_main t = cm_main s \<and> cmd_work cnt t < cmd_work cnt s \<and>
     (\<exists>l. cm_log t = cm_log s @ l)"
proof -
  let ?R = "known_remote E (cm_log s)"
  have going: "cmd_step E s e = (case e of Main \<Rightarrow> main_step E s | Handler k \<Rightarrow> handler_step E k s | Remote ev \<Rightarrow> remote_events E ev s)" for e
    by (rule cmd_step_calling [OF inv])
  obtain e r where r: "actions_step ?R (cm_remote s) e = Some r" "rm_issued r = rm_issued (cm_remote s)"
      "remote_rank cnt r < remote_rank cnt (cm_remote s)"
    using semaphore.remote_progress [OF sem [folded cmd_remote_sel(1) [of E "zoom_handler E (cm_log s)"]]
        cmd_setting_remote [OF set] refl cmd_invD(1) [OF inv] work] by blast
  have same: "actions_step (cmd_remote E (\<lambda>_ _. zoom_result E 0)) (cm_remote s) e = actions_step ?R (cm_remote s) e"
    if "\<nexists>i k. e = Reply i k" using that by (intro cmd_steps_same) blast
  have "\<exists>e t. cmd_step E s e = Some t \<and> cm_main t = cm_main s \<and> cmd_work cnt t < cmd_work cnt s \<and> (\<exists>l. cm_log t = cm_log s @ l)"
  proof (cases e)
    case (Call i ident p k)
    then have "remote_call ?R i ident p k (cm_remote s) = Some r" using r(1) by (simp add: actions_step_def split: if_splits)
    then show ?thesis using call_frame(2) [OF cmd_setting_remote [OF set]] r(2) by fastforce
  next
    case (Request ev)
    then obtain t where t: "remote_events E (Request ev) s = Some t"
      using r(1) same cmd_invD(8) [OF inv] by (simp add: remote_events_def Let_def)
    obtain r' and ms :: "ipc_message list" where "actions_step ?R (cm_remote s) (Request ev) = Some r'" "length ms \<le> 1"
        "t = s\<lparr>cm_remote := r', cm_threads := cm_threads s @ replicate (length ms) T_Started\<rparr>"
      using request_part [OF set sem inv t] by blast
    then show ?thesis using r(1,3) Request t
      by (intro exI [of _ "Remote e"] exI [of _ t])
        (simp add: going cmd_work_def weight_def sum_list_replicate)
  next
    case (Reply i k)
    have len: "length (rm_threads (cm_remote s)) = length (cm_threads s)"
      using log_knowsD(1) [OF cmd_invD(6) [OF inv]] by (rule list_all2_lengthD)
    have k: "k < length (cm_threads s)" using r(1) Reply len by (simp add: actions_step_def reply_step_def split: if_splits)
    show ?thesis
    proof (cases "\<exists>a. cm_threads s ! k = T_Answer a")
      case True
      then obtain a where a: "cm_threads s ! k = T_Answer a" by blast
      then have "thread_status (cm_log s) (rm_threads (cm_remote s) ! k) (T_Answer a)"
        using thread_at [OF log_knowsD(1) [OF cmd_invD(6) [OF inv]] k] by simp
      then have "actions_step (cmd_remote E (\<lambda>_ _. a)) (cm_remote s) (Reply i k) = actions_step ?R (cm_remote s) (Reply i k)"
        by (intro cmd_steps_same) (simp add: zoom_handler_def thread_status_def)
      then have t: "remote_events E (Reply i k) s =
          Some (s\<lparr>cm_remote := r, cm_threads := take k (cm_threads s) @ drop (Suc k) (cm_threads s)\<rparr>)"
        using r(1) Reply a k by (simp add: remote_events_def)
      then show ?thesis using r(3) Reply a k weight_remove [OF k, of t_rank]
        by (intro exI [of _ "Remote e"] exI [of _ "s\<lparr>cm_remote := r, cm_threads := take k (cm_threads s) @ drop (Suc k) (cm_threads s)\<rparr>"])
          (simp add: going cmd_work_def)
    next
      case False
      then obtain t where "handler_step E k s = Some t" "cm_remote t = cm_remote s" "cm_main t = cm_main s"
          "weight t_rank (cm_threads t) < weight t_rank (cm_threads s)" "\<exists>l. cm_log t = cm_log s @ l"
        using handler_moves [of k s E] k len by auto
      then show ?thesis by (intro exI [of _ "Handler k"] exI [of _ t]) (simp add: going cmd_work_def)
    qed
  next
    case (Response ev)
    then obtain t where t: "remote_events E (Response ev) s = Some t"
      using r(1) same cmd_invD(9) [OF inv] by (simp add: remote_events_def Let_def)
    obtain r' where "actions_step ?R (cm_remote s) (Response ev) = Some r'" "cm_remote t = r'" "cm_main t = cm_main s"
        "cm_threads t = cm_threads s" "cm_log t = cm_log s"
      using response_part [OF set sem inv t] by fastforce
    then show ?thesis using r(1,3) Response t
      by (intro exI [of _ "Remote e"] exI [of _ t]) (simp add: going cmd_work_def)
  qed
  then show ?thesis using cmd_inv_step [OF set sem inv] inv by (metis cmd_inv_def)
qed

section \<open>Who gets the response\<close>

text \<open>The first store to \<^verbatim>\<open>count\<close> is by a handler that read zero.\<close>

definition count_inv :: "'s cmd_state \<Rightarrow> bool" where
  "count_inv s \<longleftrightarrow> cm_log s = [] \<longrightarrow> cm_count s = 0 \<and> (\<forall>v. T_Counting v \<in> set (cm_threads s) \<longrightarrow> v = 0)"

definition first_result :: "('s, 'n) cmd_env \<Rightarrow> 's cmd_state \<Rightarrow> bool" where
  "first_result E s \<longleftrightarrow> count_inv s \<and> (cm_log s = [] \<or> snd (hd (cm_log s)) = zoom_result E 0)"

lemma run_lambdas_frame:
  "cm_log (run_lambdas E cs s) = cm_log s \<and> cm_count (run_lambdas E cs s) = cm_count s \<and>
   cm_threads (run_lambdas E cs s) = cm_threads s"
proof (induction E cs s rule: run_lambdas.induct)
  case (2 E ident roe cs s)
  then show ?case by (cases "response_line E (second_lambda (cm_remote s) ident) ident roe") simp_all
qed simp

lemma first_result_frame:
  assumes "first_result E s" and "cm_log t = cm_log s" and "cm_count t = cm_count s"
    and "\<And>v. T_Counting v \<in> set (cm_threads t) \<Longrightarrow> T_Counting v \<in> set (cm_threads s)"
  shows "first_result E t"
  using assms by (auto simp: first_result_def count_inv_def)

lemma handler_first:
  assumes "first_result E s" and st: "handler_step E k s = Some t"
  shows "first_result E t"
proof -
  have k: "k < length (cm_threads s)" using st by (simp add: handler_step_def split: if_splits)
  then have mem: "cm_threads s ! k \<in> set (cm_threads s)" by simp
  note upd = set_update_subset_insert [of "cm_threads s" k]
  show ?thesis
  proof (cases "cm_threads s ! k")
    case (T_Counting v)
    then have "cm_log s = [] \<Longrightarrow> v = 0" using assms(1) mem by (auto simp: first_result_def count_inv_def)
    then show ?thesis using st T_Counting assms(1)
      by (cases "cm_log s") (auto simp: handler_step_def first_result_def count_inv_def Let_def split: if_splits)
  next
    case T_Awake
    then show ?thesis using st assms(1) upd [of "T_Counting (cm_count s)"]
      by (auto simp: handler_step_def first_result_def count_inv_def Let_def split: if_splits)
  next
    case T_Started
    then show ?thesis using st assms(1) upd [of T_Sleeping]
      by (auto simp: handler_step_def first_result_def count_inv_def Let_def split: if_splits)
  next
    case T_Sleeping
    then show ?thesis using st assms(1) upd [of T_Awake]
      by (auto simp: handler_step_def first_result_def count_inv_def Let_def split: if_splits)
  next
    case (T_Answer r)
    then show ?thesis using st k by (simp add: handler_step_def split: if_splits)
  qed
qed

interpretation cmd_first: event_machine "cmd_step E" "first_result E" for E
proof
  fix s e t
  assume first: "first_result E s" and st: "cmd_step E s e = Some t"
  show "first_result E t"
  proof (cases e)
    case Main
    then show ?thesis using st first
      by (auto simp: cmd_step_def main_step_def cmd_async_def delete_client_def delete_server_def Let_def first_result_def count_inv_def split: if_splits cmd_main.splits)
  next
    case (Handler k)
    then show ?thesis using handler_first [OF first] st by (simp add: cmd_step_def split: if_splits)
  next
    case (Remote ev)
    then have "remote_events E ev s = Some t" using st by (simp add: cmd_step_def split: if_splits)
    then show ?thesis using run_lambdas_frame [of E]
      by (cases ev)
        (auto simp: remote_events_def Let_def intro!: first_result_frame [OF first] dest: in_set_takeD in_set_dropD
          split: if_splits handler_thread.splits)
  qed
qed

section \<open>What is printed\<close>

text \<open>What the lambdas have left behind agrees with the calls of the response handlers.\<close>

definition client_out :: "(cmd_source \<times> string) list \<Rightarrow> string list" where
  "client_out out = map snd (filter (\<lambda>x. fst x = From_Client) out)"

definition printed :: "('s, 'n) cmd_env \<Rightarrow> 's cmd_state \<Rightarrow> bool" where
  "printed E s \<longleftrightarrow>
     client_out (cm_cout s) = map (client_line E) (answers s) \<and>
     cm_done s = word_of_nat (length (answers s))"

lemma client_out_lines [simp]: "client_out (map (\<lambda>c. (From_Client, f c)) cs) = map f cs"
  by (simp add: client_out_def filter_map o_def)

lemma client_out_append [simp]: "client_out (xs @ ys) = client_out xs @ client_out ys"
  by (simp add: client_out_def)

lemma printed_frame:
  assumes "printed E s" and "answers t = answers s @ cs"
    and "client_out (cm_cout t) = client_out (cm_cout s) @ map (client_line E) cs" and "cm_done t = cm_done s + word_of_nat (length cs)"
  shows "printed E t"
  using assms by (simp add: printed_def)

lemma main_frame:
  assumes set: "cmd_setting E" and "main_step E s = Some t"
  shows "answers t = answers s \<and> cm_cout t = cm_cout s \<and> cm_done t = cm_done s"
proof -
  have async: ?thesis if st: "cmd_async E n x s = Some t" for n x
  proof -
    obtain r where "actions_step (cmd_remote E (\<lambda>_ _. zoom_result E 0)) (cm_remote s)
          (Call 0 (cmd_id E n) (cmd_params n) (\<lambda>_ _. H_Returns)) = Some r"
      and t: "cm_remote t = r" "cm_cout t = cm_cout s" "cm_done t = cm_done s"
      using st by (auto simp: cmd_async_def)
    then have "remote_call (cmd_remote E (\<lambda>_ _. zoom_result E 0)) 0 (cmd_id E n) (cmd_params n) (\<lambda>_ _. H_Returns) (cm_remote s) = Some r"
      by (simp add: actions_step_def split: if_splits)
    from call_frame(6) [OF cmd_setting_remote [OF set] this] show ?thesis using t by simp
  qed
  show ?thesis using assms(2) async
    by (auto simp: main_step_def delete_client_def delete_server_def Let_def split: if_splits cmd_main.splits)
qed

lemma handler_frame:
  assumes "handler_step E k s = Some t"
  shows "cm_remote t = cm_remote s \<and> cm_done t = cm_done s \<and> client_out (cm_cout t) = client_out (cm_cout s)"
  using assms by (auto simp: handler_step_def client_out_def Let_def split: if_splits handler_thread.splits)

lemma printed_step:
  assumes set: "cmd_setting E" and sem: "semaphore (ce_sem E) cnt" and inv: "cmd_inv cnt E s" and "printed E s"
    and st: "cmd_step E s e = Some t"
  shows "printed E t \<and> (\<exists>cs. answers t = answers s @ cs)"
proof (cases e)
  case Main
  then have "main_step E s = Some t" using st cmd_step_calling [OF inv] by simp
  from main_frame [OF set this] show ?thesis using assms(4) by (simp add: printed_def)
next
  case (Handler k)
  then show ?thesis using handler_frame [of E k s t] st assms(4) by (simp add: cmd_step_def printed_def split: if_splits)
next
  case (Remote ev)
  then have st: "remote_events E ev s = Some t" using st by (simp add: cmd_step_def split: if_splits)
  then show ?thesis
  proof (cases ev)
    case (Call i ident p k)
    then show ?thesis using st by (simp add: remote_events_def Let_def)
  next
    case (Request ev')
    obtain r ms where r: "actions_step (known_remote E (cm_log s)) (cm_remote s) (Request ev') = Some r"
        "t = s\<lparr>cm_remote := r, cm_threads := cm_threads s @ replicate (length (ms :: ipc_message list)) T_Started\<rparr>"
      using request_part [OF set sem inv st [unfolded Request]] by blast
    then have "request_step (known_remote E (cm_log s)) ev' (cm_remote s) = Some r" by (simp add: actions_step_def split: if_splits)
    then have "rm_client r = rm_client (cm_remote s)" by (rule request_stepE)
    then show ?thesis using assms(4) r(2) by (simp add: printed_def)
  next
    case (Reply i k)
    then show ?thesis using reply_part [OF set sem inv st [unfolded Reply]] assms(4) by (auto simp: printed_def)
  next
    case (Response ev')
    then show ?thesis
      using response_part [OF set sem inv st [unfolded Response]] printed_frame [OF assms(4), of t] by fastforce
  qed
qed

definition cmd_ids :: "('s, 'n) cmd_env \<Rightarrow> string set" where
  "cmd_ids E = {cmd_id E 0, cmd_id E 1}"

lemma cmd_answers:
  assumes set: "cmd_setting E" and inv: "cmd_inv cnt E s"
  shows "distinct (map fst (answers s))" and "fst ` set (answers s) \<subseteq> cmd_ids E"
    and "snd ` set (answers s) \<subseteq> {zoom_result E 0, zoom_result E 1}"
    and "(ident, a) \<in> set (answers s) \<Longrightarrow> map_of (cm_log s) ident = Some a"
    and "length (answers s) \<le> 2"
proof -
  note za = zoom_answered [OF cmd_invD(1,5) [OF inv] log_knowsD(3) [OF cmd_invD(6) [OF inv]]]
  have issued: "fst ` set (rm_issued (cm_remote s)) \<subseteq> cmd_ids E"
    using cmd_invD(4) [OF inv] by (cases "cm_main s") (simp_all add: cmd_issued_def cmd_ids_def)
  show d: "distinct (map fst (answers s))"
    using cmd_invD(3) [OF inv] by (simp add: client_once_def calls_inv_def)
  show ids: "fst ` set (answers s) \<subseteq> cmd_ids E"
    using za(3) issued by fastforce
  show "snd ` set (answers s) \<subseteq> {zoom_result E 0, zoom_result E 1}"
    using za(2) by fastforce
  show "(ident, a) \<in> set (answers s) \<Longrightarrow> map_of (cm_log s) ident = Some a"
    by (rule za(1))
  have "length (answers s) = card (fst ` set (answers s))"
    using distinct_card [OF d] by simp
  also have "\<dots> \<le> card (cmd_ids E)" using ids by (rule card_mono [rotated]) (simp add: cmd_ids_def)
  also have "\<dots> \<le> 2" by (simp add: cmd_ids_def card_insert_if)
  finally show "length (answers s) \<le> 2" .
qed

text \<open>The end of the loop.\<close>

lemma two_answers:
  assumes set: "cmd_setting E" and inv: "cmd_inv cnt E s" and "printed E s" and "cm_done s = 2"
  shows "length (answers s) = 2"
proof -
  have "(word_of_nat (length (answers s)) :: cint) = 2" using assms(3,4) unfolding printed_def by metis
  moreover have "length (answers s) = 0 \<or> length (answers s) = 1 \<or> length (answers s) = 2"
    using cmd_answers(5) [OF set inv] by linarith
  ultimately show ?thesis by (elim disjE) simp_all
qed

lemma both_ids:
  assumes set: "cmd_setting E" and inv: "cmd_inv cnt E s" and "length (answers s) = 2"
  shows "fst ` set (answers s) = cmd_ids E"
proof -
  have "card (fst ` set (answers s)) = 2" using distinct_card [OF cmd_answers(1) [OF set inv]] assms(3) by simp
  moreover have "card (cmd_ids E) = 2" using set by (simp add: cmd_ids_def cmd_setting_def)
  ultimately show ?thesis
    using cmd_answers(2) [OF set inv] by (intro card_subset_eq) (simp_all add: cmd_ids_def)
qed

lemma left_response:
  assumes set: "cmd_setting E" and inv: "cmd_inv cnt E s" and first: "first_result E s" and two: "length (answers s) = 2"
  shows "zoom_result E 0 \<in> snd ` set (answers s)"
proof -
  let ?c = "answers s"
  have ne: "?c \<noteq> []" using two by auto
  note lg = log_knowsD [OF cmd_invD(6) [OF inv]]
  obtain i l where i: "cm_log s = (i, zoom_result E 0) # l"
    using lg(3) ne first by (cases "cm_log s") (auto simp: first_result_def)
  have "i \<in> msg_id ` set (handed_over (rm_req (cm_remote s)))" using lg(4) i by simp
  then obtain m where m: "m \<in> set (ch_msgs (rm_req (cm_remote s)))" "msg_id m = i"
    by (auto simp: handed_over_def dest: in_set_takeD)
  have "is_request (known_remote E (cm_log s)) (rm_issued (cm_remote s)) m"
    using cmd_invD(1) [OF inv] m(1) by (auto simp: answerable_def remote_inv_def direction_inv_def carries_def)
  then have "i \<in> cmd_ids E" using m(2) cmd_invD(4) [OF inv] by (cases "cm_main s") (auto simp: is_request_def cmd_issued_def cmd_ids_def)
  then obtain a where a: "(i, a) \<in> set ?c" using both_ids [OF set inv two] by force
  then show ?thesis using cmd_answers(4) [OF set inv a] i by force
qed

definition cmd_reached :: "('s \<Rightarrow> nat) \<Rightarrow> ('s, 'n) cmd_env \<Rightarrow> 's cmd_state \<Rightarrow> bool" where
  "cmd_reached cnt E s \<longleftrightarrow>
     cmd_inv cnt E s \<and> printed E s \<and> first_result E s \<and> (cm_main s = Left_Loop \<longrightarrow> length (answers s) = 2)"

lemma main_leaves: "main_step E s = Some t \<Longrightarrow> cm_main t = Left_Loop \<Longrightarrow> cm_main s \<noteq> Left_Loop \<Longrightarrow> cm_done t = 2"
  by (auto simp: main_step_def cmd_async_def delete_client_def delete_server_def Let_def split: if_splits cmd_main.splits)

lemma main_same:
  assumes set: "cmd_setting E" and sem: "semaphore (ce_sem E) cnt" and inv: "cmd_inv cnt E s"
    and st: "cmd_step E s e = Some t" and "e \<noteq> Main"
  shows "cm_main t = cm_main s"
proof (cases e)
  case (Handler k)
  then show ?thesis using st
    by (auto simp: cmd_step_def handler_step_def Let_def split: if_splits handler_thread.splits)
next
  case (Remote ev)
  then have st: "remote_events E ev s = Some t" using st by (simp add: cmd_step_def split: if_splits)
  show ?thesis
  proof (cases ev)
    case (Call i ident p k)
    then show ?thesis using st by (simp add: remote_events_def Let_def)
  next
    case (Request ev')
    show ?thesis using request_part [OF set sem inv st [unfolded Request]] by auto
  next
    case (Reply i k)
    show ?thesis using reply_part [OF set sem inv st [unfolded Reply]] by auto
  next
    case (Response ev')
    show ?thesis using response_part [OF set sem inv st [unfolded Response]] by auto
  qed
qed (use assms(5) in simp)

lemma cmd_reached_step:
  assumes set: "cmd_setting E" and sem: "semaphore (ce_sem E) cnt" and "cmd_reached cnt E s" and st: "cmd_step E s e = Some t"
    and "calling (cm_main t)"
  shows "cmd_reached cnt E t"
proof -
  have inv: "cmd_inv cnt E s" "printed E s" "first_result E s" using assms(3) by (simp_all add: cmd_reached_def)
  have inv': "cmd_inv cnt E t" by (rule cmd_inv_step [OF set sem inv(1) st assms(5)])
  obtain cs where out: "printed E t" "answers t = answers s @ cs" using printed_step [OF set sem inv(1,2) st] by blast
  have "length (answers t) = 2" if left: "cm_main t = Left_Loop"
  proof (cases "e = Main")
    case True
    then have "main_step E s = Some t" using st cmd_step_calling [OF inv(1)] by simp
    moreover from this have "cm_main s \<noteq> Left_Loop"
      using left by (auto simp: main_step_def delete_client_def Let_def split: if_splits)
    ultimately have "cm_done t = 2" using main_leaves left by blast
    then show ?thesis using two_answers [OF set inv' out(1)] by simp
  next
    case False
    then have "length (answers s) = 2"
      using main_same [OF set sem inv(1) st False] left assms(3) by (simp add: cmd_reached_def)
    then show ?thesis using out(2) cmd_answers(5) [OF set inv'] by simp
  qed
  then show ?thesis using inv' out(1) cmd_first.step_inv [OF inv(3) st] by (simp add: cmd_reached_def)
qed

text \<open>From the first deletion on nothing is printed by the lambdas: the client's receive thread only stops.\<close>

definition closing_inv :: "('s, 'n) cmd_env \<Rightarrow> 's cmd_state \<Rightarrow> bool" where
  "closing_inv E s \<longleftrightarrow>
     \<not> calling (cm_main s) \<and> printed E s \<and> distinct (map fst (answers s)) \<and> fst ` set (answers s) = cmd_ids E \<and>
     zoom_result E 0 \<in> snd ` set (answers s) \<and> snd ` set (answers s) \<subseteq> {zoom_result E 0, zoom_result E 1} \<and>
     flag_inv (rm_rsp (cm_remote s)) \<and> ch_destructor (rm_rsp (cm_remote s)) \<noteq> D_None"

lemma destructor_stays:
  "channel_step P c e = Some d \<Longrightarrow> e \<noteq> Reopen \<Longrightarrow> ch_destructor c \<noteq> D_None \<Longrightarrow> ch_destructor d \<noteq> D_None"
  by (cases e) (auto simp: channel_step_def channel_steps split: if_splits)

lemma closing_frame:
  fixes E :: "('s, 'n) cmd_env"
  assumes "closing_inv E s" and "\<not> calling (cm_main t)" and "answers t = answers s" and "client_out (cm_cout t) = client_out (cm_cout s)"
    and "cm_done t = cm_done s"
    and "rm_rsp (cm_remote t) = rm_rsp (cm_remote s) \<or>
      (\<exists>(P :: ('s, 'n) peers) e. channel_step P (rm_rsp (cm_remote s)) e = Some (rm_rsp (cm_remote t)) \<and> e \<noteq> Reopen)"
  shows "closing_inv E t"
proof -
  have old: "flag_inv (rm_rsp (cm_remote s))" "ch_destructor (rm_rsp (cm_remote s)) \<noteq> D_None"
    using assms(1) by (simp_all add: closing_inv_def)
  have "flag_inv (rm_rsp (cm_remote t)) \<and> ch_destructor (rm_rsp (cm_remote t)) \<noteq> D_None"
    using assms(6)
  proof
    assume "\<exists>(P :: ('s, 'n) peers) e. channel_step P (rm_rsp (cm_remote s)) e = Some (rm_rsp (cm_remote t)) \<and> e \<noteq> Reopen"
    then obtain P :: "('s, 'n) peers" and e where
      step: "channel_step P (rm_rsp (cm_remote s)) e = Some (rm_rsp (cm_remote t))" "e \<noteq> Reopen" by blast
    show ?thesis using flag_step [OF old(1) step(1)] destructor_stays [OF step old(2)] by blast
  qed (use old in simp)
  then show ?thesis using assms(1-5) by (simp add: closing_inv_def printed_def)
qed

lemma delete_step_channel:
  assumes "delete_step P c = Some d"
  shows "\<exists>e. channel_step P c e = Some d \<and> e \<noteq> Reopen"
proof -
  have "channel_step P c ShutdownFlag = Some d \<or> channel_step P c ShutdownPost = Some d \<or> channel_step P c Join = Some d"
    using assms by (simp add: delete_step_def split: destructor.splits)
  then show ?thesis by blast
qed

lemma closing_response:
  assumes "closing_inv E s" and st: "remote_events E (Response ev) s = Some t"
  shows "closing_inv E t"
proof -
  let ?R = "cmd_remote E (\<lambda>_ _. zoom_result E 0)" and ?r = "cm_remote s"
  show ?thesis
  proof (cases "ev = Handle \<and> sb_shutdown (ch_buf (rm_rsp ?r))")
    case True
    then obtain c where "channel_step (client_peers ?R (rm_client ?r)) (rm_rsp ?r) Handle = Some c" "t = s\<lparr>cm_remote := ?r\<lparr>rm_rsp := c\<rparr>\<rparr>"
      using st by (auto simp: remote_events_def Let_def)
    then show ?thesis by (intro closing_frame [OF assms(1)]) (use assms(1) in \<open>auto simp: closing_inv_def\<close>)
  next
    case False
    then obtain r where r: "actions_step ?R ?r (Response ev) = Some r"
      and t: "t = run_lambdas E (drop (length (answers s)) (ai_calls (rm_client r))) (s\<lparr>cm_remote := r\<rparr>)"
      using st by (auto simp: remote_events_def Let_def)
    then have "response_step ?R ev ?r = Some r" by (simp add: actions_step_def split: if_splits)
    then obtain c where c: "channel_step (client_peers ?R (rm_client ?r)) (rm_rsp ?r) ev = Some c" "rm_rsp r = c"
        "living_event (\<lambda>_. False) ev"
        "rm_client r = (case (ev, handed (client_peers ?R (rm_client ?r)) (rm_rsp ?r)) of
          (Handle, Some m) \<Rightarrow> fst (M_responseHandler (ie_throw (re_ipc ?R)) (re_action ?R) m (rm_client ?r))
        | _ \<Rightarrow> rm_client ?r)"
      by (rule response_stepE)
    have "ev \<noteq> Handle"
    proof
      assume "ev = Handle"
      then have "ch_receiver (rm_rsp ?r) = R_Handling" "\<not> sb_shutdown (ch_buf (rm_rsp ?r))"
        using c(1) False by (auto elim: handle_step)
      then show False using assms(1) by (cases "ch_destructor (rm_rsp ?r)") (auto simp: closing_inv_def flag_inv_def)
    qed
    then have "rm_client r = rm_client ?r" using c(4) by (auto split: channel_event.splits)
    then have "t = s\<lparr>cm_remote := r\<rparr>" "answers t = answers s" using t by simp_all
    moreover have "ev \<noteq> Reopen" using c(3) by auto
    ultimately show ?thesis using c(1,2)
      by (intro closing_frame [OF assms(1)]) (use assms(1) in \<open>auto simp: closing_inv_def\<close>)
  qed
qed

lemma closing_others:
  assumes "closing_inv E s" and st: "remote_events E ev s = Some t" and "\<nexists>ev'. ev = Response ev'"
  shows "closing_inv E t"
proof (cases ev)
  case (Request ev')
  then have "\<not> calling (cm_main t)" "rm_rsp (cm_remote t) = rm_rsp (cm_remote s)" "answers t = answers s"
      "cm_cout t = cm_cout s" "cm_done t = cm_done s"
    using assms(1) st
    by (auto simp: remote_events_def Let_def actions_step_def closing_inv_def split: if_splits elim!: request_stepE)
  then show ?thesis by (intro closing_frame [OF assms(1)]) simp_all
next
  case (Reply i k)
  then obtain a r where r: "actions_step (cmd_remote E (\<lambda>_ _. a)) (cm_remote s) (Reply i k) = Some r"
      "t = s\<lparr>cm_remote := r, cm_threads := take k (cm_threads s) @ drop (Suc k) (cm_threads s)\<rparr>"
    using st by (auto simp: remote_events_def Let_def split: if_splits handler_thread.splits)
  then have "(rm_rsp r = rm_rsp (cm_remote s) \<or>
       (\<exists>x. channel_step (client_peers (cmd_remote E (\<lambda>_ _. a)) (rm_client (cm_remote s))) (rm_rsp (cm_remote s)) (WaitEmpty i x) = Some (rm_rsp r))) \<and>
      rm_client r = rm_client (cm_remote s)"
    by (auto simp: actions_step_def reply_step_def split: if_splits outcome.splits)
  then show ?thesis using r(2)
    by (intro closing_frame [OF assms(1)]) (use assms(1) in \<open>auto simp: closing_inv_def\<close>)
qed (use st assms(3) in \<open>auto simp: remote_events_def Let_def\<close>)

lemma closing_step:
  assumes "closing_inv E s" and st: "cmd_step E s e = Some t"
  shows "closing_inv E t"
proof (cases e)
  case Main
  then have st: "main_step E s = Some t" using st by (simp add: cmd_step_def split: if_splits)
  have "cm_main s = Deleting_Client \<or> cm_main s = Deleting_Server"
    using st assms(1) by (cases "cm_main s") (auto simp: main_step_def closing_inv_def split: if_splits)
  then have "delete_client E s = Some t \<or> delete_server E s = Some t"
    using st by (auto simp: main_step_def split: if_splits)
  then show ?thesis
    by (intro closing_frame [OF assms(1)])
      (auto simp: delete_client_def delete_server_def Let_def dest: delete_step_channel split: if_splits)
next
  case (Handler k)
  then have st: "handler_step E k s = Some t" using st by (simp add: cmd_step_def split: if_splits)
  then have "cm_main t = cm_main s" by (auto simp: handler_step_def Let_def split: if_splits handler_thread.splits)
  then show ?thesis using handler_frame [OF st] assms(1) by (intro closing_frame [OF assms(1)]) (simp_all add: closing_inv_def)
next
  case (Remote ev)
  then have "remote_events E ev s = Some t" using st by (simp add: cmd_step_def split: if_splits)
  then show ?thesis using closing_response [OF assms(1)] closing_others [OF assms(1)] by (cases "\<exists>ev'. ev = Response ev'") auto
qed

text \<open>The first deletion.\<close>

lemma begin_closing:
  assumes set: "cmd_setting E" and sem: "semaphore (ce_sem E) cnt" and r: "cmd_reached cnt E s" and st: "cmd_step E s e = Some t"
    and "\<not> calling (cm_main t)"
  shows "closing_inv E t"
proof -
  have inv: "cmd_inv cnt E s" "first_result E s" "printed E s" using r by (simp_all add: cmd_reached_def)
  have "calling (cm_main s)" using inv(1) by (simp add: cmd_inv_def)
  then have "e = Main" using main_same [OF set sem inv(1) st] assms(5) by metis
  then have st: "main_step E s = Some t" using st cmd_step_calling [OF inv(1)] by simp
  have "cm_main s = Left_Loop"
  proof (cases "cm_main s")
    case At_First
    then have "cmd_async E 0 At_Second s = Some t" using st by (simp add: main_step_def split: if_splits)
    from cmd_async_inv(2) [OF set sem inv(1) this] show ?thesis using assms(5) At_First by (simp add: cmd_issued_def)
  next
    case At_Second
    then have "cmd_async E 1 In_Loop s = Some t" using st by (simp add: main_step_def split: if_splits)
    from cmd_async_inv(2) [OF set sem inv(1) this] show ?thesis using assms(5) At_Second by (simp add: cmd_issued_def)
  next
    case In_Loop
    then show ?thesis using st assms(5) by (auto simp: main_step_def split: if_splits)
  qed (use \<open>calling (cm_main s)\<close> in simp_all)
  then have two: "length (answers s) = 2" and del: "delete_client E s = Some t"
    using r st by (simp_all add: cmd_reached_def main_step_def split: if_splits)
  have dir: "flag_inv (rm_rsp (cm_remote s))" "ch_destructor (rm_rsp (cm_remote s)) = D_None"
    using cmd_invD(1) [OF inv(1)] by (simp_all add: answerable_def remote_inv_def direction_inv_def chan_inv_def)
  obtain c where c: "channel_step (client_peers (cmd_remote E (\<lambda>_ _. zoom_result E 0)) (rm_client (cm_remote s))) (rm_rsp (cm_remote s)) ShutdownFlag = Some c"
      "cm_remote t = (cm_remote s)\<lparr>rm_rsp := c\<rparr>" "cm_cout t = cm_cout s" "cm_done t = cm_done s"
    using del dir(2) by (auto simp: delete_client_def delete_step_def Let_def)
  have "ch_destructor c \<noteq> D_None" using c(1) by (auto simp: channel_step_def channel_steps split: if_splits)
  then show ?thesis
    using assms(5) c(2-4) cmd_answers(1,3) [OF set inv(1)] both_ids [OF set inv(1) two] left_response [OF set inv(1,2) two] inv(3)
      flag_step [OF dir(1) c(1)] by (simp add: closing_inv_def printed_def)
qed

lemma cmd_exec:
  assumes "cmd_setting E" and "semaphore (ce_sem E) cnt" and "cmd_reached cnt E s" and "exec (cmd_step E) s es = Some t"
  shows "cmd_reached cnt E t \<or> closing_inv E t"
proof -
  have "event_machine (cmd_step E) (\<lambda>s. cmd_reached cnt E s \<or> closing_inv E s)"
    by unfold_locales (metis begin_closing [OF assms(1,2)] cmd_reached_step [OF assms(1,2)] closing_step)
  from event_machine.exec_keeps [OF this _ assms(4)] show ?thesis using assms(3) by blast
qed

lemma cmd_reached_exec:
  assumes "cmd_setting E" and "semaphore (ce_sem E) cnt" and "cmd_reached cnt E s" and "exec (cmd_step E) s es = Some t"
    and "calling (cm_main t)"
  shows "cmd_reached cnt E t"
  using cmd_exec [OF assms(1-4)] assms(5) by (auto simp: closing_inv_def)

lemma cmd_reached_start:
  assumes "semaphore (ce_sem E) cnt" and "length mem = MaxMessageSize" and "length mem' = MaxMessageSize"
  shows "cmd_reached cnt E (cmd_start E mem mem' (Suc k))"
  using cmd_start_inv [OF assms]
  by (simp add: cmd_reached_def)
    (simp add: cmd_start_def printed_def client_out_def new_remote_def new_action_state_def first_result_def count_inv_def)

lemma cmd_settles:
  assumes set: "cmd_setting E" and sem: "semaphore (ce_sem E) cnt" and "cmd_reached cnt E s"
  shows "\<exists>fs t. exec (cmd_step E) s fs = Some t \<and> cmd_reached cnt E t \<and> cm_main t = cm_main s \<and>
     remote_rank cnt (cm_remote t) = 0 \<and> (\<exists>l. cm_log t = cm_log s @ l)"
  using assms(3)
proof (induction "cmd_work cnt s" arbitrary: s rule: less_induct)
  case less
  have inv: "cmd_inv cnt E s" using less.prems by (simp add: cmd_reached_def)
  show ?case
  proof (cases "remote_rank cnt (cm_remote s) = 0")
    case True
    then show ?thesis using less.prems by (intro exI [of _ "[]"] exI [of _ s]) simp
  next
    case False
    then obtain e u where u: "cmd_step E s e = Some u" "cm_main u = cm_main s" "cmd_work cnt u < cmd_work cnt s"
        "\<exists>l. cm_log u = cm_log s @ l"
      using cmd_progress [OF set sem inv] by auto
    have "calling (cm_main u)" using inv u(2) by (simp add: cmd_inv_def)
    then have "cmd_reached cnt E u" by (rule cmd_reached_step [OF set sem less.prems u(1)])
    then obtain fs t where "exec (cmd_step E) u fs = Some t" "cmd_reached cnt E t" "cm_main t = cm_main u"
        "remote_rank cnt (cm_remote t) = 0" "\<exists>l. cm_log t = cm_log u @ l"
      using less.hyps [OF u(3)] by auto
    then show ?thesis using u by (intro exI [of _ "e # fs"] exI [of _ t]) auto
  qed
qed

text \<open>With nothing left to do the main thread can go on.\<close>

lemma rank_0_free:
  assumes "answerable cnt R r" and "remote_rank cnt r = 0" and "length (ch_senders (rm_req r)) = 1"
  shows "rm_mutex r = None" and "sender_at (rm_req r) 0 = Some S_Idle"
proof -
  have idle: "\<forall>x \<in> set (ch_senders (rm_req r)). x = S_Idle" and calm: "caller_rank r = 0"
    using assms(2) by (auto simp: remote_rank_def chan_rank_def weight_0)
  then show free: "sender_at (rm_req r) 0 = Some S_Idle" using assms(3) by (simp add: sender_at_Some)
  show "rm_mutex r = None"
  proof (rule ccontr)
    assume "rm_mutex r \<noteq> None"
    then obtain i m where "rm_mutex r = Some (i, m)" by auto
    then show False using calm free assms(1,3) by (auto simp: caller_rank_def answerable_def)
  qed
qed

lemma async_goes_on:
  assumes set: "cmd_setting E" and "rm_mutex (cm_remote s) = None" and "sender_at (rm_req (cm_remote s)) 0 = Some S_Idle"
    and "\<not> rm_down (cm_remote s)"
  shows "\<exists>t. cmd_async E n x s = Some t"
proof -
  let ?R = "cmd_remote E (\<lambda>_ _. zoom_result E 0)"
  obtain m where "response_slot (re_ipc ?R) (re_action ?R) (rm_client (cm_remote s)) = Ok m"
    using response_slot_ok [OF cmd_setting_remote [OF set]] by blast
  then show ?thesis using assms(2-4)
    by (simp add: cmd_async_def actions_step_def remote_call_def async_def Let_def)
qed

lemma both_answered:
  assumes set: "cmd_setting E" and sem: "semaphore (ce_sem E) cnt" and r: "cmd_reached cnt E s"
    and "cm_main s = In_Loop" and "remote_rank cnt (cm_remote s) = 0"
  shows "fst ` set (answers s) = cmd_ids E" and "cm_done s = 2"
proof -
  have inv: "cmd_inv cnt E s" and out: "printed E s" using r by (simp_all add: cmd_reached_def)
  have "fst x \<in> fst ` set (answers s)" if "x \<in> set (rm_issued (cm_remote s))" for x
    using semaphore.finished_answered [OF sem cmd_invD(1) [OF inv] assms(5) that] .
  then have "fst ` set (rm_issued (cm_remote s)) \<subseteq> fst ` set (answers s)" by blast
  then have "cmd_ids E \<subseteq> fst ` set (answers s)"
    unfolding cmd_invD(4) [OF inv] assms(4) by (simp add: cmd_issued_def cmd_ids_def)
  then show ids: "fst ` set (answers s) = cmd_ids E" using cmd_answers(2) [OF set inv] by blast
  have "length (answers s) = card (cmd_ids E)"
    using distinct_card [OF cmd_answers(1) [OF set inv]] ids by simp
  also have "\<dots> = 2" using set by (simp add: cmd_ids_def cmd_setting_def)
  finally show "cm_done s = 2" using out by (simp add: printed_def)
qed

definition cmd_leaves :: "('s \<Rightarrow> nat) \<Rightarrow> ('s, 'n) cmd_env \<Rightarrow> 's cmd_state \<Rightarrow> bool" where
  "cmd_leaves cnt E s \<longleftrightarrow>
     (\<exists>fs t. exec (cmd_step E) s fs = Some t \<and> cmd_reached cnt E t \<and> cm_main t = Left_Loop \<and>
       fst ` set (answers t) = cmd_ids E \<and> (\<exists>l. cm_log t = cm_log s @ l))"

lemma leaves_after:
  assumes "exec (cmd_step E) s es = Some u" and "cmd_leaves cnt E u" and "\<exists>l. cm_log u = cm_log s @ l"
  shows "cmd_leaves cnt E s"
proof -
  obtain fs t where t: "exec (cmd_step E) u fs = Some t" "cmd_reached cnt E t" "cm_main t = Left_Loop"
      "fst ` set (answers t) = cmd_ids E" "\<exists>l. cm_log t = cm_log u @ l"
    using assms(2) by (auto simp: cmd_leaves_def)
  have "exec (cmd_step E) s (es @ fs) = Some t" using exec_then [OF assms(1)] t(1) by simp
  then show ?thesis using t(2-5) assms(3) unfolding cmd_leaves_def by (metis append_assoc)
qed

text \<open>The rest of a run once the channels are empty, and by it the rest of any run.\<close>

lemma leaves_settled:
  assumes set: "cmd_setting E" and sem: "semaphore (ce_sem E) cnt"
    and IH: "\<And>t. cmd_reached cnt E t \<Longrightarrow> cm_main s = At_First \<and> cm_main t = At_Second \<or> cm_main s = At_Second \<and> cm_main t = In_Loop \<Longrightarrow>
      cmd_leaves cnt E t"
    and r: "cmd_reached cnt E s" and up: "cm_main s \<noteq> Left_Loop" and rank: "remote_rank cnt (cm_remote s) = 0"
  shows "cmd_leaves cnt E s"
proof -
  have inv: "cmd_inv cnt E s" using r by (simp add: cmd_reached_def)
  have free: "rm_mutex (cm_remote s) = None" "sender_at (rm_req (cm_remote s)) 0 = Some S_Idle"
    using rank_0_free [OF cmd_invD(1) [OF inv] rank] inv by (simp_all add: cmd_inv_def)
  have step: "cmd_step E s Main = main_step E s" using cmd_step_calling [OF inv] by simp
  have async: "\<exists>t. cmd_async E n x s = Some t" for n x by (rule async_goes_on [OF set free cmd_invD(7) [OF inv]])
  have more: "cmd_leaves cnt E s" if "cmd_step E s Main = Some t" "cmd_leaves cnt E t" "cm_log t = cm_log s" for t
    using leaves_after [of E s "[Main]" t cnt] that by simp
  show ?thesis
  proof (cases "cm_main s")
    case At_First
    then obtain t where t: "cmd_async E 0 At_Second s = Some t" using async by blast
    have a: "cm_main t = At_Second" "cm_log t = cm_log s"
      using cmd_async_inv(2,3) [OF set sem inv t] At_First by (simp_all add: cmd_issued_def)
    have main: "cmd_step E s Main = Some t" using step t free At_First by (simp add: main_step_def)
    show ?thesis using more [OF main IH [OF cmd_reached_step [OF set sem r main]]] a At_First by simp
  next
    case At_Second
    then obtain t where t: "cmd_async E 1 In_Loop s = Some t" using async by blast
    have a: "cm_main t = In_Loop" "cm_log t = cm_log s"
      using cmd_async_inv(2,3) [OF set sem inv t] At_Second by (simp_all add: cmd_issued_def)
    have main: "cmd_step E s Main = Some t" using step t free At_Second by (simp add: main_step_def)
    show ?thesis using more [OF main IH [OF cmd_reached_step [OF set sem r main]]] a At_Second by simp
  next
    case In_Loop
    let ?t = "s\<lparr>cm_main := Left_Loop\<rparr>"
    note both = both_answered [OF set sem r In_Loop rank]
    have main: "cmd_step E s Main = Some ?t" using step both(2) free In_Loop by (simp add: main_step_def)
    have "cmd_leaves cnt E ?t"
      unfolding cmd_leaves_def
      using both(1) cmd_reached_step [OF set sem r main] by (intro exI [of _ "[]"] exI [of _ ?t]) simp
    then show ?thesis using more [OF main] by simp
  qed (use up inv in \<open>simp_all add: cmd_inv_def\<close>)
qed

lemma leaves_by:
  assumes set: "cmd_setting E" and sem: "semaphore (ce_sem E) cnt"
    and IH: "\<And>t. cmd_reached cnt E t \<Longrightarrow> x = At_First \<and> cm_main t = At_Second \<or> x = At_Second \<and> cm_main t = In_Loop \<Longrightarrow>
      cmd_leaves cnt E t"
    and r: "cmd_reached cnt E s" and "cm_main s = x" and "x \<noteq> Left_Loop"
  shows "cmd_leaves cnt E s"
proof -
  obtain fs t where "exec (cmd_step E) s fs = Some t" "cmd_reached cnt E t" "cm_main t = cm_main s"
      "remote_rank cnt (cm_remote t) = 0" "\<exists>l. cm_log t = cm_log s @ l"
    using cmd_settles [OF set sem r] assms(5,6) by auto
  then show ?thesis using leaves_settled [OF set sem _ , of t] IH assms(5,6) leaves_after by metis
qed

lemma reached_leaves:
  assumes set: "cmd_setting E" and sem: "semaphore (ce_sem E) cnt" and r: "cmd_reached cnt E s" and "cm_main s \<noteq> Left_Loop"
  shows "cmd_leaves cnt E s"
proof -
  have loop: "cmd_leaves cnt E t" if "cmd_reached cnt E t" "cm_main t = In_Loop" for t
    by (rule leaves_by [OF set sem _ that]) simp_all
  have second: "cmd_leaves cnt E t" if "cmd_reached cnt E t" "cm_main t = At_Second" for t
    by (rule leaves_by [OF set sem _ that]) (use loop in simp_all)
  have first: "cmd_leaves cnt E t" if "cmd_reached cnt E t" "cm_main t = At_First" for t
    by (rule leaves_by [OF set sem _ that]) (use second in simp_all)
  have "calling (cm_main s)" using r by (simp add: cmd_reached_def cmd_inv_def)
  then show ?thesis using loop second first r assms(4) by (cases "cm_main s") auto
qed

section \<open>The endpoints are deleted\<close>

text \<open>The destructor of an endpoint wakes the waiting receive thread and joins it.\<close>

definition close_run :: "(channel_event \<Rightarrow> remote_event) \<Rightarrow> cmd_event list" where
  "close_run wrap =
     [Main, Main, Remote (wrap WaitFull), Remote (wrap LockReceive), Remote (wrap Handle), Remote (wrap UnlockReceive),
      Remote (wrap PostEmpty), Main]"

lemma delete_steps:
  "ch_destructor c = D_None \<Longrightarrow> delete_step P c = channel_step P c ShutdownFlag"
  "ch_destructor c = D_Flagged \<Longrightarrow> delete_step P c = channel_step P c ShutdownPost"
  "ch_destructor c = D_Joining \<Longrightarrow> delete_step P c = channel_step P c Join"
  by (simp_all add: delete_step_def)

context semaphore
begin

lemma channel_closes:
  assumes L: "pe_sem P = L" and inv: "chan_inv cnt c" "ch_posts c = 0" "ch_errors c = []" "\<not> ch_terminated c"
    "ch_destructor c = D_None" and rank: "chan_rank cnt w c = 0"
  obtains full mtx where "sl_wait L (sl_post L (sb_full (ch_buf c))) = Some full" "sl_wait L (sb_mutex (ch_buf c)) = Some mtx"
    "ch_receiver c = R_Waiting"
proof -
  have idle: "\<forall>v \<in> set (ch_senders c). v = S_Idle" using rank by (simp add: chan_rank_def weight_0)
  have recv: "ch_receiver c = R_Waiting"
    using rank inv(1,5) by (cases "ch_receiver c") (auto simp: chan_rank_def chan_inv_def flag_inv_def)
  have "weight s_slot (ch_senders c) = 0" using idle by (simp add: weight_slot_0)
  then have "weight s_mutex (ch_senders c) = 0" using weight_mono [of s_mutex s_slot "ch_senders c", OF s_mutex_slot] by simp
  then have "0 < cnt (sb_mutex (ch_buf c))" using inv(1,3) recv unfolding chan_inv_def lock_inv_def by simp
  then obtain mtx where "sl_wait L (sb_mutex (ch_buf c)) = Some mtx" using wait_pos by blast
  moreover have "0 < cnt (sl_post L (sb_full (ch_buf c)))" by (simp add: cnt_post)
  then obtain full where "sl_wait L (sl_post L (sb_full (ch_buf c))) = Some full" using wait_pos by blast
  ultimately show ?thesis using recv that by blast
qed

end

lemma client_closes:
  assumes main: "cm_main s = Left_Loop" "rm_mutex (cm_remote s) = None" "\<not> rm_down (cm_remote s)"
    and c: "\<not> ch_terminated (rm_rsp (cm_remote s))" "ch_destructor (rm_rsp (cm_remote s)) = D_None"
      "ch_receiver (rm_rsp (cm_remote s)) = R_Waiting"
      "sl_wait (ce_sem E) (sl_post (ce_sem E) (sb_full (ch_buf (rm_rsp (cm_remote s))))) = Some full"
      "sl_wait (ce_sem E) (sb_mutex (ch_buf (rm_rsp (cm_remote s)))) = Some mtx"
  shows "\<exists>c. exec (cmd_step E) s (close_run Response) = Some (s\<lparr>cm_remote := (cm_remote s)\<lparr>rm_rsp := c\<rparr>, cm_main := Deleting_Server\<rparr>)"
  using assms
  by (simp add: close_run_def cmd_step_def main_step_def delete_client_def delete_steps channel_step_def channel_ops
      remote_events_def actions_step_def response_step_def Let_def) (rule exI, rule refl)

lemma server_closes:
  assumes main: "cm_main s = Deleting_Server" "rm_mutex (cm_remote s) = None" "\<not> rm_down (cm_remote s)"
    and c: "\<not> ch_terminated (rm_req (cm_remote s))" "ch_destructor (rm_req (cm_remote s)) = D_None"
      "ch_receiver (rm_req (cm_remote s)) = R_Waiting"
      "sl_wait (ce_sem E) (sl_post (ce_sem E) (sb_full (ch_buf (rm_req (cm_remote s))))) = Some full"
      "sl_wait (ce_sem E) (sb_mutex (ch_buf (rm_req (cm_remote s)))) = Some mtx"
  shows "\<exists>c. exec (cmd_step E) s (close_run Request) = Some (s\<lparr>cm_remote := (cm_remote s)\<lparr>rm_req := c\<rparr>, cm_main := Main_Returned\<rparr>)"
  using assms
  by (simp add: close_run_def cmd_step_def main_step_def delete_server_def delete_steps channel_step_def channel_ops
      remote_events_def actions_step_def request_step_def Let_def) (rule exI, rule refl)

lemma loop_to_end:
  assumes set: "cmd_setting E" and sem: "semaphore (ce_sem E) cnt" and r: "cmd_reached cnt E s" and "cm_main s = Left_Loop"
  shows "\<exists>fs t. exec (cmd_step E) s fs = Some t \<and> cm_main t = Main_Returned \<and> cm_done t = 2 \<and> length (client_out (cm_cout t)) = 2"
proof -
  obtain fs u where u: "exec (cmd_step E) s fs = Some u" "cmd_reached cnt E u" "cm_main u = Left_Loop"
      "remote_rank cnt (cm_remote u) = 0"
    using cmd_settles [OF set sem r] assms(4) by auto
  let ?r = "cm_remote u"
  have inv: "cmd_inv cnt E u" and out: "cm_done u = 2" "length (client_out (cm_cout u)) = 2"
    using u(2,3) by (simp_all add: cmd_reached_def printed_def)
  note ans = cmd_invD(1) [OF inv]
  have free: "rm_mutex ?r = None" using rank_0_free(1) [OF ans u(4)] inv by (simp add: cmd_inv_def)
  have rank: "chan_rank cnt 0 (rm_rsp ?r) = 0" "chan_rank cnt 11 (rm_req ?r) = 0" using u(4) by (simp_all add: remote_rank_def)
  have rsp: "chan_inv cnt (rm_rsp ?r)" "ch_posts (rm_rsp ?r) = 0" "ch_errors (rm_rsp ?r) = []" "\<not> ch_terminated (rm_rsp ?r)"
      "ch_destructor (rm_rsp ?r) = D_None"
    and req: "chan_inv cnt (rm_req ?r)" "ch_posts (rm_req ?r) = 0" "ch_errors (rm_req ?r) = []" "\<not> ch_terminated (rm_req ?r)"
      "ch_destructor (rm_req ?r) = D_None"
    using ans by (simp_all add: answerable_def remote_inv_def direction_inv_def)
  have L: "pe_sem (server_peers (cmd_remote E h)) = ce_sem E" for h by simp
  obtain full mtx where "sl_wait (ce_sem E) (sl_post (ce_sem E) (sb_full (ch_buf (rm_rsp ?r)))) = Some full"
      "sl_wait (ce_sem E) (sb_mutex (ch_buf (rm_rsp ?r))) = Some mtx" "ch_receiver (rm_rsp ?r) = R_Waiting"
    using semaphore.channel_closes [OF sem L rsp rank(1)] by blast
  then obtain c where c: "exec (cmd_step E) u (close_run Response) = Some (u\<lparr>cm_remote := ?r\<lparr>rm_rsp := c\<rparr>, cm_main := Deleting_Server\<rparr>)"
    using client_closes [OF u(3) free cmd_invD(7) [OF inv] rsp(4,5)] by blast
  let ?v = "u\<lparr>cm_remote := ?r\<lparr>rm_rsp := c\<rparr>, cm_main := Deleting_Server\<rparr>"
  obtain full' mtx' where "sl_wait (ce_sem E) (sl_post (ce_sem E) (sb_full (ch_buf (rm_req ?r)))) = Some full'"
      "sl_wait (ce_sem E) (sb_mutex (ch_buf (rm_req ?r))) = Some mtx'" "ch_receiver (rm_req ?r) = R_Waiting"
    using semaphore.channel_closes [OF sem L req rank(2)] by blast
  then obtain d where d: "exec (cmd_step E) ?v (close_run Request) = Some (?v\<lparr>cm_remote := (cm_remote ?v)\<lparr>rm_req := d\<rparr>, cm_main := Main_Returned\<rparr>)"
    using server_closes [of ?v E full' mtx'] free cmd_invD(7) [OF inv] req(4,5) by auto
  let ?t = "?v\<lparr>cm_remote := (cm_remote ?v)\<lparr>rm_req := d\<rparr>, cm_main := Main_Returned\<rparr>"
  have "exec (cmd_step E) s (fs @ close_run Response @ close_run Request) = Some ?t"
    using exec_then [OF u(1)] exec_then [OF c] d by simp
  then show ?thesis using out by (intro exI [of _ "fs @ close_run Response @ close_run Request"] exI [of _ ?t]) simp
qed

section \<open>The race\<close>

text \<open>The requests can all be handed over before a handler goes on.\<close>

lemma requests_drain:
  assumes set: "cmd_setting E" and sem: "semaphore (ce_sem E) cnt" and "cmd_reached cnt E s"
  shows "\<exists>fs t n. exec (cmd_step E) s fs = Some t \<and> cmd_reached cnt E t \<and> cm_main t = cm_main s \<and> cm_log t = cm_log s \<and>
     cm_count t = cm_count s \<and> cm_threads t = cm_threads s @ replicate n T_Started \<and>
     chan_rank cnt 11 (rm_req (cm_remote t)) = 0 \<and> rm_mutex (cm_remote t) = None"
  using assms(3)
proof (induction "remote_rank cnt (cm_remote s)" arbitrary: s rule: less_induct)
  case less
  have inv: "cmd_inv cnt E s" using less.prems(1) by (simp add: cmd_reached_def)
  let ?R = "known_remote E (cm_log s)"
  note sem' = sem [folded cmd_remote_sel(1) [of E "zoom_handler E (cm_log s)"]]
  show ?case
  proof (cases "chan_rank cnt 11 (rm_req (cm_remote s)) = 0 \<and> rm_mutex (cm_remote s) = None")
    case True
    then show ?thesis using less.prems by (intro exI [of _ "[]"] exI [of _ s] exI [of _ 0]) simp
  next
    case False
    have "\<exists>e r. request_step ?R e (cm_remote s) = Some r \<and> remote_rank cnt r < remote_rank cnt (cm_remote s)"
    proof (cases "chan_rank cnt 11 (rm_req (cm_remote s)) = 0")
      case True
      then obtain i m where "rm_mutex (cm_remote s) = Some (i, m)" using False by auto
      then show ?thesis using semaphore.call_progress [OF sem' refl cmd_invD(1) [OF inv] True] by blast
    next
      case False
      then show ?thesis
        using semaphore.request_progress [OF sem' cmd_setting_remote [OF set] refl cmd_invD(1) [OF inv]] by blast
    qed
    then obtain e r where r: "request_step ?R e (cm_remote s) = Some r" "remote_rank cnt r < remote_rank cnt (cm_remote s)"
      by blast
    have act: "actions_step ?R (cm_remote s) (Request e) = Some r" using r(1) cmd_invD(7) [OF inv] by (simp add: actions_step_def)
    then have "actions_step (cmd_remote E (\<lambda>_ _. zoom_result E 0)) (cm_remote s) (Request e) = Some r"
      using cmd_steps_same [of "Request e" "cm_remote s" "\<lambda>_ _. zoom_result E 0" "zoom_handler E (cm_log s)" E] by simp
    then obtain u where u: "remote_events E (Request e) s = Some u"
      using cmd_invD(8) [OF inv] by (simp add: remote_events_def Let_def)
    obtain ms :: "ipc_message list" where ms: "u = s\<lparr>cm_remote := r, cm_threads := cm_threads s @ replicate (length ms) T_Started\<rparr>"
      using request_part [OF set sem inv u] act by auto
    have st: "cmd_step E s (Remote (Request e)) = Some u" using u cmd_step_calling [OF inv] by simp
    have u': "remote_rank cnt (cm_remote u) < remote_rank cnt (cm_remote s)" "calling (cm_main u)"
      using r(2) ms inv by (simp_all add: cmd_inv_def)
    from less.hyps [OF u'(1) cmd_reached_step [OF set sem less.prems st u'(2)]]
    obtain fs t n where t: "exec (cmd_step E) u fs = Some t" "cmd_reached cnt E t" "cm_main t = cm_main u" "cm_log t = cm_log u"
        "cm_count t = cm_count u" "cm_threads t = cm_threads u @ replicate n T_Started"
        "chan_rank cnt 11 (rm_req (cm_remote t)) = 0" "rm_mutex (cm_remote t) = None" by blast
    then show ?thesis using st
      by (intro exI [of _ "Remote (Request e) # fs"] exI [of _ t] exI [of _ "length ms + n"]) (simp add: ms replicate_add)
  qed
qed

lemma main_asyncs:
  assumes set: "cmd_setting E" and sem: "semaphore (ce_sem E) cnt" and r: "cmd_reached cnt E s"
    and "chan_rank cnt 11 (rm_req (cm_remote s)) = 0" and "rm_mutex (cm_remote s) = None"
    and pc: "(cm_main s, x) \<in> {(At_First, At_Second), (At_Second, In_Loop)}"
  shows "\<exists>t. cmd_step E s Main = Some t \<and> cmd_reached cnt E t \<and> cm_main t = x \<and> cm_log t = cm_log s \<and>
     cm_count t = cm_count s \<and> cm_threads t = cm_threads s"
proof -
  have inv: "cmd_inv cnt E s" using r by (simp add: cmd_reached_def)
  have "\<forall>v \<in> set (ch_senders (rm_req (cm_remote s))). v = S_Idle" using assms(4) by (simp add: chan_rank_def weight_0)
  then have idle: "sender_at (rm_req (cm_remote s)) 0 = Some S_Idle" using inv by (simp add: sender_at_Some cmd_inv_def)
  obtain n :: nat where n: "n = (if x = At_Second then 0 else 1)" by blast
  obtain t where t: "cmd_async E n x s = Some t" using async_goes_on [OF set assms(5) idle cmd_invD(7) [OF inv]] by blast
  then have st: "cmd_step E s Main = Some t"
    using assms(5) pc n cmd_invD(7) [OF inv] by (auto simp: cmd_step_def main_step_def)
  have "cmd_issued E x = cmd_issued E (cm_main s) @ [(cmd_id E n, cmd_params n)]" using pc n by (auto simp: cmd_issued_def)
  then have "cm_main t = x" "cm_log t = cm_log s"
    using cmd_async_inv(2,3) [OF set sem inv t] n pc by auto
  moreover from this have "calling (cm_main t)" using pc by auto
  moreover have "cm_count t = cm_count s" "cm_threads t = cm_threads s" using t by (auto simp: cmd_async_def)
  ultimately show ?thesis using st cmd_reached_step [OF set sem r st] by blast
qed

text \<open>With nothing returned and nothing on its way there, every call has a thread.\<close>

lemma all_at_work:
  assumes set: "cmd_setting E" and r: "cmd_reached cnt E s" and sem: "semaphore (ce_sem E) cnt" and "cm_main s = In_Loop" and "cm_log s = []"
    and "chan_rank cnt 11 (rm_req (cm_remote s)) = 0" and "rm_mutex (cm_remote s) = None"
  shows "\<exists>m m'. rm_threads (cm_remote s) = [m, m'] \<and> {msg_id m, msg_id m'} = cmd_ids E"
proof -
  let ?r = "cm_remote s"
  have inv: "cmd_inv cnt E s" using r by (simp add: cmd_reached_def)
  note lg = log_knowsD [OF cmd_invD(6) [OF inv]]
  have rinv: "remote_inv cnt (known_remote E (cm_log s)) ?r" using cmd_invD(1) [OF inv] by (simp add: answerable_def)
  have none: "ai_calls (rm_client ?r) = []" "entered (rm_rsp ?r) = {#}" using lg(2,3) assms(5) by simp_all
  then have rsp: "\<not> under_way (rm_rsp ?r) m" for m
    using sender_entered [of m "rm_rsp ?r"] by (auto simp: under_way_def dest: in_set_dropD)
  have req: "\<not> under_way (rm_req ?r) m" for m
    using semaphore.idle_nothing_under_way [OF sem, of _ _ "rm_req ?r" 11 m] rinv assms(6) unfolding remote_inv_def by blast
  have issued: "fst ` set (rm_issued ?r) = cmd_ids E"
    using cmd_invD(4) [OF inv] assms(4) by (simp add: cmd_issued_def cmd_ids_def)
  have "fst x \<in> msg_id ` set (rm_threads ?r)" if "x \<in> set (rm_issued ?r)" for x
  proof -
    have "located (known_remote E (cm_log s)) ?r (fst x)" using cmd_invD(1) [OF inv] that by (simp add: answerable_def)
    then have "\<exists>m \<in> set (rm_threads ?r). msg_id m = fst x" using none(1) rsp req assms(7) by (simp add: located_def)
    then show ?thesis by force
  qed
  then have "fst ` set (rm_issued ?r) \<subseteq> msg_id ` set (rm_threads ?r)" by blast
  then have "cmd_ids E \<subseteq> msg_id ` set (rm_threads ?r)" unfolding issued .
  moreover have "msg_id ` set (rm_threads ?r) \<subseteq> fst ` set (rm_issued ?r)"
    using rinv by (force simp: remote_inv_def is_request_def)
  ultimately have ids: "set (map msg_id (rm_threads ?r)) = cmd_ids E" using issued by simp
  have "distinct (map msg_id (rm_threads ?r))"
    using once_distinct(2) [OF cmd_invD(2) [OF inv]] cmd_invD(4) [OF inv] cmd_distinct [OF set] by simp
  then have "length (rm_threads ?r) = card (cmd_ids E)" using ids distinct_card by fastforce
  then have "length (rm_threads ?r) = Suc (Suc 0)" using set by (simp add: cmd_ids_def cmd_setting_def)
  then obtain m m' where "rm_threads ?r = [m, m']" by (auto simp: length_Suc_conv)
  then show ?thesis using ids by auto
qed

lemma cmd_both_at_work:
  assumes set: "cmd_setting E" and sem: "semaphore (ce_sem E) cnt" and "length mem = MaxMessageSize" and "length mem' = MaxMessageSize"
  shows "\<exists>es s m m'. exec (cmd_step E) (cmd_start E mem mem' (Suc k)) es = Some s \<and> cmd_reached cnt E s \<and> cm_main s = In_Loop \<and>
     cm_log s = [] \<and> cm_count s = 0 \<and> cm_threads s = [T_Started, T_Started] \<and>
     rm_threads (cm_remote s) = [m, m'] \<and> {msg_id m, msg_id m'} = cmd_ids E"
proof -
  let ?s = "cmd_start E mem mem' (Suc k)"
  have r0: "cmd_reached cnt E ?s" by (rule cmd_reached_start [OF sem assms(3,4)])
  have s0: "cm_main ?s = At_First" "cm_log ?s = []" "cm_count ?s = 0" "cm_threads ?s = []" by (simp_all add: cmd_start_def)
  obtain fs a n where a: "exec (cmd_step E) ?s fs = Some a" "cmd_reached cnt E a" "cm_main a = At_First" "cm_log a = []"
      "cm_count a = 0" "cm_threads a = replicate n T_Started"
      "chan_rank cnt 11 (rm_req (cm_remote a)) = 0" "rm_mutex (cm_remote a) = None"
    using requests_drain [OF set sem r0] s0 by auto
  obtain b where b: "cmd_step E a Main = Some b" "cmd_reached cnt E b" "cm_main b = At_Second" "cm_log b = []"
      "cm_count b = 0" "cm_threads b = replicate n T_Started"
    using main_asyncs [OF set sem a(2,7,8), of At_Second] a by auto
  obtain gs c n' where c: "exec (cmd_step E) b gs = Some c" "cmd_reached cnt E c" "cm_main c = At_Second" "cm_log c = []"
      "cm_count c = 0" "cm_threads c = replicate n T_Started @ replicate n' T_Started"
      "chan_rank cnt 11 (rm_req (cm_remote c)) = 0" "rm_mutex (cm_remote c) = None"
    using requests_drain [OF set sem b(2)] b by auto
  obtain d where d: "cmd_step E c Main = Some d" "cmd_reached cnt E d" "cm_main d = In_Loop" "cm_log d = []"
      "cm_count d = 0" "cm_threads d = cm_threads c"
    using main_asyncs [OF set sem c(2,7,8), of In_Loop] c by auto
  obtain hs s n'' where s: "exec (cmd_step E) d hs = Some s" "cmd_reached cnt E s" "cm_main s = In_Loop" "cm_log s = []"
      "cm_count s = 0" "cm_threads s = cm_threads c @ replicate n'' T_Started"
      "chan_rank cnt 11 (rm_req (cm_remote s)) = 0" "rm_mutex (cm_remote s) = None"
    using requests_drain [OF set sem d(2)] d by auto
  obtain m m' where m: "rm_threads (cm_remote s) = [m, m']" "{msg_id m, msg_id m'} = cmd_ids E"
    using all_at_work [OF set s(2) sem s(3,4,7,8)] by blast
  have "length (cm_threads s) = 2"
    using log_knowsD(1) [OF cmd_invD(6)] s(2) m(1) by (fastforce simp: cmd_reached_def dest: list_all2_lengthD)
  moreover have "cm_threads s = replicate (n + n' + n'') T_Started" using s(6) c(6) by (simp add: replicate_add)
  ultimately have "cm_threads s = [T_Started, T_Started]" by (simp add: numeral_2_eq_2)
  moreover have "exec (cmd_step E) ?s (fs @ Main # gs @ Main # hs) = Some s"
    using a(1) b(1) c(1) d(1) s(1) by (simp add: exec_then)
  ultimately show ?thesis using s(2-5) m by blast
qed

text \<open>Both handlers before their accesses to \<^verbatim>\<open>count\<close>: either overlapping, or one after the other.\<close>

definition overlapping :: "bool \<Rightarrow> cmd_event list" where
  "overlapping both =
     [Handler 0, Handler 0, Handler 1, Handler 1] @
     (if both then [Handler 0, Handler 1, Handler 0, Handler 1] else [Handler 0, Handler 0, Handler 1, Handler 1])"

lemma overlapping_run:
  assumes "cm_main s = In_Loop" and "\<not> rm_down (cm_remote s)" and "cm_count s = 0" and "cm_log s = []"
    and "cm_threads s = [T_Started, T_Started]" and "rm_threads (cm_remote s) = [m, m']"
  shows "\<exists>t. exec (cmd_step E) s (overlapping both) = Some t \<and> cm_main t = In_Loop \<and>
     cm_log t = [(msg_id m, zoom_result E 0), (msg_id m', zoom_result E (if both then 0 else 1))]"
  using assms by (cases both) (simp_all add: overlapping_def cmd_step_def handler_step_def)

lemma cmd_outcome:
  assumes set: "cmd_setting E" and sem: "semaphore (ce_sem E) cnt" and "length mem = MaxMessageSize" and "length mem' = MaxMessageSize"
  shows "\<exists>es s. exec (cmd_step E) (cmd_start E mem mem' (Suc k)) es = Some s \<and> cm_main s = Left_Loop \<and>
     snd ` set (answers s) = {zoom_result E 0, zoom_result E (if both then 0 else 1)}"
proof -
  let ?a = "zoom_result E 0" and ?b = "zoom_result E (if both then 0 else 1)"
  obtain es s m m' where s: "exec (cmd_step E) (cmd_start E mem mem' (Suc k)) es = Some s" "cmd_reached cnt E s" "cm_main s = In_Loop"
      "cm_log s = []" "cm_count s = 0" "cm_threads s = [T_Started, T_Started]"
      "rm_threads (cm_remote s) = [m, m']" "{msg_id m, msg_id m'} = cmd_ids E"
    using cmd_both_at_work [OF assms] by blast
  have "\<not> rm_down (cm_remote s)" using cmd_invD(7) s(2) by (auto simp: cmd_reached_def)
  then obtain t where t: "exec (cmd_step E) s (overlapping both) = Some t" "cm_main t = In_Loop"
      "cm_log t = [(msg_id m, ?a), (msg_id m', ?b)]"
    using overlapping_run [of s m m' E both] s by blast
  have "cmd_reached cnt E t" using cmd_reached_exec [OF set sem s(2) t(1)] t(2) by simp
  then obtain fs u l where u: "exec (cmd_step E) t fs = Some u" "cmd_reached cnt E u" "cm_main u = Left_Loop"
      "fst ` set (answers u) = cmd_ids E" "cm_log u = cm_log t @ l"
    using reached_leaves [OF set sem, of t] t(2) unfolding cmd_leaves_def by auto
  have inv: "cmd_inv cnt E u" using u(2) by (simp add: cmd_reached_def)
  have "card (cmd_ids E) = 2" using set by (simp add: cmd_ids_def cmd_setting_def)
  then have ne: "msg_id m \<noteq> msg_id m'" using s(8) by (metis card_2_iff doubleton_eq_iff insert_absorb2)
  have log: "map_of (cm_log u) (msg_id m) = Some ?a" "map_of (cm_log u) (msg_id m') = Some ?b"
    using ne by (simp_all add: u(5) t(3) map_add_def)
  have "x \<in> {?a, ?b}" if x: "x \<in> snd ` set (answers u)" for x
  proof -
    obtain i where i: "(i, x) \<in> set (answers u)" using x by force
    then have "i \<in> {msg_id m, msg_id m'}" using u(4) s(8) by force
    then show ?thesis using cmd_answers(4) [OF set inv i] log by auto
  qed
  moreover have "x \<in> snd ` set (answers u)" if x: "map_of (cm_log u) i = Some x" "i \<in> cmd_ids E" for x i
  proof -
    obtain y where y: "(i, y) \<in> set (answers u)" using x(2) u(4) by force
    then show ?thesis using cmd_answers(4) [OF set inv y] x(1) by force
  qed
  ultimately have "snd ` set (answers u) = {?a, ?b}" using log s(8) by blast
  moreover have "exec (cmd_step E) (cmd_start E mem mem' (Suc k)) (es @ overlapping both @ fs) = Some u"
    using s(1) t(1) u(1) by (simp add: exec_then)
  ultimately show ?thesis using u(3) by blast
qed

section \<open>An instance\<close>

definition cmd_demo :: "(nat, jnode) cmd_env" where
  "cmd_demo =
     \<lparr>ce_sem = nat_sem,
      ce_ipc = demo_env\<lparr>ie_factory := (case Internals no_throw_env (SetZoom (EInt 0)) new_factory of Ok F \<Rightarrow> F | _ \<Rightarrow> new_factory)\<rparr>,
      ce_hex = ref_hex_lib, ce_uuid = (\<lambda>n. if n = 0 then ''ab'' else ''cd''), ce_zero = EInt 0, ce_bat = EInt 453,
      ce_show_bat = (\<lambda>_. ''453.12'')\<rparr>"

lemma cmd_demo_ids: "cmd_id cmd_demo 0 = ''6162''" "cmd_id cmd_demo 1 = ''6364''"
  by code_simp+

lemma cmd_demo_texts:
  "list_all (\<lambda>(n, v).
     text_ok (\<lambda>s. list_all (\<lambda>c. c \<noteq> nul) s \<and> length s < 1000)
       (ipc_ser (ce_ipc cmd_demo) (ActionData (SetZoom (EInt 0)) (cmd_id cmd_demo n) (cmd_params n))) \<and>
     text_ok (\<lambda>s. list_all (\<lambda>c. c \<noteq> nul) s \<and> length s < 1000)
       (obind (serve_action (SetZoom (EInt 0)) (returns (\<lambda>_ _. zoom_result cmd_demo v))
          (ActionData (SetZoom (EInt 0)) (cmd_id cmd_demo n) (cmd_params n))) (ipc_ser (ce_ipc cmd_demo))))
   [(0, 0), (0, 1), (1, 0), (1, 1)]"
  by code_simp

lemma call_texts_by:
  assumes "text_ok P (ipc_ser (re_ipc R) (ActionData (re_action R) (fst x) (snd x)))"
    and "text_ok P (obind (serve_action (re_action R) (returns (re_handler R)) (ActionData (re_action R) (fst x) (snd x))) (ipc_ser (re_ipc R)))"
    and "\<And>s. P s \<Longrightarrow> good s"
  shows "call_texts R x good"
  unfolding call_texts_def
proof (intro allI impI, elim conjE disjE)
  fix m s
  assume "m = ActionData (re_action R) (fst x) (snd x)" "ipc_ser (re_ipc R) m = Ok s"
  then show "good s" using text_okD [OF assms(1)] assms(3) by blast
next
  fix m s
  assume "serve_action (re_action R) (returns (re_handler R)) (ActionData (re_action R) (fst x) (snd x)) = Ok m" "ipc_ser (re_ipc R) m = Ok s"
  then show "good s" using text_okD [OF assms(2), of s] assms(3) by simp
qed

lemma cmd_demo_fits:
  assumes "(n, v) \<in> {(0, 0), (0, 1), (1, 0), (1, 1)}"
  shows "fitting_call (cmd_remote cmd_demo (\<lambda>_ _. zoom_result cmd_demo v)) (cmd_id cmd_demo n, cmd_params n)"
proof -
  let ?R = "cmd_remote cmd_demo (\<lambda>_ _. zoom_result cmd_demo v)" and ?x = "(cmd_id cmd_demo n, cmd_params n)"
  have zero: "ce_zero cmd_demo = EInt 0" by (simp add: cmd_demo_def)
  have texts: "call_texts ?R ?x good" if "\<And>s. list_all (\<lambda>c. c \<noteq> nul) s \<and> length s < 1000 \<Longrightarrow> good s" for good
    using cmd_demo_texts assms that
    by (intro call_texts_by [of "\<lambda>s. list_all (\<lambda>c. c \<noteq> nul) s \<and> length s < 1000"]) (auto simp: zero)
  have "call_texts ?R ?x (\<lambda>s. nul \<notin> set s)" by (rule texts) (auto simp: list_all_iff)
  moreover have "call_texts ?R ?x (\<lambda>s. length s < MaxMessageSize)" by (rule texts) (simp add: MaxMessageSize_def)
  moreover have "good_result (SetZoom (EInt 0)) (zoom_result cmd_demo v)"
    by (auto simp: good_result_def zoom_result_def SetZoom_def struct_value_def cmd_demo_def)
  moreover have "struct_value (ac_params (SetZoom (EInt 0))) (cmd_params n)"
    by (simp add: SetZoom_def struct_value_def cmd_params_def)
  ultimately show ?thesis by (simp add: fitting_call_def good_call_def zero)
qed

lemma cmd_demo_setting: "cmd_setting cmd_demo"
proof -
  obtain F where F: "Internals no_throw_env (SetZoom (EInt 0)) new_factory = Ok F"
    by (simp add: Internals_def registerMessageType_def new_factory_def SetZoom_def)
  have "json_library (ie_json (ce_ipc cmd_demo))" "ie_throw (ce_ipc cmd_demo) = no_throw_env" "ie_factory (ce_ipc cmd_demo) = F"
      "ce_zero cmd_demo = EInt 0"
    using ref.json_library_axioms F by (simp_all add: cmd_demo_def demo_env_def)
  then have "remote_setting (cmd_remote cmd_demo (\<lambda>_ _. zoom_result cmd_demo 0))"
    using F by (auto simp: remote_setting_def SetZoom_def struct_value_def)
  moreover have "cmd_id cmd_demo 0 \<noteq> cmd_id cmd_demo 1" unfolding cmd_demo_ids by simp
  ultimately show ?thesis using cmd_demo_fits by (simp add: cmd_setting_def)
qed

lemma cmd_demo_sem: "semaphore (ce_sem cmd_demo) (\<lambda>n. n)"
  using nat_sem.semaphore_axioms by (simp add: cmd_demo_def)

section \<open>Properties\<close>

text \<open>
  C19. From every state that the program reaches before it deletes the endpoints, in any interleaving of its threads, some
  continuation lets \<^verbatim>\<open>main\<close> leave the loop, delete both endpoints and return, with both responses printed. The two
  identifiers are distinct and the messages fit into the buffer.
\<close>

theorem cmd_comes_to_end:
  assumes "cmd_setting E" and "semaphore (ce_sem E) cnt" and "length mem = MaxMessageSize" and "length mem' = MaxMessageSize"
    and "exec (cmd_step E) (cmd_start E mem mem' (Suc k)) es = Some s" and "calling (cm_main s)"
  shows "\<exists>fs t. exec (cmd_step E) s fs = Some t \<and> cm_main t = Main_Returned \<and> cm_done t = 2 \<and> length (client_out (cm_cout t)) = 2"
proof -
  have r: "cmd_reached cnt E s" by (rule cmd_reached_exec [OF assms(1,2) cmd_reached_start [OF assms(2-4)] assms(5,6)])
  obtain gs u where u: "exec (cmd_step E) s gs = Some u" "cmd_reached cnt E u" "cm_main u = Left_Loop"
  proof (cases "cm_main s = Left_Loop")
    case True
    then show ?thesis using that [of "[]" s] r by simp
  next
    case False
    then show ?thesis using reached_leaves [OF assms(1,2) r] that unfolding cmd_leaves_def by blast
  qed
  obtain fs t where t: "exec (cmd_step E) u fs = Some t" "cm_main t = Main_Returned" "cm_done t = 2"
      "length (client_out (cm_cout t)) = 2"
    using loop_to_end [OF assms(1,2) u(2,3)] by blast
  have "exec (cmd_step E) s (gs @ fs) = Some t" using exec_then [OF u(1)] t(1) by simp
  then show ?thesis using t(2-4) by (intro exI [of _ "gs @ fs"] exI [of _ t]) simp
qed

theorem cmd_comes_to_end_witness:
  "\<exists>es s. exec (cmd_step cmd_demo) (cmd_start cmd_demo zeros zeros 2) es = Some s \<and> cm_main s = Main_Returned \<and> cm_done s = 2"
proof -
  have "exec (cmd_step cmd_demo) (cmd_start cmd_demo zeros zeros (Suc 1)) [] = Some (cmd_start cmd_demo zeros zeros (Suc 1))"
    "calling (cm_main (cmd_start cmd_demo zeros zeros (Suc 1)))" by (simp_all add: cmd_start_def)
  from cmd_comes_to_end [OF cmd_demo_setting cmd_demo_sem zeros_length zeros_length this]
  show ?thesis unfolding numeral_2_eq_2 One_nat_def by blast
qed

text \<open>
  C20. What the program prints. Whatever the interleaving, the lines of the two lambdas are those of the answers, in the order in which they
  came: at most one for each of the two identifiers, each with the response or the error of the handler, \<^verbatim>\<open>done\<close>
  counts them, and once \<^verbatim>\<open>main\<close> is past the loop there is one for each, at least one of them with the response.
\<close>

theorem cmd_prints_answers:
  assumes "cmd_setting E" and "semaphore (ce_sem E) cnt" and "length mem = MaxMessageSize" and "length mem' = MaxMessageSize"
    and "exec (cmd_step E) (cmd_start E mem mem' (Suc k)) es = Some s"
  shows "client_out (cm_cout s) = map (client_line E) (answers s) \<and> cm_done s = word_of_nat (length (answers s)) \<and>
     distinct (map fst (answers s)) \<and> fst ` set (answers s) \<subseteq> {cmd_id E 0, cmd_id E 1} \<and>
     snd ` set (answers s) \<subseteq> {zoom_result E 0, zoom_result E 1} \<and>
     (cm_main s \<in> {At_First, At_Second, In_Loop} \<or>
      fst ` set (answers s) = {cmd_id E 0, cmd_id E 1} \<and> zoom_result E 0 \<in> snd ` set (answers s))"
  using cmd_exec [OF assms(1,2) cmd_reached_start [OF assms(2-4)] assms(5)]
proof
  assume r: "cmd_reached cnt E s"
  then have inv: "cmd_inv cnt E s" "first_result E s" "printed E s" "cm_main s = Left_Loop \<Longrightarrow> length (answers s) = 2"
    by (simp_all add: cmd_reached_def)
  have "fst ` set (answers s) = cmd_ids E \<and> zoom_result E 0 \<in> snd ` set (answers s)" if "cm_main s = Left_Loop"
    using both_ids [OF assms(1) inv(1) inv(4) [OF that]] left_response [OF assms(1) inv(1,2) inv(4) [OF that]] by simp
  moreover have "cm_main s \<in> {At_First, At_Second, In_Loop} \<or> cm_main s = Left_Loop"
    using inv(1) by (cases "cm_main s") (simp_all add: cmd_inv_def)
  ultimately show ?thesis
    using cmd_answers(1-3) [OF assms(1) inv(1)] inv(3) unfolding printed_def cmd_ids_def by blast
next
  assume "closing_inv E s"
  then show ?thesis by (simp add: closing_inv_def printed_def cmd_ids_def)
qed

theorem cmd_prints_answers_witness:
  "\<exists>es s. exec (cmd_step cmd_demo) (cmd_start cmd_demo zeros zeros 2) es = Some s \<and> cm_main s = Left_Loop \<and>
     fst ` set (answers s) = {''6162'', ''6364''} \<and>
     client_out (cm_cout s) = map (client_line cmd_demo) (answers s)"
proof -
  obtain es s where s: "exec (cmd_step cmd_demo) (cmd_start cmd_demo zeros zeros (Suc 1)) es = Some s" "cm_main s = Left_Loop"
    using cmd_outcome [OF cmd_demo_setting cmd_demo_sem zeros_length zeros_length] by blast
  have "fst ` set (answers s) = {''6162'', ''6364''} \<and>
      client_out (cm_cout s) = map (client_line cmd_demo) (answers s)"
    using cmd_prints_answers [OF cmd_demo_setting cmd_demo_sem zeros_length zeros_length s(1)] s(2)
    unfolding cmd_demo_ids by simp
  moreover have "exec (cmd_step cmd_demo) (cmd_start cmd_demo zeros zeros 2) es = Some s"
    using s(1) by (simp only: Suc_1)
  ultimately show ?thesis using s(2) by (intro exI [of _ es] exI [of _ s] conjI) simp_all
qed

text \<open>
  C21. Which call gets the response is a race, and so is whether one gets the error. The handler increments \<^verbatim>\<open>count\<close>, shared by its
  threads, without a lock: there is a run that prints the response once and the error once, as the code
  means it, and a run in which both handlers read zero and the program prints the response twice.
\<close>

theorem cmd_count_race:
  assumes "cmd_setting E" and "semaphore (ce_sem E) cnt" and "length mem = MaxMessageSize" and "length mem' = MaxMessageSize"
  shows "(\<exists>es s. exec (cmd_step E) (cmd_start E mem mem' (Suc k)) es = Some s \<and> cm_main s = Left_Loop \<and>
        snd ` set (answers s) = {zoom_result E 0, zoom_result E 1}) \<and>
     (\<exists>es s. exec (cmd_step E) (cmd_start E mem mem' (Suc k)) es = Some s \<and> cm_main s = Left_Loop \<and>
        snd ` set (answers s) = {zoom_result E 0})"
  using cmd_outcome [OF assms, where both = False] cmd_outcome [OF assms, where both = True] by simp

theorem cmd_count_race_witness:
  "\<exists>es s. exec (cmd_step cmd_demo) (cmd_start cmd_demo zeros zeros 2) es = Some s \<and> cm_main s = Left_Loop \<and>
     snd ` set (answers s) = {Either_v [(''baz'', EBool True), (''bat'', EInt 453)]}"
proof -
  have "zoom_result cmd_demo 0 = Either_v [(''baz'', EBool True), (''bat'', EInt 453)]" by (simp add: zoom_result_def cmd_demo_def)
  then show ?thesis
    using cmd_count_race [OF cmd_demo_setting cmd_demo_sem zeros_length zeros_length, of 1] unfolding numeral_2_eq_2 One_nat_def by simp
qed

end
