(* ===== verification/Core_Preprocessor.thy ===== *)
theory Core_Preprocessor
  imports Lesf_Prelude
begin

text \<open>
  The macros of \<^verbatim>\<open>inc/lesf/core/preprocessor.h\<close> that apply a macro to each of a list of arguments. A macro is a function
  on lists of preprocessing tokens, a token is its spelling. The header has every macro twice, the second
  time with the prefix \<^verbatim>\<open>LESF_CORE_PREPROCESSOR2\<close>, so that two loops can be nested; the family is a parameter. What
  makes the loop work is that a call that \<^verbatim>\<open>MAP\<close> leaves behind is expanded by the next scan only, and that \<^verbatim>\<open>EVAL\<close> scans
  its argument many times, which is modelled scan by scan. That \<^verbatim>\<open>_MAP ()\<close> gives a name which the next scan takes as a call
  with the arguments behind it is what compilers do; the language standard leaves it open.
\<close>

section \<open>Tokens and arguments\<close>

type_synonym tok = string

datatype pp_family = PREPROCESSOR | PREPROCESSOR2

definition pp :: "pp_family \<Rightarrow> string \<Rightarrow> tok" where
  "pp fam s = (case fam of PREPROCESSOR \<Rightarrow> ''LESF_CORE_PREPROCESSOR'' | PREPROCESSOR2 \<Rightarrow> ''LESF_CORE_PREPROCESSOR2'') @ s"

text \<open>The arguments of a call: the tokens between its parentheses, cut at the commas outside inner parentheses.\<close>

fun macro_args :: "nat \<Rightarrow> tok list \<Rightarrow> tok list list" where
  "macro_args d [] = [[]]"
| "macro_args d (t # ts) =
     (if t = '','' \<and> d = 0 then [] # macro_args 0 ts
      else (case macro_args (if t = ''('' then d + 1 else if t = '')'' then d - 1 else d) ts of
              a # as \<Rightarrow> (t # a) # as | [] \<Rightarrow> [[t]]))"

fun join_args :: "tok list list \<Rightarrow> tok list" where
  "join_args [] = []"
| "join_args [a] = a"
| "join_args (a # as) = a @ '','' # join_args as"

text \<open>The tokens up to the closing parenthesis of a call, and what follows it.\<close>

fun call_body :: "nat \<Rightarrow> tok list \<Rightarrow> (tok list \<times> tok list) option" where
  "call_body d [] = None"
| "call_body d (t # ts) =
     (if t = '')'' \<and> d = 0 then Some ([], ts)
      else map_option (\<lambda>(b, r). (t # b, r))
        (call_body (if t = ''('' then d + 1 else if t = '')'' then d - 1 else d) ts))"

lemma call_body_length: "call_body d ts = Some (b, r) \<Longrightarrow> length b < length ts \<and> length r < length ts"
  by (induction d ts arbitrary: b rule: call_body.induct) (fastforce split: if_splits)+

text \<open>\<^verbatim>\<open>a ## b\<close>: the last token of one and the first of the other become one token.\<close>

definition paste :: "tok list \<Rightarrow> tok list \<Rightarrow> tok list" where
  "paste a b = (if a = [] \<or> b = [] then a @ b else butlast a @ [last a @ hd b] @ tl b)"

section \<open>Conditions\<close>

definition pp_FIRST :: "tok list list \<Rightarrow> tok list" where
  "pp_FIRST as = (case as of a # _ \<Rightarrow> a | [] \<Rightarrow> [])"

definition pp_SECOND :: "tok list list \<Rightarrow> tok list" where
  "pp_SECOND as = (case as of _ # b # _ \<Rightarrow> b | _ \<Rightarrow> [])"

definition PROBE :: "tok list" where
  "PROBE = [''~'', '','', ''1'']"

definition IS_PROBE :: "tok list \<Rightarrow> tok list" where
  "IS_PROBE ts = pp_SECOND (macro_args 0 (ts @ ['','', ''0'']))"

text \<open>\<^verbatim>\<open>_NOT_0\<close> is the only token that becomes a probe.\<close>

definition expand_NOT_0 :: "pp_family \<Rightarrow> tok list \<Rightarrow> tok list" where
  "expand_NOT_0 fam ts = concat (map (\<lambda>t. if t = pp fam ''__NOT_0'' then PROBE else [t]) ts)"

definition pp_NOT :: "pp_family \<Rightarrow> tok list \<Rightarrow> tok list" where
  "pp_NOT fam x = IS_PROBE (expand_NOT_0 fam (paste [pp fam ''__NOT_''] x))"

definition pp_BOOL :: "pp_family \<Rightarrow> tok list \<Rightarrow> tok list" where
  "pp_BOOL fam x = pp_NOT fam (pp_NOT fam x)"

definition IF_ELSE :: "pp_family \<Rightarrow> tok list \<Rightarrow> tok list \<Rightarrow> tok list \<Rightarrow> tok list" where
  "IF_ELSE fam c t e =
     (let i = paste [pp fam ''__IF_''] (pp_BOOL fam c) in
      if i = [pp fam ''__IF_1''] then t
      else if i = [pp fam ''__IF_0''] then e
      else i @ [''(''] @ t @ ['')'', ''(''] @ e @ ['')''])"

text \<open>
  \<^verbatim>\<open>_END_OF_ARGUMENTS_\<close> is a macro without parameters: it becomes \<^verbatim>\<open>0\<close> before \<^verbatim>\<open>()\<close>. A first argument that begins with a
  parenthesis makes it a call with an argument, which the compiler refuses: \<open>None\<close>.
\<close>

definition HAS_ARGS :: "pp_family \<Rightarrow> tok list \<Rightarrow> tok list option" where
  "HAS_ARGS fam va =
     (let e = pp fam ''__END_OF_ARGUMENTS_''; ts = pp_FIRST (macro_args 0 (e # va)) @ [''('', '')'']
      in if take 3 ts = [e, ''('', '')''] then Some (pp_BOOL fam (''0'' # drop 3 ts))
         else if take 2 ts = [e, ''(''] then None
         else Some (pp_BOOL fam ts))"

section \<open>The loop\<close>

text \<open>One scan removes the calls of \<^verbatim>\<open>EMPTY\<close>, and does not look back at what a removed call leaves.\<close>

fun scan_EMPTY :: "pp_family \<Rightarrow> tok list \<Rightarrow> tok list" where
  "scan_EMPTY fam (a # b # c # ts) =
     (if a = pp fam ''_EMPTY'' \<and> b = ''('' \<and> c = '')'' then scan_EMPTY fam ts else a # scan_EMPTY fam (b # c # ts))"
| "scan_EMPTY fam ts = ts"

definition DEFER2 :: "pp_family \<Rightarrow> tok list \<Rightarrow> tok list" where
  "DEFER2 fam m = scan_EMPTY fam (m @ [pp fam ''_EMPTY'', pp fam ''_EMPTY'', ''('', '')'', ''('', '')''])"

text \<open>A macro of one argument by its name; other names are left as they are.\<close>

type_synonym macros = "string \<rightharpoonup> (tok list \<Rightarrow> tok list)"

definition call_macro :: "macros \<Rightarrow> tok list \<Rightarrow> tok list \<Rightarrow> tok list" where
  "call_macro M m x =
     (case m of [n] \<Rightarrow> (case M n of Some f \<Rightarrow> f x | None \<Rightarrow> m @ [''(''] @ x @ ['')'']) | _ \<Rightarrow> m @ [''(''] @ x @ ['')''])"

definition pp_MAP :: "pp_family \<Rightarrow> macros \<Rightarrow> tok list \<Rightarrow> tok list option" where
  "pp_MAP fam M body =
     (case macro_args 0 body of
        m # first # rest \<Rightarrow>
          map_option (\<lambda>h. call_macro M m first @
              IF_ELSE fam h
                (scan_EMPTY fam (DEFER2 fam [pp fam ''__MAP''] @ [''('', '')'', ''(''] @ m @ '','' # join_args rest @ ['')'']))
                [])
            (HAS_ARGS fam (join_args rest))
      | _ \<Rightarrow> None)"

text \<open>
  One scan of a text: calls of \<^verbatim>\<open>MAP\<close> are expanded, their arguments scanned first, and \<^verbatim>\<open>_MAP ()\<close>, which stands for \<^verbatim>\<open>MAP\<close>,
  too. What an expansion leaves is not scanned again.
\<close>

function (sequential) pp_scan :: "pp_family \<Rightarrow> macros \<Rightarrow> tok list \<Rightarrow> tok list option" where
  "pp_scan fam M [] = Some []"
| "pp_scan fam M (t # ts) =
     (if t = pp fam ''__MAP'' \<and> take 2 ts = [''('', '')''] then pp_scan fam M (pp fam ''_MAP'' # drop 2 ts)
      else if t = pp fam ''_MAP'' \<and> take 1 ts = [''('']
      then (case call_body 0 (drop 1 ts) of
              None \<Rightarrow> None
            | Some (b, r) \<Rightarrow>
                (case pp_scan fam M b of None \<Rightarrow> None
                 | Some b' \<Rightarrow>
                     (case pp_MAP fam M b' of None \<Rightarrow> None
                      | Some x \<Rightarrow> map_option (\<lambda>y. x @ y) (pp_scan fam M r))))
      else map_option (\<lambda>y. t # y) (pp_scan fam M ts))"
  by pat_completeness auto
termination
proof (relation "measure (\<lambda>(fam, M, ts). length ts)")
  fix fam :: pp_family and M :: macros and t :: tok and ts :: "tok list"
  assume "t = pp fam ''__MAP'' \<and> take 2 ts = [''('', '')'']"
  then have "2 \<le> length ts" by (metis length_take length_Cons list.size(3) min_def nat_le_linear numeral_2_eq_2)
  then show "((fam, M, pp fam ''_MAP'' # drop 2 ts), fam, M, t # ts) \<in> measure (\<lambda>(fam, M, ts). length ts)" by simp
next
  fix fam :: pp_family and M :: macros and t :: tok and ts :: "tok list" and x b r
  assume "call_body 0 (drop 1 ts) = Some x" and "(b, r) = x"
  then have "length b < length (drop 1 ts)" using call_body_length by metis
  then show "((fam, M, b), fam, M, t # ts) \<in> measure (\<lambda>(fam, M, ts). length ts)" by simp
next
  fix fam :: pp_family and M :: macros and t :: tok and ts :: "tok list" and x b r b' y
  assume "call_body 0 (drop 1 ts) = Some x" and "(b, r) = x"
  then have "length r < length (drop 1 ts)" using call_body_length by metis
  then show "((fam, M, r), fam, M, t # ts) \<in> measure (\<lambda>(fam, M, ts). length ts)" by simp
qed simp_all

declare pp_scan.simps(2) [simp del]

text \<open>
  \<^verbatim>\<open>EVAL1\<close> to \<^verbatim>\<open>EVAL512\<close>, for an argument that was scanned: the body of the macro for \<open>2 ^ k\<close> calls the one before it on a
  call of the same, whose argument is scanned before it is substituted.
\<close>

fun EVAL_body :: "pp_family \<Rightarrow> macros \<Rightarrow> nat \<Rightarrow> tok list \<Rightarrow> tok list option" where
  "EVAL_body fam M 0 ts = pp_scan fam M ts"
| "EVAL_body fam M (Suc k) ts =
     Option.bind (pp_scan fam M ts) (\<lambda>ts. Option.bind (EVAL_body fam M k ts) (EVAL_body fam M k))"

text \<open>\<^verbatim>\<open>EVAL(...)\<close> is \<^verbatim>\<open>EVAL512(__VA_ARGS__)\<close>; each of the two scans its argument.\<close>

definition pp_EVAL :: "pp_family \<Rightarrow> macros \<Rightarrow> tok list \<Rightarrow> tok list option" where
  "pp_EVAL fam M ts =
     Option.bind (pp_scan fam M ts) (\<lambda>ts. Option.bind (pp_scan fam M ts) (EVAL_body fam M 9))"

section \<open>Arguments that are taken apart again\<close>

text \<open>An argument: its parentheses match, and it has no comma outside them.\<close>

fun arg_ok :: "nat \<Rightarrow> tok list \<Rightarrow> bool" where
  "arg_ok d [] = (d = 0)"
| "arg_ok d (t # ts) =
     (if t = ''('' then arg_ok (d + 1) ts
      else if t = '')'' then 0 < d \<and> arg_ok (d - 1) ts
      else (t = '','' \<longrightarrow> 0 < d) \<and> arg_ok d ts)"

lemma macro_args_one: "arg_ok d a \<Longrightarrow> macro_args d a = [a]"
  by (induction d a rule: arg_ok.induct) (auto split: if_splits)

lemma macro_args_comma: "arg_ok d a \<Longrightarrow> macro_args d (a @ '','' # ts) = a # macro_args 0 ts"
  by (induction d a rule: arg_ok.induct) (auto split: if_splits)

lemma macro_args_join: "as \<noteq> [] \<Longrightarrow> list_all (arg_ok 0) as \<Longrightarrow> macro_args 0 (join_args as) = as"
  by (induction as rule: join_args.induct) (simp_all add: macro_args_one macro_args_comma)

lemma call_body_arg: "arg_ok d a \<Longrightarrow> call_body d (a @ ts) = map_option (\<lambda>(b, r). (a @ b, r)) (call_body 0 ts)"
  by (induction d a rule: arg_ok.induct) (auto split: if_splits simp: option.map_comp option.map_ident case_prod_unfold comp_def)

lemma call_body_join:
  "list_all (arg_ok 0) as \<Longrightarrow> call_body 0 (join_args as @ '')'' # r) = Some (join_args as, r)"
  by (induction as rule: join_args.induct) (simp_all add: call_body_arg)

lemma set_join_args: "set (join_args as) \<subseteq> insert '','' (\<Union>(set ` set as))"
  by (induction as rule: join_args.induct) auto

section \<open>Conditions\<close>

lemma pp_inject [simp]: "pp fam a = pp fam b \<longleftrightarrow> a = b"
  by (cases fam) (simp_all add: pp_def)

lemma pp_length: "length (pp fam a) \<ge> 22"
  by (cases fam) (simp_all add: pp_def)

lemma pp_not_short [simp]: "length t < 22 \<Longrightarrow> pp fam a \<noteq> t" "length t < 22 \<Longrightarrow> t \<noteq> pp fam a"
  using pp_length [of fam a] by auto

lemma pp_append: "pp fam a @ b = pp fam (a @ b)"
  by (simp add: pp_def)

lemma pp_append_inject: "pp fam a @ t = pp fam (a @ b) \<longleftrightarrow> t = b"
  by (simp add: pp_def)

lemma pp_NOT_zero: "pp_NOT fam [''0''] = [''1'']"
  by (simp add: pp_NOT_def paste_def pp_append expand_NOT_0_def PROBE_def IS_PROBE_def pp_SECOND_def)

lemma expand_NOT_0_other: "pp fam ''__NOT_0'' \<notin> set ts \<Longrightarrow> expand_NOT_0 fam ts = ts"
  by (induction ts) (auto simp: expand_NOT_0_def)

text \<open>What is not \<^verbatim>\<open>0\<close> and does not hold a comma is no probe.\<close>

lemma pp_NOT_other:
  assumes "t \<noteq> ''0''" "arg_ok 0 (t # ts)" "t \<noteq> ''(''" "pp fam ''__NOT_0'' \<notin> set ts"
  shows "pp_NOT fam (t # ts) = [''0'']"
proof -
  let ?n = "pp fam (''__NOT_'' @ t)"
  have p: "paste [pp fam ''__NOT_''] (t # ts) = ?n # ts" by (simp add: paste_def pp_append)
  have e: "expand_NOT_0 fam (?n # ts) = ?n # ts" using assms(1,4) by (simp add: expand_NOT_0_other)
  have "arg_ok 0 (?n # ts)" using assms(2,3) by (auto split: if_splits)
  then have "macro_args 0 ((?n # ts) @ '','' # [''0'']) = [?n # ts, [''0'']]"
    by (subst macro_args_comma) simp_all
  then show ?thesis unfolding pp_NOT_def IS_PROBE_def p e by (simp add: pp_SECOND_def)
qed

lemma pp_NOT_one: "pp_NOT fam [''1''] = [''0'']"
  by (rule pp_NOT_other) simp_all

lemma pp_BOOL_01: "pp_BOOL fam [''0''] = [''0'']" "pp_BOOL fam [''1''] = [''1'']"
  by (simp_all add: pp_BOOL_def pp_NOT_zero pp_NOT_one)

lemma pp_BOOL_other:
  assumes "t \<noteq> ''0''" "arg_ok 0 (t # ts)" "t \<noteq> ''(''" "pp fam ''__NOT_0'' \<notin> set ts"
  shows "pp_BOOL fam (t # ts) = [''1'']"
  using pp_NOT_other [of t ts fam] assms by (simp add: pp_BOOL_def pp_NOT_zero)

lemma IF_ELSE_01: "IF_ELSE fam [''1''] t e = t" "IF_ELSE fam [''0''] t e = e"
  by (simp_all add: IF_ELSE_def pp_BOOL_01 paste_def pp_append)

lemma HAS_ARGS_none: "HAS_ARGS fam [] = Some [''0'']"
  by (simp add: HAS_ARGS_def pp_FIRST_def pp_BOOL_01)

lemma arg_ok_deeper: "arg_ok d a \<Longrightarrow> arg_ok (d + k) (a @ b) = arg_ok k b"
  by (induction d a rule: arg_ok.induct) (auto split: if_splits)

lemmas arg_ok_append = arg_ok_deeper [where k = 0, simplified]

text \<open>
  The arguments that the loop can carry: not empty, not beginning with a parenthesis, and without the names that the loop
  itself uses.
\<close>

definition loop_names :: "pp_family \<Rightarrow> tok set" where
  "loop_names fam = {pp fam ''_MAP'', pp fam ''__MAP'', pp fam ''_EMPTY'', pp fam ''__NOT_0''}"

definition loop_arg :: "pp_family \<Rightarrow> tok list \<Rightarrow> bool" where
  "loop_arg fam a \<longleftrightarrow> arg_ok 0 a \<and> a \<noteq> [] \<and> hd a \<noteq> ''('' \<and> list_all (\<lambda>t. t \<notin> loop_names fam) a"

lemma HAS_ARGS_some:
  assumes "list_all (loop_arg fam) (y # ys)"
  shows "HAS_ARGS fam (join_args (y # ys)) = Some [''1'']"
proof -
  let ?e = "pp fam ''__END_OF_ARGUMENTS_''"
  obtain t ts where y: "y = t # ts" using assms by (cases y) (simp_all add: loop_arg_def)
  have ok: "arg_ok 0 (?e # y)" "list_all (arg_ok 0) ys" "t \<noteq> ''(''" "arg_ok 0 y"
    using assms y by (auto simp: loop_arg_def list_all_iff split: if_splits)
  have "?e # join_args (y # ys) = join_args ((?e # y) # ys)" by (cases ys) simp_all
  then have m: "macro_args 0 (?e # join_args (y # ys)) = (?e # y) # ys"
    using macro_args_join [of "(?e # y) # ys"] ok by simp
  have n: "pp fam ''__NOT_0'' \<notin> set (y @ [''('', '')''])"
    using assms by (auto simp: loop_arg_def list_all_iff loop_names_def)
  have "pp_BOOL fam (?e # y @ [''('', '')'']) = [''1'']"
    by (rule pp_BOOL_other) (use ok(4) n in \<open>simp_all add: arg_ok_append\<close>)
  then show ?thesis using ok(3) unfolding HAS_ARGS_def Let_def m by (simp add: pp_FIRST_def y)
qed

section \<open>Scans\<close>

lemma scan_EMPTY_skip: "a \<noteq> pp fam ''_EMPTY'' \<Longrightarrow> scan_EMPTY fam (a # ts) = a # scan_EMPTY fam ts"
  by (cases ts rule: remdups_adj.cases) simp_all

lemma scan_EMPTY_inert: "pp fam ''_EMPTY'' \<notin> set ts \<Longrightarrow> scan_EMPTY fam ts = ts"
  by (induction ts) (auto simp: scan_EMPTY_skip)

lemma pp_scan_skip:
  "t \<noteq> pp fam ''_MAP'' \<Longrightarrow> t \<noteq> pp fam ''__MAP'' \<Longrightarrow> pp_scan fam M (t # ts) = map_option (\<lambda>y. t # y) (pp_scan fam M ts)"
  by (simp add: pp_scan.simps(2))

lemma pp_scan_inert:
  "pp fam ''_MAP'' \<notin> set ts \<Longrightarrow> pp fam ''__MAP'' \<notin> set ts \<Longrightarrow>
    pp_scan fam M (ts @ us) = map_option (\<lambda>y. ts @ y) (pp_scan fam M us)"
  by (induction ts) (cases "pp_scan fam M us"; auto simp: pp_scan_skip)+

lemma pp_scan_id: "pp fam ''_MAP'' \<notin> set ts \<Longrightarrow> pp fam ''__MAP'' \<notin> set ts \<Longrightarrow> pp_scan fam M ts = Some ts"
  using pp_scan_inert [of fam ts M "[]"] by simp

text \<open>What is left of the loop for the arguments that were not reached: a call that only a further scan makes.\<close>

definition map_call :: "pp_family \<Rightarrow> string \<Rightarrow> tok list list \<Rightarrow> tok list" where
  "map_call fam n xs = pp fam ''_MAP'' # ''('' # n # '','' # join_args xs @ ['')'']"

definition deferred_call :: "pp_family \<Rightarrow> string \<Rightarrow> tok list list \<Rightarrow> tok list" where
  "deferred_call fam n xs =
     (if xs = [] then [] else pp fam ''__MAP'' # ''('' # '')'' # ''('' # n # '','' # join_args xs @ ['')''])"

definition loop_macro :: "pp_family \<Rightarrow> string \<Rightarrow> bool" where
  "loop_macro fam n \<longleftrightarrow> n \<notin> {''('', '')'', '',''} \<union> loop_names fam"

lemma DEFER2_step: "DEFER2 fam [pp fam ''__MAP''] = [pp fam ''__MAP'', pp fam ''_EMPTY'', ''('', '')'']"
  by (simp add: DEFER2_def)

lemma loop_args_inert:
  assumes "list_all (loop_arg fam) xs" and "loop_macro fam n"
  shows "t \<in> loop_names fam \<Longrightarrow> t \<notin> set (n # '','' # join_args xs @ ['')''])"
proof -
  assume t: "t \<in> loop_names fam"
  then have "t \<notin> {''('', '')'', '',''}" by (auto simp: loop_names_def)
  moreover have "t \<noteq> n" using assms(2) t by (auto simp: loop_macro_def)
  moreover have "t \<notin> \<Union>(set ` set xs)" using assms(1) t by (auto simp: loop_arg_def list_all_iff)
  ultimately show ?thesis using set_join_args [of xs] by auto
qed

lemma MAP_leaves_call:
  assumes "list_all (loop_arg fam) (y # ys)" and "loop_macro fam n"
  shows "scan_EMPTY fam (DEFER2 fam [pp fam ''__MAP''] @ [''('', '')'', ''(''] @ [n] @ '','' # join_args (y # ys) @ ['')''])
    = deferred_call fam n (y # ys)"
proof -
  have "pp fam ''_EMPTY'' \<notin> set (n # '','' # join_args (y # ys) @ ['')''])"
    by (rule loop_args_inert [OF assms]) (simp add: loop_names_def)
  then have "scan_EMPTY fam (''('' # '')'' # ''('' # n # '','' # join_args (y # ys) @ ['')''])
      = ''('' # '')'' # ''('' # n # '','' # join_args (y # ys) @ ['')'']"
    by (intro scan_EMPTY_inert) simp
  then show ?thesis by (simp add: DEFER2_step deferred_call_def scan_EMPTY_skip)
qed

text \<open>
  One scan of the call handles the first argument, and leaves the call for the others. The macro that is applied is one of
  the program's, and what it gives is not expanded further by the loop.
\<close>

definition loop_element :: "macros \<Rightarrow> string \<Rightarrow> tok list \<Rightarrow> tok list" where
  "loop_element M n x = (case M n of Some f \<Rightarrow> f x | None \<Rightarrow> n # ''('' # x @ ['')''])"

definition loop_ready :: "pp_family \<Rightarrow> macros \<Rightarrow> string \<Rightarrow> tok list list \<Rightarrow> bool" where
  "loop_ready fam M n xs \<longleftrightarrow> loop_macro fam n \<and> list_all (loop_arg fam) xs \<and>
     list_all (\<lambda>x. list_all (\<lambda>t. t \<notin> loop_names fam) (loop_element M n x)) xs"

lemma pp_MAP_step:
  assumes "loop_ready fam M n (x # xs)"
  shows "pp_MAP fam M (n # '','' # join_args (x # xs)) = Some (loop_element M n x @ deferred_call fam n xs)"
proof -
  have r: "loop_macro fam n" "list_all (loop_arg fam) (x # xs)" using assms by (simp_all add: loop_ready_def)
  have ok: "list_all (arg_ok 0) ([n] # x # xs)"
    using r by (auto simp: loop_macro_def loop_arg_def list_all_iff)
  have "n # '','' # join_args (x # xs) = join_args ([n] # x # xs)" by simp
  then have m: "macro_args 0 (n # '','' # join_args (x # xs)) = [n] # x # xs"
    using macro_args_join [OF _ ok] by simp
  have c: "call_macro M [n] x = loop_element M n x"
    by (simp add: call_macro_def loop_element_def split: option.splits)
  show ?thesis
  proof (cases xs)
    case Nil
    then show ?thesis unfolding pp_MAP_def m by (simp add: c HAS_ARGS_none IF_ELSE_01 deferred_call_def)
  next
    case (Cons y ys)
    then have y: "list_all (loop_arg fam) (y # ys)" using r(2) by simp
    show ?thesis unfolding pp_MAP_def m
      using MAP_leaves_call [OF y r(1)] by (simp add: c HAS_ARGS_some [OF y] IF_ELSE_01 Cons)
  qed
qed

lemma scan_map_call:
  assumes "loop_ready fam M n (x # xs)"
  shows "pp_scan fam M (map_call fam n (x # xs)) = Some (loop_element M n x @ deferred_call fam n xs)"
proof -
  have r: "loop_macro fam n" "list_all (loop_arg fam) (x # xs)" using assms by (simp_all add: loop_ready_def)
  let ?b = "n # '','' # join_args (x # xs)"
  have ok: "list_all (arg_ok 0) ([n] # x # xs)"
    using r by (auto simp: loop_macro_def loop_arg_def list_all_iff)
  have "call_body 0 (join_args ([n] # x # xs) @ '')'' # []) = Some (join_args ([n] # x # xs), [])"
    by (rule call_body_join [OF ok])
  then have cb: "call_body 0 (?b @ ['')'']) = Some (?b, [])" by simp
  have "pp_scan fam M ?b = Some ?b"
    by (rule pp_scan_id) (use loop_args_inert [OF r(2,1), of "pp fam ''_MAP''"]
        loop_args_inert [OF r(2,1), of "pp fam ''__MAP''"] in \<open>simp_all add: loop_names_def\<close>)
  then show ?thesis using cb pp_MAP_step [OF assms] unfolding map_call_def
    by (subst pp_scan.simps(2)) simp
qed

lemma scan_deferred_call:
  assumes "loop_ready fam M n (x # xs)"
  shows "pp_scan fam M (deferred_call fam n (x # xs)) = Some (loop_element M n x @ deferred_call fam n xs)"
proof -
  have d: "deferred_call fam n (x # xs) = pp fam ''__MAP'' # drop 1 (''.'' # ''('' # '')'' # drop 1 (map_call fam n (x # xs)))"
    by (simp add: deferred_call_def map_call_def)
  have "pp_scan fam M (deferred_call fam n (x # xs)) = pp_scan fam M (map_call fam n (x # xs))"
    unfolding d by (subst pp_scan.simps(2)) (simp add: map_call_def)
  then show ?thesis using scan_map_call [OF assms] by simp
qed

text \<open>The text after \<open>k\<close> scans, and the scans of \<^verbatim>\<open>EVAL\<close>.\<close>

definition after_scans :: "pp_family \<Rightarrow> macros \<Rightarrow> string \<Rightarrow> tok list list \<Rightarrow> nat \<Rightarrow> tok list" where
  "after_scans fam M n xs k = concat (map (loop_element M n) (take k xs)) @ deferred_call fam n (drop k xs)"

lemma loop_ready_drop: "loop_ready fam M n xs \<Longrightarrow> loop_ready fam M n (drop k xs)"
  by (auto simp: loop_ready_def list_all_iff dest: in_set_dropD)

lemma after_scans_step:
  assumes "loop_ready fam M n xs"
  shows "pp_scan fam M (after_scans fam M n xs k) = Some (after_scans fam M n xs (Suc k))"
proof -
  let ?h = "concat (map (loop_element M n) (take k xs))"
  have "pp fam ''_MAP'' \<notin> set ?h" "pp fam ''__MAP'' \<notin> set ?h"
    using assms by (auto simp: loop_ready_def list_all_iff loop_names_def dest!: in_set_takeD)
  then have s: "pp_scan fam M (?h @ us) = map_option (\<lambda>y. ?h @ y) (pp_scan fam M us)" for us
    by (rule pp_scan_inert)
  show ?thesis
  proof (cases "drop k xs")
    case Nil
    then show ?thesis using s [of "[]"] by (simp add: after_scans_def deferred_call_def)
  next
    case (Cons x ys)
    then have "loop_ready fam M n (x # ys)" using loop_ready_drop [OF assms, of k] by simp
    then have d: "pp_scan fam M (deferred_call fam n (x # ys)) = Some (loop_element M n x @ deferred_call fam n ys)"
      by (rule scan_deferred_call)
    have "k < length xs" "xs ! k = x" "drop (Suc k) xs = ys"
      using Cons by (metis drop_all leI list.distinct(1), metis nth_via_drop, metis drop_Suc list.sel(3) tl_drop)
    then show ?thesis using s d Cons by (simp add: after_scans_def take_Suc_conv_app_nth)
  qed
qed

lemma EVAL_body_scans:
  assumes "loop_ready fam M n xs"
  shows "EVAL_body fam M j (after_scans fam M n xs k) = Some (after_scans fam M n xs (k + (2 ^ Suc j - 1)))"
proof (induction j arbitrary: k)
  case 0
  then show ?case using after_scans_step [OF assms] by simp
next
  case (Suc j)
  have "Suc k + (2 ^ Suc j - 1) + (2 ^ Suc j - 1) = k + (2 ^ Suc (Suc j) - 1)" using one_le_power [of "2::nat" "Suc j"] by simp
  then show ?case using Suc after_scans_step [OF assms] by simp
qed

lemma EVAL_scans_map_call:
  assumes "loop_ready fam M n xs" and "xs \<noteq> []"
  shows "pp_EVAL fam M (map_call fam n xs) = Some (after_scans fam M n xs 1025)"
proof -
  obtain x ys where xs: "xs = x # ys" using assms(2) by (cases xs) simp_all
  have "pp_scan fam M (map_call fam n xs) = Some (after_scans fam M n xs 1)"
    using scan_map_call [of fam M n x ys] assms(1) xs by (simp add: after_scans_def)
  then show ?thesis
    using after_scans_step [OF assms(1), of 1] EVAL_body_scans [OF assms(1), of 9 "Suc 1"] by (simp add: pp_EVAL_def)
qed

text \<open>An empty argument ends the loop: the arguments after it are dropped, and nothing tells the user.\<close>

theorem empty_argument_stops:
  assumes "loop_macro fam n" and "arg_ok 0 x" and "list_all (arg_ok 0) more"
  shows "pp_MAP fam M (n # '','' # join_args (x # [] # more)) = Some (loop_element M n x)"
proof -
  have ok: "list_all (arg_ok 0) ([n] # x # [] # more)" using assms by (auto simp: loop_macro_def)
  have m: "macro_args 0 (n # '','' # join_args (x # [] # more)) = [n] # x # [] # more"
    using macro_args_join [OF _ ok] by simp
  have "HAS_ARGS fam (join_args ([] # more)) = Some [''0'']"
    by (cases more) (simp_all add: HAS_ARGS_none, simp add: HAS_ARGS_def pp_FIRST_def pp_BOOL_01)
  then show ?thesis unfolding pp_MAP_def m
    by (simp add: IF_ELSE_01 call_macro_def loop_element_def split: option.splits)
qed

text \<open>
  C24. \<^verbatim>\<open>EVAL(MAP(m, ...))\<close> applies \<open>m\<close> to its arguments in order, each once, and returns, whatever their number: up to 1025
  arguments nothing else is left; of a longer list the arguments after the first 1025 remain in a call that is not expanded.
  No argument is empty or begins with a parenthesis, and neither \<open>m\<close>, the arguments nor what \<open>m\<close> makes of them name a
  macro of the loop (\<open>loop_ready\<close>).
\<close>

theorem eval_map_arguments:
  assumes "loop_ready fam M n xs" and "xs \<noteq> []"
  shows "pp_EVAL fam M (map_call fam n xs)
    = Some (concat (map (loop_element M n) (take 1025 xs)) @ deferred_call fam n (drop 1025 xs))"
  using EVAL_scans_map_call [OF assms] by (simp add: after_scans_def)

theorem eval_map_arguments_witness:
  "pp_EVAL PREPROCESSOR (\<lambda>n. if n = ''F'' then Some (\<lambda>x. x @ ['';'']) else None)
      (map_call PREPROCESSOR ''F'' (replicate 1026 [''x'']))
    = Some (concat (replicate 1025 [''x'', '';'']) @ deferred_call PREPROCESSOR ''F'' [[''x'']])"
proof -
  let ?M = "\<lambda>n. if n = ''F'' then Some (\<lambda>x. x @ ['';'']) else None"
  have "loop_ready PREPROCESSOR ?M ''F'' (replicate 1026 [''x''])"
    by (simp add: loop_ready_def loop_macro_def loop_arg_def loop_element_def loop_names_def list_all_iff)
  then show ?thesis
    using eval_map_arguments [of PREPROCESSOR ?M "''F''" "replicate 1026 [''x'']"]
    by (simp add: loop_element_def map_replicate_const numeral_eq_Suc)
qed

end
