(* ===== verification/Ipc_Macros.thy ===== *)
theory Ipc_Macros
  imports Core_Preprocessor Ipc_Actions
begin

text \<open>
  The macros of \<^verbatim>\<open>inc/lesf/ipc/user_actions.h\<close> and \<^verbatim>\<open>inc/lesf/ipc/message.h\<close> that turn the lists \<^verbatim>\<open>PARAMS(_(type, name), ...)\<close> and
  \<^verbatim>\<open>RESPONSE(...)\<close> into members of a struct, into the list of members of a message, and into the calls of \<^verbatim>\<open>bind\<close>. They
  loop with the macros of \<^verbatim>\<open>Core_Preprocessor\<close>. What they expand to is compared with the classes of \<^verbatim>\<open>Ipc_Actions\<close>.
  \<open>None\<close> stands for a text that the compiler refuses.
\<close>

section \<open>The macros for one declaration\<close>

text \<open>\<^verbatim>\<open>#x\<close>. The tokens of an argument here never have a space between them.\<close>

definition stringify :: "tok list \<Rightarrow> tok" where
  "stringify ts = [CHR 0x22] @ concat ts @ [CHR 0x22]"

text \<open>\<^verbatim>\<open>X_IMPL_ ## _(type, name)\<close> calls \<^verbatim>\<open>X_IMPL__\<close> with two arguments.\<close>

definition impl_call :: "tok \<Rightarrow> (tok list \<Rightarrow> tok list \<Rightarrow> tok list) \<Rightarrow> tok list \<Rightarrow> tok list" where
  "impl_call impl f d =
     (let ts = paste [impl] d in
      if take 2 ts = [impl @ ''_'', ''('']
      then (case call_body 0 (drop 2 ts) of
              Some (b, r) \<Rightarrow> (case macro_args 0 b of [ty, n] \<Rightarrow> f ty n @ r | _ \<Rightarrow> ts)
            | None \<Rightarrow> ts)
      else ts)"

definition DECLARE_IMPL :: "tok list \<Rightarrow> tok list \<Rightarrow> tok list" where
  "DECLARE_IMPL ty n = ty @ n @ ['';'']"

definition DECLARE_IMPL_EACH :: "tok list \<Rightarrow> tok list" where
  "DECLARE_IMPL_EACH = impl_call ''DECLARE_IMPL_'' DECLARE_IMPL"

definition REFLIST_IMPL :: "tok list \<Rightarrow> tok list \<Rightarrow> tok list" where
  "REFLIST_IMPL ty n = ['','', ''data'', ''.''] @ n"

definition REFLIST_IMPL_EACH :: "tok list \<Rightarrow> tok list" where
  "REFLIST_IMPL_EACH = impl_call ''REFLIST_IMPL_'' REFLIST_IMPL"

definition bind_call :: "tok \<Rightarrow> tok list \<Rightarrow> tok list" where
  "bind_call k e = [''tpl'', ''.'', ''bind'', ''('', k, '',''] @ e @ ['')'', '';'']"

definition BINDINGS_IMPL :: "tok list \<Rightarrow> tok list \<Rightarrow> tok list" where
  "BINDINGS_IMPL ty n = bind_call (stringify n) ([''data'', ''.''] @ n)"

definition BINDINGS_IMPL_EACH :: "tok list \<Rightarrow> tok list" where
  "BINDINGS_IMPL_EACH = impl_call ''BINDINGS_IMPL_'' BINDINGS_IMPL"

definition LESF_IPC_MEMBERS_IMPL_EACH :: "tok list \<Rightarrow> tok list" where
  "LESF_IPC_MEMBERS_IMPL_EACH arg = bind_call (stringify arg) arg"

definition each_macros :: macros where
  "each_macros = map_of
     [(''DECLARE_IMPL_EACH'', DECLARE_IMPL_EACH), (''REFLIST_IMPL_EACH'', REFLIST_IMPL_EACH),
      (''BINDINGS_IMPL_EACH'', BINDINGS_IMPL_EACH), (''LESF_IPC_MEMBERS_IMPL_EACH'', LESF_IPC_MEMBERS_IMPL_EACH)]"

section \<open>The loops\<close>

text \<open>\<^verbatim>\<open>__VA_OPT__(EVAL(MAP(each, __VA_ARGS__)))\<close>.\<close>

definition eval_map :: "pp_family \<Rightarrow> string \<Rightarrow> tok list \<Rightarrow> tok list option" where
  "eval_map fam each va =
     (if va = [] then Some []
      else pp_EVAL fam each_macros ([pp fam ''_MAP'', ''('', each, '',''] @ va @ ['')'']))"

definition DECLARE_FOREACH :: "tok list \<Rightarrow> tok list option" where
  "DECLARE_FOREACH = eval_map PREPROCESSOR ''DECLARE_IMPL_EACH''"

definition REFLIST_FOREACH :: "tok list \<Rightarrow> tok list option" where
  "REFLIST_FOREACH = eval_map PREPROCESSOR2 ''REFLIST_IMPL_EACH''"

definition BINDINGS_FOREACH :: "tok list \<Rightarrow> tok list option" where
  "BINDINGS_FOREACH = eval_map PREPROCESSOR2 ''BINDINGS_IMPL_EACH''"

text \<open>\<^verbatim>\<open>X_ ## PARAMS(...)\<close> and \<^verbatim>\<open>X_ ## RESPONSE(...)\<close> both call the loop.\<close>

definition kind_call :: "tok \<Rightarrow> (tok list \<Rightarrow> tok list option) \<Rightarrow> tok list \<Rightarrow> tok list option" where
  "kind_call p f x =
     (let ts = paste [p] x in
      if take 2 ts \<in> {[p @ ''PARAMS'', ''(''], [p @ ''RESPONSE'', ''('']}
      then (case call_body 0 (drop 2 ts) of Some (b, []) \<Rightarrow> f b | _ \<Rightarrow> None)
      else None)"

definition DECLARE :: "tok list \<Rightarrow> tok list option" where
  "DECLARE = kind_call ''DECLARE_'' DECLARE_FOREACH"

definition REFLIST :: "tok list \<Rightarrow> tok list option" where
  "REFLIST = kind_call ''REFLIST_'' REFLIST_FOREACH"

definition BINDINGS :: "tok list \<Rightarrow> tok list option" where
  "BINDINGS = kind_call ''BINDINGS_'' BINDINGS_FOREACH"

definition LESF_IPC_MEMBERS :: "tok list \<Rightarrow> tok list option" where
  "LESF_IPC_MEMBERS va =
     map_option (\<lambda>b. [''protected'', '':'', ''lconf'', ''::'', ''json'', ''::'', ''Template'', ''M_jsonTemplate'', ''('', '')'',
         ''{'', ''lconf'', ''::'', ''json'', ''::'', ''Template'', ''tpl'', '';''] @ b @ [''return'', ''tpl'', '';'', ''}''])
       (eval_map PREPROCESSOR ''LESF_IPC_MEMBERS_IMPL_EACH'' va)"

text \<open>The uses in \<^verbatim>\<open>ACTION\<close>: in the class of the call, and in the class of its response.\<close>

definition ActionData_members :: "tok list \<Rightarrow> tok list option" where
  "ActionData_members params = Option.bind (REFLIST params) (\<lambda>r. LESF_IPC_MEMBERS (''id'' # r))"

definition ResponseData_members :: "tok list \<Rightarrow> tok list option" where
  "ResponseData_members response =
     Option.bind (REFLIST response)
       (\<lambda>r. LESF_IPC_MEMBERS ([''id'', '','', ''error'', ''.'', ''set'', '','', ''error'', ''.'', ''message'', '','', ''error'', ''.'', ''code''] @ r))"

section \<open>What a user writes\<close>

type_synonym field = "tok list \<times> tok"

definition decl_arg :: "field \<Rightarrow> tok list" where
  "decl_arg f = (case f of (ty, n) \<Rightarrow> [''_'', ''(''] @ ty @ ['','', n, '')''])"

definition params_text :: "field list \<Rightarrow> tok list" where
  "params_text fs = [''PARAMS'', ''(''] @ join_args (map decl_arg fs) @ ['')'']"

definition response_text :: "field list \<Rightarrow> tok list" where
  "response_text fs = [''RESPONSE'', ''(''] @ join_args (map decl_arg fs) @ ['')'']"

definition name_ok :: "tok \<Rightarrow> bool" where
  "name_ok n \<longleftrightarrow> n \<notin> {''('', '')'', '',''} \<union> loop_names PREPROCESSOR \<union> loop_names PREPROCESSOR2"

definition field_ok :: "field \<Rightarrow> bool" where
  "field_ok f \<longleftrightarrow> arg_ok 0 (fst f) \<and> name_ok (snd f) \<and>
     list_all (\<lambda>t. t \<notin> loop_names PREPROCESSOR \<union> loop_names PREPROCESSOR2) (fst f)"

lemma not_loop_name [simp]: "length t < 22 \<Longrightarrow> t \<notin> loop_names fam" "stringify ts \<notin> loop_names fam"
  by (auto simp: loop_names_def) (cases fam; simp add: stringify_def pp_def)+

lemma arg_ok_decl: "arg_ok 0 ty \<Longrightarrow> name_ok n \<Longrightarrow> arg_ok 0 (decl_arg (ty, n))"
  using arg_ok_deeper [of 0 ty 1 "['','', n, '')'']"] by (simp add: decl_arg_def name_ok_def)

lemma loop_arg_decl: "field_ok f \<Longrightarrow> loop_arg fam (decl_arg f)"
  using arg_ok_decl [of "fst f" "snd f"]
  by (cases f; cases fam) (auto simp: field_ok_def loop_arg_def decl_arg_def name_ok_def list_all_iff)

text \<open>Each of the macros takes the declaration apart.\<close>

lemma impl_call_decl:
  assumes "field_ok (ty, n)"
  shows "impl_call impl f (decl_arg (ty, n)) = f ty [n]"
proof -
  have ok: "list_all (arg_ok 0) [ty, [n]]" using assms by (simp add: field_ok_def name_ok_def)
  have p: "paste [impl] (decl_arg (ty, n)) = (impl @ ''_'') # ''('' # join_args [ty, [n]] @ '')'' # []"
    by (simp add: paste_def decl_arg_def)
  show ?thesis using call_body_join [OF ok, of "[]"] macro_args_join [OF _ ok]
    unfolding impl_call_def p by simp
qed

lemma kind_call_text:
  assumes "list_all field_ok fs"
  shows "kind_call p f (params_text fs) = f (join_args (map decl_arg fs))"
    and "kind_call p f (response_text fs) = f (join_args (map decl_arg fs))"
proof -
  have "list_all (arg_ok 0) (map decl_arg fs)"
    using assms arg_ok_decl by (auto simp: list_all_iff field_ok_def)
  then have "call_body 0 (join_args (map decl_arg fs) @ '')'' # []) = Some (join_args (map decl_arg fs), [])"
    by (rule call_body_join)
  then show "kind_call p f (params_text fs) = f (join_args (map decl_arg fs))"
    and "kind_call p f (response_text fs) = f (join_args (map decl_arg fs))"
    by (simp_all add: kind_call_def params_text_def response_text_def paste_def)
qed

section \<open>What the macros expand to\<close>

lemma each_macros_simps [simp]:
  "each_macros ''DECLARE_IMPL_EACH'' = Some DECLARE_IMPL_EACH" "each_macros ''REFLIST_IMPL_EACH'' = Some REFLIST_IMPL_EACH"
  "each_macros ''BINDINGS_IMPL_EACH'' = Some BINDINGS_IMPL_EACH"
  "each_macros ''LESF_IPC_MEMBERS_IMPL_EACH'' = Some LESF_IPC_MEMBERS_IMPL_EACH"
  by (simp_all add: each_macros_def)

lemma join_args_empty: "list_all (loop_arg fam) xs \<Longrightarrow> join_args xs = [] \<longleftrightarrow> xs = []"
  by (cases xs rule: join_args.cases) (simp_all add: loop_arg_def)

lemma loop_macro_each [simp]: "length m < 22 \<Longrightarrow> m \<notin> {''('', '')'', '',''} \<Longrightarrow> loop_macro fam m"
  "loop_macro fam ''LESF_IPC_MEMBERS_IMPL_EACH''"
  by (simp_all add: loop_macro_def) (cases fam; simp add: loop_names_def pp_def)

lemma eval_map_all:
  assumes "loop_ready fam each_macros m xs" and "length xs \<le> 1025"
  shows "eval_map fam m (join_args xs) = Some (concat (map (loop_element each_macros m) xs))"
proof (cases "xs = []")
  case False
  have "join_args xs \<noteq> []" using assms(1) False join_args_empty by (auto simp: loop_ready_def)
  then have "eval_map fam m (join_args xs) = pp_EVAL fam each_macros (map_call fam m xs)"
    by (simp add: eval_map_def map_call_def)
  then show ?thesis using EVAL_scans_map_call [OF assms(1) False] assms(2)
    by (simp add: after_scans_def deferred_call_def)
qed (simp add: eval_map_def)

text \<open>A loop over declarations, whose macro gives only names of the program.\<close>

lemma eval_map_decls:
  assumes "list_all field_ok fs" and "length fs \<le> 1025" and "loop_macro fam m"
    and "each_macros m = Some (impl_call impl f)"
    and "\<And>ty n. (ty, n) \<in> set fs \<Longrightarrow> list_all (\<lambda>t. t \<notin> loop_names fam) (f ty [n])"
  shows "eval_map fam m (join_args (map decl_arg fs)) = Some (concat (map (\<lambda>(ty, n). f ty [n]) fs))"
proof -
  have e: "loop_element each_macros m (decl_arg (ty, n)) = f ty [n]" if "(ty, n) \<in> set fs" for ty n
    using that assms(1,4) impl_call_decl by (auto simp: loop_element_def list_all_iff)
  then have "loop_ready fam each_macros m (map decl_arg fs)"
    using assms(1,3,5) loop_arg_decl by (auto simp: loop_ready_def list_all_iff)
  then have "eval_map fam m (join_args (map decl_arg fs)) = Some (concat (map (loop_element each_macros m) (map decl_arg fs)))"
    by (rule eval_map_all) (simp add: assms(2))
  also have "map (loop_element each_macros m) (map decl_arg fs) = map (\<lambda>(ty, n). f ty [n]) fs"
    using e by auto
  finally show ?thesis .
qed

lemma name_ok_loop: "name_ok n \<Longrightarrow> n \<notin> loop_names fam"
  by (cases fam) (simp_all add: name_ok_def)

lemma field_ok_in: "list_all field_ok fs \<Longrightarrow> (ty, n) \<in> set fs \<Longrightarrow> name_ok n \<and> list_all (\<lambda>t. t \<notin> loop_names fam) ty"
  by (cases fam) (auto simp: list_all_iff field_ok_def)

lemma DECLARE_FOREACH_fields:
  assumes "list_all field_ok fs" and "length fs \<le> 1025"
  shows "DECLARE_FOREACH (join_args (map decl_arg fs)) = Some (concat (map (\<lambda>(ty, n). ty @ [n, '';'']) fs))"
  unfolding DECLARE_FOREACH_def
  using eval_map_decls [of fs PREPROCESSOR "''DECLARE_IMPL_EACH''" "''DECLARE_IMPL_''" DECLARE_IMPL] assms
    field_ok_in [of fs _ _ PREPROCESSOR] name_ok_loop
  by (simp add: DECLARE_IMPL_EACH_def DECLARE_IMPL_def)

lemma REFLIST_FOREACH_fields:
  assumes "list_all field_ok fs" and "length fs \<le> 1025"
  shows "REFLIST_FOREACH (join_args (map decl_arg fs)) = Some (concat (map (\<lambda>(ty, n). ['','', ''data'', ''.'', n]) fs))"
  unfolding REFLIST_FOREACH_def
  using eval_map_decls [of fs PREPROCESSOR2 "''REFLIST_IMPL_EACH''" "''REFLIST_IMPL_''" REFLIST_IMPL] assms
    field_ok_in [of fs _ _ PREPROCESSOR2] name_ok_loop
  by (simp add: REFLIST_IMPL_EACH_def REFLIST_IMPL_def)

lemma BINDINGS_FOREACH_fields:
  assumes "list_all field_ok fs" and "length fs \<le> 1025"
  shows "BINDINGS_FOREACH (join_args (map decl_arg fs))
    = Some (concat (map (\<lambda>(ty, n). bind_call (stringify [n]) [''data'', ''.'', n]) fs))"
  unfolding BINDINGS_FOREACH_def
  using eval_map_decls [of fs PREPROCESSOR2 "''BINDINGS_IMPL_EACH''" "''BINDINGS_IMPL_''" BINDINGS_IMPL] assms
    field_ok_in [of fs _ _ PREPROCESSOR2] name_ok_loop
  by (simp add: BINDINGS_IMPL_EACH_def BINDINGS_IMPL_def bind_call_def)

lemma join_args_first: "join_args ((t # a) # as) = t # join_args (a # as)"
  by (cases as) simp_all

text \<open>The list of references extends the list of the members that precede it.\<close>

lemma join_args_reflist:
  "as \<noteq> [] \<Longrightarrow> join_args as @ concat (map (\<lambda>(ty, n). ['','', ''data'', ''.'', n]) fs)
     = join_args (as @ map (\<lambda>(ty, n). [''data'', ''.'', n]) fs)"
proof (induction as rule: join_args.induct)
  case (2 a)
  show ?case by (induction fs arbitrary: a) (auto simp: join_args_first)
qed (auto simp: neq_Nil_conv)

text \<open>\<^verbatim>\<open>M_jsonTemplate\<close> of a class with the members \<open>ms\<close>.\<close>

definition template_text :: "tok list list \<Rightarrow> tok list" where
  "template_text ms =
     [''protected'', '':'', ''lconf'', ''::'', ''json'', ''::'', ''Template'', ''M_jsonTemplate'', ''('', '')'',
      ''{'', ''lconf'', ''::'', ''json'', ''::'', ''Template'', ''tpl'', '';'']
     @ concat (map (\<lambda>m. bind_call (stringify m) m) ms) @ [''return'', ''tpl'', '';'', ''}'']"

lemma LESF_IPC_MEMBERS_text:
  assumes "list_all (loop_arg PREPROCESSOR) ms" and "length ms \<le> 1025"
  shows "LESF_IPC_MEMBERS (join_args ms) = Some (template_text ms)"
proof -
  have e: "loop_element each_macros ''LESF_IPC_MEMBERS_IMPL_EACH'' m = bind_call (stringify m) m" for m
    by (simp add: loop_element_def LESF_IPC_MEMBERS_IMPL_EACH_def)
  then have "loop_ready PREPROCESSOR each_macros ''LESF_IPC_MEMBERS_IMPL_EACH'' ms"
    using assms(1) by (auto simp: loop_ready_def list_all_iff bind_call_def loop_arg_def)
  then have "eval_map PREPROCESSOR ''LESF_IPC_MEMBERS_IMPL_EACH'' (join_args ms)
      = Some (concat (map (\<lambda>m. bind_call (stringify m) m) ms))"
    using eval_map_all [of PREPROCESSOR "''LESF_IPC_MEMBERS_IMPL_EACH''" ms] assms(2) by (simp add: e [abs_def])
  then show ?thesis by (simp add: LESF_IPC_MEMBERS_def template_text_def)
qed

lemma loop_arg_data: "list_all field_ok fs \<Longrightarrow> list_all (loop_arg fam) (map (\<lambda>(ty, n). [''data'', ''.'', n]) fs)"
proof (induction fs)
  case (Cons f fs)
  obtain ty n where f: "f = (ty, n)" by fastforce
  have "name_ok n" using Cons.prems f by (simp add: field_ok_def)
  then have "loop_arg fam [''data'', ''.'', n]" using name_ok_loop [of n fam]
    by (auto simp: loop_arg_def name_ok_def)
  then show ?case using Cons f by simp
qed simp

lemma ActionData_members_text:
  assumes "list_all field_ok fs" and "length fs \<le> 1024"
  shows "ActionData_members (params_text fs) = Some (template_text ([''id''] # map (\<lambda>(ty, n). [''data'', ''.'', n]) fs))"
proof -
  let ?ms = "[[''id'']] @ map (\<lambda>(ty, n). [''data'', ''.'', n]) fs"
  have "list_all (loop_arg PREPROCESSOR) ?ms" using loop_arg_data [OF assms(1)] by (simp add: loop_arg_def)
  then have "LESF_IPC_MEMBERS (join_args ?ms) = Some (template_text ?ms)"
    by (rule LESF_IPC_MEMBERS_text) (simp add: assms(2))
  then show ?thesis using REFLIST_FOREACH_fields [OF assms(1)] assms(2) join_args_reflist [of "[[''id'']]" fs]
    by (simp add: ActionData_members_def REFLIST_def kind_call_text(1) [OF assms(1)])
qed

lemma ResponseData_members_text:
  assumes "list_all field_ok fs" and "length fs \<le> 1021"
  shows "ResponseData_members (response_text fs)
    = Some (template_text ([[''id''], [''error'', ''.'', ''set''], [''error'', ''.'', ''message''], [''error'', ''.'', ''code'']]
        @ map (\<lambda>(ty, n). [''data'', ''.'', n]) fs))"
proof -
  let ?h = "[[''id''], [''error'', ''.'', ''set''], [''error'', ''.'', ''message''], [''error'', ''.'', ''code'']]"
  let ?ms = "?h @ map (\<lambda>(ty, n). [''data'', ''.'', n]) fs"
  have "list_all (loop_arg PREPROCESSOR) ?ms" using loop_arg_data [OF assms(1)] by (simp add: loop_arg_def)
  then have "LESF_IPC_MEMBERS (join_args ?ms) = Some (template_text ?ms)"
    by (rule LESF_IPC_MEMBERS_text) (use assms(2) in simp)
  then show ?thesis using REFLIST_FOREACH_fields [OF assms(1)] assms(2) join_args_reflist [of ?h fs]
    by (simp add: ResponseData_members_def REFLIST_def kind_call_text(2) [OF assms(1)])
qed

text \<open>
  C23. What the macros make of the declarations of an action agrees with the classes of the model: the struct declares the
  parameters with their types in the order written, \<^verbatim>\<open>M_jsonTemplate\<close> of the class of the call and of its response binds
  exactly the members of \<open>action_data_class\<close> and \<open>response_data_class\<close>, in their order, each under its text, and \<^verbatim>\<open>BINDINGS\<close>
  binds the parameters under their plain names. A call may have up to 1024 parameters, a response 1021.
\<close>

theorem action_macros_members:
  assumes "list_all field_ok ps" and "list_all field_ok rs" and "length ps \<le> 1024" and "length rs \<le> 1021"
    and "map fst (ac_params A) = map snd ps" and "map fst (ac_response A) = map snd rs"
  shows "DECLARE (params_text ps) = Some (concat (map (\<lambda>(ty, n). ty @ [n, '';'']) ps))
    \<and> (\<exists>ms. ActionData_members (params_text ps) = Some (template_text ms)
        \<and> map concat ms = map fst (ic_members (action_data_class A)))
    \<and> (\<exists>ms. ResponseData_members (response_text rs) = Some (template_text ms)
        \<and> map concat ms = map fst (ic_members (response_data_class A)))
    \<and> BINDINGS (params_text ps)
        = Some (concat (map (\<lambda>k. bind_call (stringify [k]) [''data'', ''.'', k]) (map fst (ac_params A))))"
proof -
  have keys: "map concat (map (\<lambda>(ty, n). [''data'', ''.'', n]) fs) = map fst (reflist t)"
    if "map fst t = map snd fs" for t :: tpl and fs :: "field list"
  proof -
    have "map concat (map (\<lambda>(ty, n). [''data'', ''.'', n]) fs) = map (\<lambda>n. ''data.'' @ n) (map snd fs)"
      by (auto simp: case_prod_unfold)
    then show ?thesis by (auto simp: that [symmetric] reflist_def case_prod_unfold)
  qed
  have b: "map (\<lambda>(ty, n). bind_call (stringify [n]) [''data'', ''.'', n]) ps
      = map (\<lambda>k. bind_call (stringify [k]) [''data'', ''.'', k]) (map fst (ac_params A))"
    by (simp add: assms(5) case_prod_unfold comp_def)
  show ?thesis
  proof (intro conjI exI)
    show "DECLARE (params_text ps) = Some (concat (map (\<lambda>(ty, n). ty @ [n, '';'']) ps))"
      using DECLARE_FOREACH_fields [OF assms(1)] assms(3) by (simp add: DECLARE_def kind_call_text(1) [OF assms(1)])
    show "BINDINGS (params_text ps)
        = Some (concat (map (\<lambda>k. bind_call (stringify [k]) [''data'', ''.'', k]) (map fst (ac_params A))))"
      using BINDINGS_FOREACH_fields [OF assms(1)] assms(3) b by (simp add: BINDINGS_def kind_call_text(1) [OF assms(1)])
    show "ActionData_members (params_text ps) = Some (template_text ([''id''] # map (\<lambda>(ty, n). [''data'', ''.'', n]) ps))"
      by (rule ActionData_members_text [OF assms(1,3)])
    show "ResponseData_members (response_text rs)
      = Some (template_text ([[''id''], [''error'', ''.'', ''set''], [''error'', ''.'', ''message''], [''error'', ''.'', ''code'']]
          @ map (\<lambda>(ty, n). [''data'', ''.'', n]) rs))"
      by (rule ResponseData_members_text [OF assms(2,4)])
  qed (use keys [OF assms(5)] keys [OF assms(6)] in
      \<open>simp_all add: action_data_class_def response_data_class_def response_members_def\<close>)
qed

definition example_action :: action where
  "example_action =
     \<lparr>ac_name = ''camera::SetZoom'', ac_file = ''ipc_actions.def'', ac_line = 1, ac_action_type = ''A'', ac_response_type = ''R'',
      ac_params = [(''foo'', EInt 0), (''bar'', EStr [])], ac_response = [(''baz'', EBool False)]\<rparr>"

theorem action_macros_members_witness:
  "DECLARE (params_text [([''int''], ''foo''), ([''std'', ''::'', ''string''], ''bar'')])
      = Some [''int'', ''foo'', '';'', ''std'', ''::'', ''string'', ''bar'', '';'']
    \<and> (\<exists>ms. ActionData_members (params_text [([''int''], ''foo''), ([''std'', ''::'', ''string''], ''bar'')]) = Some (template_text ms)
        \<and> map concat ms = [''id'', ''data.foo'', ''data.bar''])
    \<and> (\<exists>ms. ResponseData_members (response_text [([''bool''], ''baz'')]) = Some (template_text ms)
        \<and> map concat ms = [''id'', ''error.set'', ''error.message'', ''error.code'', ''data.baz''])"
proof -
  have f: "field_ok (ty, n)" if "ty \<in> {[''int''], [''bool''], [''std'', ''::'', ''string'']}" "n \<in> {''foo'', ''bar'', ''baz''}" for ty n
    using that by (auto simp: field_ok_def name_ok_def)
  have ps: "list_all field_ok [([''int''], ''foo''), ([''std'', ''::'', ''string''], ''bar'')]" "list_all field_ok [([''bool''], ''baz'')]"
    using f by simp_all
  show ?thesis
    using action_macros_members [OF ps, of example_action]
    by (simp add: example_action_def action_data_class_def response_data_class_def response_members_def)
qed

end
