(* ===== verification/Spec2Isabelle.thy ===== *)
theory Spec2Isabelle
  imports Log_Client Log_Server Log_Formatter Log_Service Log_Threads Log_App Daemon Ipc_Endpoint Ipc_Cmd_Runs Ipc_Macros
begin

text \<open>
  A verification development for libesf, a C++ library with three services for embedded Linux programs:
  logging to a server over TCP (\<^verbatim>\<open>lesf::log\<close>), typed messages and remote actions over shared memory
  (\<^verbatim>\<open>lesf::ipc\<close>) and running as a daemon (\<^verbatim>\<open>lesf::daemon\<close>), on a small base of exceptions and macros
  (\<^verbatim>\<open>lesf::core\<close>). Paths below are relative to the library's root; headers are under \<^verbatim>\<open>inc/lesf\<close>.

  \<^bold>\<open>How the parts interact.\<close> A program calls \<^verbatim>\<open>Logger::init\<close> and then uses the \<^verbatim>\<open>LESF_LOG\<close> macros. The logger
  builds a \<^verbatim>\<open>log::Message\<close>, serialises it to JSON and gives the text to its \<^verbatim>\<open>log::Client\<close>, or writes it to a
  fallback file. The client frames the text with a decimal header and writes it to a socket; a \<^verbatim>\<open>log::Session\<close> of a
  \<^verbatim>\<open>log::Server\<close> takes the frames apart, synthesises the messages and notifies the subscribers, for instance
  one that prints them with a formatter. An \<^verbatim>\<open>ipc::Endpoint\<close> sends messages, serialised by the
  \<^verbatim>\<open>MessageFactory\<close>, through a one place buffer guarded by three semaphores; the receive thread of the peer
  constructs them and calls the slots of their type. Actions are pairs of messages over an endpoint with
  identifiers that match responses to callers. \<^verbatim>\<open>daemonize\<close> turns a program into a daemon that owns a lock file.

  \<^bold>\<open>Theories.\<close> Each models the files it names, with the functions of the code under their own names.
  \<^item> \<^verbatim>\<open>Lesf_Prelude\<close>: results of fallible code (a value, an exception, undefined behaviour of a kind,
    \<^verbatim>\<open>std::terminate\<close>), runs of machines driven by events with the invariant rule as the locale \<^verbatim>\<open>event_machine\<close>,
    decimal numbers and C strings.
  \<^item> \<^verbatim>\<open>Core_Exception\<close> (\<^verbatim>\<open>core/exception\<close>, \<^verbatim>\<open>ipc/exception.h\<close>): the exception classes and \<^verbatim>\<open>LESF_CORE_THROW\<close>.
  \<^item> \<^verbatim>\<open>Json_Interface\<close>, \<^verbatim>\<open>Hex_Interface\<close>: the JSON library (a submodule without files here) and Boost's hexadecimal
    codec as parameters with laws; \<^verbatim>\<open>Json_Reference\<close> and the end of \<^verbatim>\<open>Hex_Interface\<close> show that the laws can hold.
  \<^item> \<^verbatim>\<open>Log_Message\<close> (\<^verbatim>\<open>log/message\<close>): the record, the templates, \<open>serialize\<close> and \<open>synthetize\<close>, and their round trip.
  \<^item> \<^verbatim>\<open>Log_Framing\<close> (\<^verbatim>\<open>log/session\<close>, \<^verbatim>\<open>Client::send\<close>): \<open>frame\<close> writes and \<open>feed\<close> reads the wire, through the locale
    \<open>framing\<close>: independent of how TCP cuts the bytes, and exact on whole frames.
  \<^item> \<^verbatim>\<open>Log_Client\<close> (\<^verbatim>\<open>log/client\<close>): the queue and the completion handlers as a machine (\<open>client_step\<close>); \<open>client_inv\<close>
    holds in calm runs (\<open>calm\<close>) and gives order and delivery: no connection is lost during a write, names resolve, sockets
    take their option, messages are shorter than 10^8 bytes and the client is not destroyed. A longer message overruns the
    buffer of the header inside the call of \<^verbatim>\<open>send\<close>, which is undefined behaviour of that call and of \<^verbatim>\<open>log\<close>.
  \<^item> \<^verbatim>\<open>Log_Server\<close> (\<^verbatim>\<open>log/server\<close>): construction, accept loop, sessions and subscribers (\<open>server_step\<close>, \<open>server_inv\<close>).
  \<^item> \<^verbatim>\<open>Log_Formatter\<close> (\<^verbatim>\<open>log/formatter\<close>): \<open>raw\<close> and \<open>plain_light\<close>, with the trace loop against its specification.
  \<^item> \<^verbatim>\<open>Log_Service\<close> (\<^verbatim>\<open>examples/logserver\<close>): the log server program, a server with a subscriber that prints; its console is
    the formatted log of its subscriber (\<open>service_inv\<close>).
  \<^item> \<^verbatim>\<open>Log_Logger\<close> (\<^verbatim>\<open>log/logger\<close>, \<^verbatim>\<open>log/config.h\<close>): the macros, both overloads of \<^verbatim>\<open>log\<close> (\<open>Logger_log\<close>, recursive through
    \<open>M_maybeInstanciate\<close>), construction and destruction; \<open>logged\<close> is the abstract logger that its runs refine.
  \<^item> \<^verbatim>\<open>Log_Threads\<close>: threads that log at once, step by step around the mutex (\<open>threads_step\<close>); a simulation by the machine of
    \<^verbatim>\<open>Log_Logger\<close> (\<open>threads_inv\<close>).
  \<^item> \<^verbatim>\<open>Log_App\<close> (\<^verbatim>\<open>examples/logapp\<close>): a program that logs a message and an exception it threw.
  \<^item> \<^verbatim>\<open>Ipc_Factory\<close> (\<^verbatim>\<open>ipc/message.h\<close>, \<^verbatim>\<open>ipc/message_factory\<close>): the registry and the message codec.
  \<^item> \<^verbatim>\<open>Ipc_Channel\<close>, \<^verbatim>\<open>Ipc_Endpoint\<close> (\<^verbatim>\<open>ipc/endpoint\<close>): one direction as interleaved steps of senders, receive thread
    and destructor (\<open>channel_step\<close>), over semaphores given by a locale; construction and removal of an
    endpoint over named shared memory given by another.
  \<^item> \<^verbatim>\<open>Ipc_Actions\<close> (\<^verbatim>\<open>ipc/action_server\<close>, \<^verbatim>\<open>ipc/user_actions.h\<close>): what the \<^verbatim>\<open>ACTION\<close> macro generates, and calls there and back.
  \<^item> \<^verbatim>\<open>Ipc_Remote\<close>, \<^verbatim>\<open>Ipc_Progress\<close>: both channels with callers, server threads and response handlers (\<open>actions_step\<close>):
    nobody gets the answer to another call, and every call can be answered, by a rank of the work left that some step
    lowers. \<^verbatim>\<open>Ipc_Once\<close>: no call is carried out twice, by counting what each station of a call has got (\<open>once_inv\<close>).
  \<^item> \<^verbatim>\<open>Ipc_Cmd\<close>, \<^verbatim>\<open>Ipc_Cmd_Runs\<close> (\<^verbatim>\<open>examples/ipc_cmd\<close>): a program with both ends of an endpoint, on top of \<open>actions_step\<close>, whose
    handler is a function once it is known what it returned (\<open>zoom_handler\<close>); the loop ends, the endpoints are deleted, and
    the count its handler's threads share is a race.
  \<^item> \<^verbatim>\<open>Core_Preprocessor\<close> (\<^verbatim>\<open>core/preprocessor.h\<close>), \<^verbatim>\<open>Ipc_Macros\<close> (\<^verbatim>\<open>ipc/message.h\<close>, \<^verbatim>\<open>ipc/user_actions.h\<close>): macros as functions
    on lists of tokens, the loop over the arguments scan by scan, and the loops that declare and bind the members of
    an action, which agree with the classes of \<^verbatim>\<open>Ipc_Actions\<close>.
  \<^item> \<^verbatim>\<open>Daemon\<close> (\<^verbatim>\<open>daemon/\<close>): \<^verbatim>\<open>daemonize\<close> and the signal handler as instructions of interleaved processes
    (\<open>kernel_step\<close>). Runs without signals and without daemons that end (\<open>quiet_step\<close>) have one daemon; in the others a daemon
    that is not signalled itself keeps what it set up and its lock (\<open>undisturbed\<close>), though the name of the file can be lost.
  \<^item> \<^verbatim>\<open>Spec2Isabelle\<close>: the path of a log message from the macros to the subscribers of another process and to its console.

  \<^bold>\<open>What is shown.\<close> Round trips of log messages, frames and IPC messages; delivery in order, each message once,
  over the log connection and over an endpoint, with what must hold for it; that both can always go on;
  mutual exclusion on the shared buffer and of starting daemons; consistency of the registry, the subscribers
  and the handlers; the behaviour on every error path; the trace loop against a specification. Other
  theorems show where the code falls short of what it says, by runs of the model that reach the fault.

  \<^bold>\<open>Bounds and recursion.\<close> Machine integers have their widths (\<^verbatim>\<open>int\<close> 32 bits, \<^verbatim>\<open>size_t\<close> and time points 64 bits,
  ports 16 bits). Loops are functions that terminate: the session consumes its buffer, the trace loop moves towards the end
  of its text, \<open>Logger_log\<close> calls itself only with the mutex locked. Only the parser of \<^verbatim>\<open>Json_Reference\<close>
  has fuel: one more than the length of the text, each call consuming a character, which \<open>ref_parse_show\<close>
  shows to be enough. The macro \<^verbatim>\<open>EVAL\<close> scans its text 1025 times. Runs are finite lists of events of any length.

  \<^bold>\<open>The environment.\<close> Boost.Asio, Boost.Interprocess, the scheduler, the kernel and the network choose which enabled event
  comes next and which call fails; what one of their operations does is the parameter of a locale, or, for the POSIX
  calls of \<^verbatim>\<open>daemonize\<close> and the files of the logger, a small model of descriptors, names, locks and signals.

  \<^bold>\<open>Not modelled.\<close> Exhausted memory, except where an exception of \<^verbatim>\<open>send\<close> is an argument; data races inside one event;
  exceptions of the user's handlers in the server of the composed actions (each alone they are; the composition takes
  handlers that return); a caller of \<^verbatim>\<open>daemonize\<close> that catches what its service throws; the moment at which the table of
  virtual functions changes, apart from the initialisation of the members that follows it;
  blocking of more than one kind at once (a thread that waits while it holds a lock of another component);
  the text of \<^verbatim>\<open>syslog\<close>; of the preprocessor, the rule against recursive expansion and spaces between tokens; in the example
  program \<^verbatim>\<open>ipc_cmd\<close>, the floating point member of the response: how the JSON library binds one cannot be read here, so its
  value and its text are parameters; the umbrella headers.
\<close>

section \<open>From one process to the subscribers of another\<close>

lemma feed_Crashed [simp]: "feed Crashed bs = ([], Crashed)"
  by simp

lemma feed_prefix_not_Crashed:
  "feed s (a @ b) = (ms, t) \<Longrightarrow> t \<noteq> Crashed \<Longrightarrow> snd (feed s a) \<noteq> Crashed"
  by (auto simp: feed_split split: prod.splits)

lemma session_prefix:
  assumes "\<forall>m \<in> set ms. length m < 10 ^ HeaderSize"
    and "concat pieces @ lost = concat (map frame_of ms)"
  shows "\<exists>k ses. feed_all new_session pieces = (take k ms, ses) \<and> ses \<noteq> Crashed \<and>
           (lost = [] \<longrightarrow> k = length ms)"
proof -
  note exist = frames_exist [OF assms(1)]
  have fr: "map (\<lambda>m. header_text (length m) @ m) ms = map frame_of ms"
    by (simp add: frame_of_def)
  obtain ds ses where ds: "feed_all new_session pieces = (ds, ses)" by fastforce
  then have fds: "feed new_session (concat pieces) = (ds, ses)"
    by (simp add: feed_all_concat wire.dec_idle)
  have all: "feed new_session (concat pieces @ lost) = (ms, new_session)"
    using wire.dec_frames_exact [OF exist] assms(2) fr by simp
  have "ses \<noteq> Crashed"
    using feed_prefix_not_Crashed [OF all] fds by (simp add: new_session_def)
  moreover obtain rest where "ms = ds @ rest"
    using all fds by (cases "feed ses lost") (auto simp: feed_split)
  moreover have "ds = ms" if "lost = []" using all fds that by simp
  ultimately show ?thesis
    by (intro exI [of _ "length ds"] exI [of _ ses]) (auto simp: ds)
qed

lemma serialized_synthetizes:
  assumes "json_library J" and "hex_codec H" and "serialize J H m = Ok s"
  shows "synthetize J H now junk s = Ok m"
proof -
  have "j_parse J s = Ok (j_synth J (TimePointElement_synthetize J H) (serialize_template m))"
    using serialize_serializes [OF assms(1), of H m] assms(3) by auto
  from synthetize_body_serialized [OF assms(1,2) this] show ?thesis by (simp add: synthetize_def)
qed

lemma pipeline:
  assumes J: "json_library J" and H: "hex_codec H"
    and inv: "client_inv e"
    and msgs: "list_all2 (\<lambda>m x. serialize J H m = Ok x) msgs (cl_sent e)"
    and bytes: "concat pieces @ lost = concat (drop n0 (cl_wire e))"
    and s: "\<not> sv_fault s" "sv_io s = Running" "sv_sessions s i = Some new_session"
  shows "\<exists>t k. exec (server_step (synthetize J H now junk)) s (map (SessionData i) pieces) = Some t \<and>
           \<not> sv_fault t \<and>
           sub_log t = (\<lambda>j. if j \<in> sv_subscribers s
                          then sub_log s j @ take k (drop n0 msgs) else sub_log s j) \<and>
           (lost = [] \<longrightarrow> k = length (cl_wire e) - n0)"
proof -
  from inv obtain n where n: "cl_wire e = map frame_of (take n (cl_sent e))"
    using client_inv_wire_prefix by blast
  let ?ms = "drop (n0) (take n (cl_sent e))"
  have short: "\<forall>m \<in> set ?ms. length m < 10 ^ HeaderSize"
    using inv by (auto simp: client_inv_def dest!: in_set_dropD in_set_takeD)
  have "concat pieces @ lost = concat (map frame_of ?ms)" using bytes n by (simp add: drop_map)
  then obtain k ses where k: "feed_all new_session pieces = (take k ?ms, ses)" "ses \<noteq> Crashed"
      "lost = [] \<longrightarrow> k = length ?ms"
    using session_prefix [OF short] by blast
  let ?k = "min k (n - n0)"
  have takes: "take k ?ms = take ?k (drop (n0) (cl_sent e))"
    by (simp add: drop_take)
  have "list_all2 (\<lambda>x m. synthetize J H now junk x = Ok m)
      (take ?k (drop (n0) (cl_sent e))) (take ?k (drop (n0) msgs))"
    using msgs serialized_synthetizes [OF J H]
    by (intro list_all2_takeI list_all2_dropI) (auto simp: list_all2_conv_all_nth)
  moreover have "lost = [] \<longrightarrow> ?k = length (cl_wire e) - n0"
    using k(3) n by auto
  ultimately show ?thesis
    using session_pieces_ok [OF s k(1,2)] unfolding takes by blast
qed

text \<open>
  C2. The whole path of a log message. Between two points \<open>d\<close> and \<open>e\<close> of a calm run, a client writes frames to one
  connection; TCP hands any initial part of their bytes, in any pieces, to a fresh session of a running
  server. Then the server does not fail, every subscriber is given an initial part of the messages the
  client serialised into those frames, the same messages in the same order and nothing else, and all of
  them when no byte was lost.
\<close>

theorem log_pipeline:
  assumes J: "json_library J" and H: "hex_codec H"
    and c: "new_client True = Ok c" and d: "exec calm_step c es = Some d"
    and e: "exec calm_step d fs = Some e"
    and msgs: "list_all2 (\<lambda>m x. serialize J H m = Ok x) msgs (cl_sent e)"
    and bytes: "concat pieces @ lost = concat (drop (length (cl_wire d)) (cl_wire e))"
    and s: "\<not> sv_fault s" "sv_io s = Running" "sv_sessions s i = Some new_session"
  shows "\<exists>t k. exec (server_step (synthetize J H now junk)) s (map (SessionData i) pieces) = Some t \<and>
           \<not> sv_fault t \<and>
           sub_log t = (\<lambda>j. if j \<in> sv_subscribers s
                          then sub_log s j @ take k (drop (length (cl_wire d)) msgs) else sub_log s j) \<and>
           (lost = [] \<longrightarrow> k = length (cl_wire e) - length (cl_wire d))"
proof -
  have "client_inv e"
    using client_inv_start c d e by (auto simp: new_client_def intro: calm_client.exec_keeps)
  from pipeline [OF J H this msgs bytes s] show ?thesis .
qed

lemma small_message:
  "\<exists>x. serialize ref_json ref_hex_lib (blank_message 0) = Ok x \<and> length x < 10 ^ HeaderSize"
proof -
  have "(case serialize ref_json ref_hex_lib (blank_message 0) of Ok x \<Rightarrow> length x < 1000 | _ \<Rightarrow> False)"
    by code_simp
  then show ?thesis by (cases "serialize ref_json ref_hex_lib (blank_message 0)") (auto simp: HeaderSize_def)
qed

theorem log_pipeline_witness:
  "\<exists>t x. serialize ref_json ref_hex_lib (blank_message 0) = Ok x \<and>
     exec (server_step (synthetize ref_json ref_hex_lib 0 True))
       (new_server\<lparr>sv_io := Running, sv_sessions := [7 \<mapsto> new_session], sv_subscribers := {1}\<rparr>)
       [SessionData 7 (take 3 (frame_of x)), SessionData 7 (drop 3 (frame_of x))] = Some t \<and>
     sub_log t 1 = [blank_message 0] \<and> sub_log t 2 = []"
proof -
  let ?s = "new_server\<lparr>sv_io := Running, sv_sessions := [7 \<mapsto> new_session], sv_subscribers := {1}\<rparr>"
  obtain x where x: "serialize ref_json ref_hex_lib (blank_message 0) = Ok x" "length x < 10 ^ HeaderSize"
    using small_message by blast
  obtain c where c: "new_client True = Ok c" by (simp add: new_client_def)
  have wc: "cl_wire c = []"
    using c by (auto simp: new_client_def M_doConnect_def client_blank_def)
  have c0: "exec calm_step c [] = Some c" by simp
  obtain e where e: "exec calm_step c [Send x, RunPosted, Connected, WriteDone 0] = Some e"
      "cl_sent e = [x]" "cl_wire e = [frame_of x]"
    using c x(2) by (auto simp: new_client_def client_blank_def calm_step_def client_step.simps handler_defs
        send_step_Ok Let_def)
  have msgs: "list_all2 (\<lambda>m x. serialize ref_json ref_hex_lib m = Ok x) [blank_message 0] (cl_sent e)"
    using x e by simp
  have bytes: "concat [take 3 (frame_of x), drop 3 (frame_of x)] @ [] =
      concat (drop (length (cl_wire c)) (cl_wire e))"
    using e wc by simp
  have s: "\<not> sv_fault ?s" "sv_io ?s = Running" "sv_sessions ?s 7 = Some new_session"
    by (simp_all add: new_server_def)
  show ?thesis
    using log_pipeline [OF ref.json_library_axioms ref_hex.hex_codec_axioms c c0 e(1) msgs bytes s,
        of 0 True] e wc x
    by (auto simp: new_server_def)
qed

section \<open>From the macros to the subscribers\<close>

text \<open>The messages of the macro uses that went to the client.\<close>

definition logged_messages :: "'n log_env \<Rightarrow> logger \<Rightarrow> log_event list \<Rightarrow> message list" where
  "logged_messages E g es =
     concat (map (\<lambda>e. case e of
         LLog now None l \<Rightarrow> (case build_message E now l (process_info_of g) of Ok m \<Rightarrow> [m] | _ \<Rightarrow> [])
       | _ \<Rightarrow> []) es)"

definition sends :: "client_event list \<Rightarrow> string list" where
  "sends evs = concat (map (\<lambda>e. case e of Send x \<Rightarrow> [x] | _ \<Rightarrow> []) evs)"

lemma sends_append: "sends (xs @ ys) = sends xs @ sends ys"
  by (simp add: sends_def)

lemma calm_step_client: "calm_step c e = Some d \<Longrightarrow> client_step c e = Some d"
  by (simp add: calm_step_def split: if_splits)

lemma exec_calm_client: "exec calm_step c es = Some d \<Longrightarrow> exec client_step c es = Some d"
  by (induction es arbitrary: c) (auto split: option.splits dest: calm_step_client)

lemma handlers_sent:
  assumes "client_step c e = Some d" and "\<And>x. e \<noteq> Send x"
  shows "cl_sent d = cl_sent c"
  using assms
  by (cases e)
    (auto simp: client_step.simps handler_defs Let_def split: if_splits list.splits posted.splits outcome.splits)

lemma calm_sent_step: "calm_step c e = Some d \<Longrightarrow> cl_sent d = cl_sent c @ sends [e]"
proof (cases e)
  case (Send x)
  assume "calm_step c e = Some d"
  then show ?thesis using Send
    by (auto simp: calm_step_def client_step.simps send_step_Ok sends_def split: if_splits)
qed (use handlers_sent [OF calm_step_client] in \<open>auto simp: sends_def\<close>)

lemma calm_sent: "exec calm_step c es = Some d \<Longrightarrow> cl_sent d = cl_sent c @ sends es"
proof (induction es arbitrary: c)
  case (Cons e es)
  then obtain b where "calm_step c e = Some b" "exec calm_step b es = Some d" by (auto split: option.splits)
  then show ?case using Cons.IH [of b] calm_sent_step [of c e b] sends_append [of "[e]" es] by simp
qed (simp add: sends_def)

lemma logger_step_io: "logger_step E s (LRemote ev) = Some t \<Longrightarrow> io_event ev"
  by (auto simp: logger_step_def remote_step_def split: if_splits option.splits)

lemma logger_run_io: "exec (logger_step E) s es = Some t \<Longrightarrow> LRemote ev \<in> set es \<Longrightarrow> io_event ev"
  by (induction es arbitrary: s) (auto split: option.splits dest: logger_step_io)

lemma calm_send_fits: "exec calm_step c es = Some d \<Longrightarrow> Send x \<in> set es \<Longrightarrow> length x < 10 ^ HeaderSize"
  by (induction es arbitrary: c) (auto simp: calm_step_def split: option.splits if_splits)

lemma sends_logged_one:
  assumes "lg_remote g \<noteq> None" and "\<forall>ev. e = LRemote ev \<longrightarrow> io_event ev"
    and "\<forall>x. Send x \<in> set (client_events E g e) \<longrightarrow> length x < 10 ^ HeaderSize"
  shows "sends (client_events E g e) = map (serialized E) (logged_messages E g [e])"
proof (cases e)
  case (LRemote ev)
  then show ?thesis using assms(2)
    by (cases ev) (auto simp: client_events_def logged_messages_def sends_def)
next
  case (LLog now raised l)
  show ?thesis
  proof (cases "build_message E now l (process_info_of g)")
    case (Ok m)
    show ?thesis
    proof (cases raised)
      case None
      then show ?thesis using assms(1) Ok by (simp add: LLog client_events_def logged_def logged_messages_def sends_def)
    next
      case (Some x)
      have "length (serialized E m) < 10 ^ HeaderSize"
      proof (rule ccontr)
        assume long: "\<not> length (serialized E m) < 10 ^ HeaderSize"
        then have "client_events E g e = [Send (serialized E m)]"
          using assms(1) Ok Some by (simp only: LLog client_events_def logged_def) simp
        then show False using assms(3) long by (metis list.set_intros(1))
      qed
      then show ?thesis using assms(1) Ok Some
        by (simp only: LLog client_events_def logged_def logged_messages_def sends_def) simp
    qed
  qed (simp_all add: LLog client_events_def logged_def logged_messages_def sends_def split: option.split)
qed (simp_all add: client_events_def logged_def logged_messages_def sends_def)

lemma sends_logged:
  assumes "lg_remote g \<noteq> None" and "\<forall>ev. LRemote ev \<in> set es \<longrightarrow> io_event ev"
    and "\<forall>x. Send x \<in> set (logged_events E g es) \<longrightarrow> length x < 10 ^ HeaderSize"
  shows "sends (logged_events E g es) = map (serialized E) (logged_messages E g es)"
  using assms(2,3)
proof (induction es)
  case (Cons e es)
  have "sends (client_events E g e) = map (serialized E) (logged_messages E g [e])"
    by (rule sends_logged_one [OF assms(1)]) (use Cons.prems in auto)
  moreover have "logged_messages E g (e # es) = logged_messages E g [e] @ logged_messages E g es"
    by (simp add: logged_messages_def)
  ultimately show ?case using Cons by (simp add: sends_append)
qed (simp add: sends_def logged_messages_def)

text \<open>What an initialised logger with a calm client has written: the serialised messages of its uses, framed.\<close>

lemma logged_frames:
  assumes J: "json_library (le_json E)"
    and init: "Logger_init E True argc argv port prefix (logger_start files) = Ok s"
    and opens: "le_can_open E (fallback_name E prefix)"
    and uses: "\<forall>e \<in> set es. in_service e" and run: "exec (logger_step E) s es = Some t"
    and g: "ls_inst s = Some g"
    and calm: "exec calm_step (M_doConnect True client_blank) (logged_events E g es) = Some d"
  shows "\<exists>h. ls_inst t = Some h \<and> lg_remote h = Some d" and "client_inv d"
    and "list_all2 (\<lambda>m x. serialize (le_json E) (le_hex E) m = Ok x) (logged_messages E g es) (cl_sent d)"
proof -
  let ?c = "M_doConnect True client_blank"
  obtain old where old: "serving g old s" "lg_remote g = Some ?c"
    using Logger_init_serving [OF init opens] g by (auto simp: serving_def)
  have "\<not> cl_terminate ?c" by (simp add: M_doConnect_def client_blank_def)
  then obtain r where r: "serving (g\<lparr>lg_remote := r\<rparr>) (old @ logged_text E g es) t"
      "\<exists>b. r = Some b \<and> exec client_step ?c (logged_events E g es) = Some b"
    using logger_run_serving [OF J old(1) uses run] old(2) by (elim exE conjE) simp
  then show "\<exists>h. ls_inst t = Some h \<and> lg_remote h = Some d"
    using exec_calm_client [OF calm] by (auto simp: serving_def)
  show "client_inv d" using client_inv_start calm by (rule calm_client.exec_keeps)
  have "cl_sent d = sends (logged_events E g es)"
    using calm_sent [OF calm] by (simp add: M_doConnect_def client_blank_def)
  also have "\<dots> = map (serialized E) (logged_messages E g es)"
    using sends_logged old(2) logger_run_io [OF run] calm_send_fits [OF calm] by blast
  finally show "list_all2 (\<lambda>m x. serialize (le_json E) (le_hex E) m = Ok x) (logged_messages E g es) (cl_sent d)"
    by (simp add: list_all2_conv_all_nth serialize_serialized [OF J])
qed

text \<open>
  From the macros to the subscribers. A program initialises its logger and uses the macros while its
  client makes a calm run; the bytes the client wrote reach, in any pieces and perhaps not all of them, a fresh
  session of a running server. Then the subscribers of that server are given an initial part of the messages
  built at the uses that were sent, in the order of the uses, and as many as the client wrote
  frames when no byte was lost.
\<close>

theorem logging_reaches_subscribers:
  assumes J: "json_library (le_json E)" and H: "hex_codec (le_hex E)"
    and init: "Logger_init E True argc argv port prefix (logger_start files) = Ok s"
    and opens: "le_can_open E (fallback_name E prefix)"
    and uses: "\<forall>e \<in> set es. in_service e" and run: "exec (logger_step E) s es = Some t"
    and g: "ls_inst s = Some g"
    and calm: "exec calm_step (M_doConnect True client_blank) (logged_events E g es) = Some d"
    and bytes: "concat pieces @ lost = concat (cl_wire d)"
    and sv: "\<not> sv_fault v" "sv_io v = Running" "sv_sessions v i = Some new_session"
  shows "(\<exists>h. ls_inst t = Some h \<and> lg_remote h = Some d) \<and>
         (\<exists>u k. exec (server_step (synthetize (le_json E) (le_hex E) now junk)) v (map (SessionData i) pieces) = Some u \<and>
            \<not> sv_fault u \<and>
            sub_log u = (\<lambda>j. if j \<in> sv_subscribers v
                           then sub_log v j @ take k (logged_messages E g es) else sub_log v j) \<and>
            (lost = [] \<longrightarrow> k = length (cl_wire d)))"
proof -
  note logged = logged_frames [OF J init opens uses run g calm]
  have "concat pieces @ lost = concat (drop 0 (cl_wire d))" using bytes by simp
  from pipeline [OF J H logged(2,3) this sv, of now junk] logged(1) show ?thesis
    unfolding drop_0 diff_zero by blast
qed

text \<open>A use of the macro in the environment of the examples, sent, connected and written.\<close>

lemma demo_logged:
  defines "c \<equiv> M_doConnect True client_blank"
    and "es \<equiv> [LLog 0 None demo_log_site, LRemote RunPosted, LRemote Connected, LRemote (WriteDone 0)]"
  shows "\<exists>d. exec (logger_step demo_log_env) (demo_logging (Some c) []) es = Some (demo_logging (Some d) []) \<and>
     exec calm_step c (logged_events demo_log_env (demo_logger (Some c)) es) = Some d \<and>
     cl_wire d = [frame_of (serialized demo_log_env demo_message)]"
    and "logged_messages demo_log_env (demo_logger (Some c)) es = [demo_message]"
    and "\<forall>e \<in> set es. in_service e"
proof -
  let ?x = "serialized demo_log_env demo_message"
  note len = demo_message_short
  obtain c1 c2 c3 d where c: "client_step c (Send ?x) = Some c1" "client_step c1 RunPosted = Some c2"
      "client_step c2 Connected = Some c3" "client_step c3 (WriteDone 0) = Some d"
    and ok: "cl_fault c = None" "cl_fault c1 = None" "cl_fault c2 = None" "cl_fault c3 = None" "cl_wire d = [frame_of ?x]"
      "send_step ?x c = c1"
    by (simp add: c_def client_blank_def client_step.simps handler_defs send_step_Ok [OF len] Let_def)
  have calm: "exec calm_step c [Send ?x, RunPosted, Connected, WriteDone 0] = Some d"
    using c len by (simp add: calm_step_def)
  have first: "logger_step demo_log_env (demo_logging (Some c) []) (LLog 0 None demo_log_site) = Some (demo_logging (Some c1) [])"
    using ok(1,6) by (simp add: demo_step_log)
  have run: "exec (logger_step demo_log_env) (demo_logging (Some c) []) es = Some (demo_logging (Some d) [])"
    using first demo_step_remote [OF ok(2) _ c(2)] demo_step_remote [OF ok(3) _ c(3)] demo_step_remote [OF ok(4) _ c(4)]
    by (simp add: es_def)
  have events: "logged_events demo_log_env (demo_logger (Some c)) es = [Send ?x, RunPosted, Connected, WriteDone 0]"
    by (simp add: es_def client_events_def logged_def demo_build)
  show "\<exists>d. exec (logger_step demo_log_env) (demo_logging (Some c) []) es = Some (demo_logging (Some d) []) \<and>
     exec calm_step c (logged_events demo_log_env (demo_logger (Some c)) es) = Some d \<and> cl_wire d = [frame_of ?x]"
    using run calm ok(5) unfolding events by blast
  show "logged_messages demo_log_env (demo_logger (Some c)) es = [demo_message]"
    by (simp add: es_def logged_messages_def demo_build)
  show "\<forall>e \<in> set es. in_service e" by (simp add: es_def)
qed

lemma demo_log_libraries:
  "le_json demo_log_env = ref_json" "le_hex demo_log_env = ref_hex_lib" "hex_codec (le_hex demo_log_env)"
  "le_can_open demo_log_env (fallback_name demo_log_env ''log.'')"
  using ref_hex.hex_codec_axioms by (simp_all add: demo_log_env_def)

theorem logging_reaches_subscribers_witness:
  "\<exists>s t u es pieces. Logger_init demo_log_env True 0 None ServerPort ''log.'' (logger_start (\<lambda>_. None)) = Ok s \<and>
     exec (logger_step demo_log_env) s es = Some t \<and>
     exec (server_step (synthetize ref_json ref_hex_lib 0 True))
       (new_server\<lparr>sv_io := Running, sv_sessions := [7 \<mapsto> new_session], sv_subscribers := {1}\<rparr>)
       (map (SessionData 7) pieces) = Some u \<and>
     sub_log u 1 = [demo_message] \<and> sub_log u 2 = []"
proof -
  let ?v = "new_server\<lparr>sv_io := Running, sv_sessions := [7 \<mapsto> new_session], sv_subscribers := {1}\<rparr>"
  obtain d where d: "exec (logger_step demo_log_env) (demo_logging (Some (M_doConnect True client_blank)) [])
        [LLog 0 None demo_log_site, LRemote RunPosted, LRemote Connected, LRemote (WriteDone 0)] = Some (demo_logging (Some d) [])"
      "exec calm_step (M_doConnect True client_blank) (logged_events demo_log_env (demo_logger (Some (M_doConnect True client_blank)))
        [LLog 0 None demo_log_site, LRemote RunPosted, LRemote Connected, LRemote (WriteDone 0)]) = Some d"
      "cl_wire d = [frame_of (serialized demo_log_env demo_message)]"
    using demo_logged(1) by (elim exE conjE)
  have inst: "ls_inst (demo_logging (Some (M_doConnect True client_blank)) []) = Some (demo_logger (Some (M_doConnect True client_blank)))"
    by simp
  have bytes: "concat [frame_of (serialized demo_log_env demo_message)] @ [] = concat (cl_wire d)" using d(3) by simp
  have v: "\<not> sv_fault ?v" "sv_io ?v = Running" "sv_sessions ?v 7 = Some new_session" by (simp_all add: new_server_def)
  obtain u k where u: "exec (server_step (synthetize ref_json ref_hex_lib 0 True)) ?v
        (map (SessionData 7) [frame_of (serialized demo_log_env demo_message)]) = Some u"
      "sub_log u = (\<lambda>j. if j \<in> sv_subscribers ?v then sub_log ?v j @ take k [demo_message] else sub_log ?v j)" "k = 1"
    using logging_reaches_subscribers [OF demo_library demo_log_libraries(3) demo_init demo_log_libraries(4)
        demo_logged(3) d(1) inst d(2) bytes v, of 0 True] d(3)
    unfolding demo_logged(2) demo_log_libraries(1,2) by auto
  have "sub_log u 1 = [demo_message]" "sub_log u 2 = []" using u(2,3) by (simp_all add: new_server_def)
  with u(1) demo_init d(1) show ?thesis by blast
qed

section \<open>From the macros to the console of the log server\<close>

lemma built_message_prints:
  assumes "hex_codec (le_hex E)" and "build_message E now l pinfo = Ok m"
  shows "\<exists>r. plain_light (le_hex E) ctime d m os = Ok r"
proof (rule plain_light_prints [OF assms(1)])
  show "case m_exception_info m of None \<Rightarrow> True
      | Some x \<Rightarrow> ei_trace x = [] \<or> (\<exists>t. h_unhex (le_hex E) (ei_trace x) = Ok t)"
  proof (cases "lo_exc l")
    case None
    then show ?thesis using assms(2) by (auto simp: build_message_def Message_def Let_def outcome_simps)
  next
    case (Some e)
    obtain pi body where "Message_exception (le_hex E) (\<lambda>c. le_rtti E (CoreExc e)) (le_show_trace E) now
        (type_code (lo_type l)) (log_build_info (le_build E) (lo_site l)) pi body e = Ok m"
      using assms(2) Some by (auto simp: build_message_def Let_def outcome_simps)
    then show ?thesis using hex_codec.unhex_hex [OF assms(1)]
      by (auto simp: Message_exception_def Let_def outcome_simps)
  qed
qed

lemma logged_message_prints:
  assumes "hex_codec (le_hex E)" and "m \<in> set (logged_messages E g es)"
  shows "\<exists>r. plain_light (le_hex E) ctime dm m os = Ok r"
  using assms(2) built_message_prints [OF assms(1)]
  by (auto simp: logged_messages_def split: log_event.splits option.splits outcome.splits)

text \<open>
  C1. From the macros to the console. In the situation of the previous theorem, with the log server program at
  the other end, constructed and running: it prints, after what its standard output held, an initial part of the
  messages built at the uses of the macros that were sent, each as \<^verbatim>\<open>plain_light\<close> lays it out, in the order of the
  uses, all that the client wrote when no byte was lost; no message that the macros can build takes
  the server down.
\<close>

theorem logging_reaches_console:
  assumes J: "json_library (le_json E)" and H: "hex_codec (le_hex E)"
    and init: "Logger_init E True argc argv port prefix (logger_start files) = Ok s"
    and opens: "le_can_open E (fallback_name E prefix)"
    and uses: "\<forall>e \<in> set es. in_service e" and run: "exec (logger_step E) s es = Some t"
    and g: "ls_inst s = Some g"
    and calm: "exec calm_step (M_doConnect True client_blank) (logged_events E g es) = Some d"
    and bytes: "concat pieces @ lost = concat (cl_wire d)"
    and sv: "\<not> sv_fault (so_server v)" "sv_io (so_server v) = Running" "sv_sessions (so_server v) i = Some new_session"
    and out: "so_out v = Formatting" "0 \<in> sv_subscribers (so_server v)" "os_fill (so_cout v) = CHR '' ''"
  shows "\<exists>w k. exec (service_step (synthetize (le_json E) (le_hex E) now junk) (plain_light (le_hex E) ctime dm)) v
             (map (SServer \<circ> SessionData i) pieces) = Some w \<and>
           \<not> sv_fault (so_server w) \<and>
           so_cout w = put (concat (map (rendered (plain_light (le_hex E) ctime dm)) (take k (logged_messages E g es)))) (so_cout v) \<and>
           (lost = [] \<longrightarrow> k = length (cl_wire d))"
proof -
  note logged = logged_frames [OF J init opens uses run g calm]
  have "concat pieces @ lost = concat (drop 0 (cl_wire d))" using bytes by simp
  from pipeline [OF J H logged(2,3) this sv, of now junk]
  obtain u k where u: "exec (server_step (synthetize (le_json E) (le_hex E) now junk)) (so_server v) (map (SessionData i) pieces) = Some u"
      "\<not> sv_fault u" and
    log: "sub_log u = (\<lambda>j. if j \<in> sv_subscribers (so_server v) then sub_log (so_server v) j @ take k (drop 0 (logged_messages E g es))
         else sub_log (so_server v) j)" and k: "lost = [] \<longrightarrow> k = length (cl_wire d) - 0"
    by (elim exE conjE)
  have "sub_log u 0 = sub_log (so_server v) 0 @ take k (logged_messages E g es)" using log out(2) by simp
  moreover have "\<forall>m \<in> set (take k (logged_messages E g es)). \<exists>r. plain_light (le_hex E) ctime dm m blank_stream = Ok r"
    using logged_message_prints [OF H] by (auto dest: in_set_takeD)
  ultimately show ?thesis
    using service_prints [OF u _ out(1) _ out(3), of _ "le_hex E" ctime dm] u(2) k
    by (intro exI [of _ "v\<lparr>so_server := u, so_cout := put (concat (map (rendered (plain_light (le_hex E) ctime dm))
          (take k (logged_messages E g es)))) (so_cout v)\<rparr>"] exI [of _ k]) simp
qed

text \<open>A running log server with one connection and nothing printed yet.\<close>

definition demo_service :: log_service where
  "demo_service =
     \<lparr>so_server = new_server\<lparr>sv_built := True, sv_io := Running, sv_accepting := True, sv_sessions := [7 \<mapsto> new_session],
        sv_subscribers := {0}, sub_server := [0 \<mapsto> True]\<rparr>,
      so_pointer = True, so_out = Formatting, so_built = True, so_cout = blank_stream, so_locked = True\<rparr>"

theorem logging_reaches_console_witness:
  "\<exists>t w pieces. exec (logger_step demo_log_env) (demo_logging (Some (M_doConnect True client_blank)) [])
       [LLog 0 None demo_log_site, LRemote RunPosted, LRemote Connected, LRemote (WriteDone 0)] = Some t \<and>
     exec (service_step (synthetize ref_json ref_hex_lib 0 True) (plain_light ref_hex_lib (\<lambda>_. ''now'' @ [nl]) (\<lambda>_. None)))
       demo_service (map (SServer \<circ> SessionData 7) pieces) = Some w \<and>
     os_text (so_cout w) = ''now | demo     <b> |          (    0) | Info:   hello'' @ [nl]"
proof -
  let ?fmt = "plain_light ref_hex_lib (\<lambda>_. ''now'' @ [nl]) (\<lambda>_. None)"
  obtain d where d: "exec (logger_step demo_log_env) (demo_logging (Some (M_doConnect True client_blank)) [])
        [LLog 0 None demo_log_site, LRemote RunPosted, LRemote Connected, LRemote (WriteDone 0)] = Some (demo_logging (Some d) [])"
      "exec calm_step (M_doConnect True client_blank) (logged_events demo_log_env (demo_logger (Some (M_doConnect True client_blank)))
        [LLog 0 None demo_log_site, LRemote RunPosted, LRemote Connected, LRemote (WriteDone 0)]) = Some d"
      "cl_wire d = [frame_of (serialized demo_log_env demo_message)]"
    using demo_logged(1) by (elim exE conjE)
  have inst: "ls_inst (demo_logging (Some (M_doConnect True client_blank)) []) = Some (demo_logger (Some (M_doConnect True client_blank)))"
    by simp
  have bytes: "concat [frame_of (serialized demo_log_env demo_message)] @ [] = concat (cl_wire d)" using d(3) by simp
  have v: "\<not> sv_fault (so_server demo_service)" "sv_io (so_server demo_service) = Running"
      "sv_sessions (so_server demo_service) 7 = Some new_session" "so_out demo_service = Formatting"
      "0 \<in> sv_subscribers (so_server demo_service)" "os_fill (so_cout demo_service) = CHR '' ''"
    by (simp_all add: demo_service_def new_server_def blank_stream_def)
  have line: "rendered ?fmt demo_message = ''now | demo     <b> |          (    0) | Info:   hello'' @ [nl]"
    by code_simp
  obtain w k where w: "exec (service_step (synthetize ref_json ref_hex_lib 0 True) ?fmt) demo_service
        (map (SServer \<circ> SessionData 7) [frame_of (serialized demo_log_env demo_message)]) = Some w"
      "so_cout w = put (concat (map (rendered ?fmt) (take k [demo_message]))) (so_cout demo_service)" "k = 1"
    using logging_reaches_console [OF demo_library demo_log_libraries(3) demo_init demo_log_libraries(4)
        demo_logged(3) d(1) inst d(2) bytes v, of 0 True "\<lambda>_. ''now'' @ [nl]" "\<lambda>_. None"] d(3)
    unfolding demo_logged(2) demo_log_libraries(1,2) by auto
  have "os_text (so_cout w) = ''now | demo     <b> |          (    0) | Info:   hello'' @ [nl]"
    using w(2,3) line by (simp add: demo_service_def blank_stream_def)
  with w(1) d(1) show ?thesis by blast
qed

end
